(* ===== verification/Prelude.thy ===== *)
theory Prelude
  imports Main "HOL-Library.AList" "HOL-Library.Word"
begin

text \<open>
  What every component theory shares: the names of the model's basic types, the hash
  tables of the Qt and C++ containers as association lists, lists from which elements are
  taken by a predicate, and the collections of automation the component proofs use.

  \<^item> \<open>u8\<close>, \<open>u32\<close>, \<open>u64\<close> are the C++ fixed-width unsigned integers, \<open>bytes\<close> a
    \<open>std::vector<uint8_t>\<close>.
  \<^item> \<open>qstring\<close> is a \<open>QString\<close> or \<open>std::string\<close>, represented by its UTF-8 bytes; the code
    converts between the two at every boundary and compares by value only.
  \<^item> A \<open>QHash\<close> or \<open>std::map\<close> is an association list with distinct keys (\<open>hash_wf\<close>).
    The order of the list stands for the container's iteration order. Theorems about
    results that are collected from a whole \<open>QHash\<close> speak of sets, not of an order.
  \<^item> A \<open>QSet\<close> is a list without duplicates, updated by \<open>List.insert\<close>.
\<close>

named_theorems store_simps "how the operations of a token store act on its table"
named_theorems reg_simps "how registry operations act on the fields of the registry state"

type_synonym u8 = "8 word"
type_synonym u32 = "32 word"
type_synonym u64 = "64 word"
type_synonym bytes = "u8 list"
type_synonym qstring = string

subsection \<open>Hash tables\<close>

type_synonym ('k, 'v) qhash = "('k \<times> 'v) list"

abbreviation hash_find :: "('k, 'v) qhash \<Rightarrow> 'k \<Rightarrow> 'v option" where
  "hash_find h k \<equiv> map_of h k"

definition hash_value :: "('k, 'v) qhash \<Rightarrow> 'k \<Rightarrow> 'v \<Rightarrow> 'v" where
  "hash_value h k d = (case hash_find h k of None \<Rightarrow> d | Some v \<Rightarrow> v)"

definition hash_contains :: "('k, 'v) qhash \<Rightarrow> 'k \<Rightarrow> bool" where
  "hash_contains h k = (hash_find h k \<noteq> None)"

definition hash_insert :: "'k \<Rightarrow> 'v \<Rightarrow> ('k, 'v) qhash \<Rightarrow> ('k, 'v) qhash" where
  "hash_insert k v h = AList.update k v h"

definition hash_remove :: "'k \<Rightarrow> ('k, 'v) qhash \<Rightarrow> ('k, 'v) qhash" where
  "hash_remove k h = AList.delete k h"

definition hash_keys :: "('k, 'v) qhash \<Rightarrow> 'k list" where
  "hash_keys h = map fst h"

definition hash_wf :: "('k, 'v) qhash \<Rightarrow> bool" where
  "hash_wf h = distinct (map fst h)"

lemma hash_find_insert [simp]:
  "hash_find (hash_insert k v h) k' = (if k' = k then Some v else hash_find h k')"
  by (simp add: hash_insert_def update_conv')

lemma hash_find_remove [simp]:
  "hash_find (hash_remove k h) k' = (if k' = k then None else hash_find h k')"
  by (simp add: hash_remove_def delete_conv')

lemma hash_value_insert [simp]:
  "hash_value (hash_insert k v h) k' d = (if k' = k then v else hash_value h k' d)"
  by (simp add: hash_value_def)

lemma hash_value_remove [simp]:
  "hash_value (hash_remove k h) k' d = (if k' = k then d else hash_value h k' d)"
  by (simp add: hash_value_def)

lemma hash_value_Nil [simp]: "hash_value [] k d = d"
  by (simp add: hash_value_def)

lemma hash_contains_Nil [simp]: "hash_contains [] k = False"
  by (simp add: hash_contains_def)

lemma hash_contains_insert [simp]:
  "hash_contains (hash_insert k v h) k' = (k' = k \<or> hash_contains h k')"
  by (simp add: hash_contains_def)

lemma hash_contains_remove [simp]:
  "hash_contains (hash_remove k h) k' = (k' \<noteq> k \<and> hash_contains h k')"
  by (simp add: hash_contains_def)

lemma set_hash_keys: "set (hash_keys h) = {k. hash_contains h k}"
  by (auto simp: hash_keys_def hash_contains_def map_of_eq_None_iff)

lemma set_hash_keys_insert [simp]:
  "set (hash_keys (hash_insert k v h)) = insert k (set (hash_keys h))"
  by (auto simp: set_hash_keys)

lemma hash_wf_Nil [simp]: "hash_wf []"
  by (simp add: hash_wf_def)

lemma hash_wf_insert [simp]: "hash_wf h \<Longrightarrow> hash_wf (hash_insert k v h)"
  by (simp add: hash_wf_def hash_insert_def distinct_update)

lemma hash_wf_remove [simp]: "hash_wf h \<Longrightarrow> hash_wf (hash_remove k h)"
  by (simp add: hash_wf_def hash_remove_def distinct_delete)

lemma hash_wf_in: "hash_wf h \<Longrightarrow> (k, v) \<in> set h \<longleftrightarrow> hash_find h k = Some v"
  by (simp add: hash_wf_def)

subsection \<open>Words\<close>

lemma and_ff: "Bit_Operations.and x (0xff :: u32) = take_bit 8 x"
  by (simp add: take_bit_eq_mask mask_eq_exp_minus_1)

lemma unat_word_of_nat: "n < 2 ^ LENGTH('a) \<Longrightarrow> unat (word_of_nat n :: 'a::len word) = n"
  by (simp add: unsigned_of_nat take_bit_nat_eq_self)

subsection \<open>Entries of a list by a predicate\<close>

lemma filter_split_set: "set (filter P xs) \<union> set (filter (\<lambda>x. \<not> P x) xs) = set xs"
  by auto

lemma map_filter_append_disjoint:
  "distinct (map f xs) \<Longrightarrow> set (map f (filter P xs)) \<inter> set (map f (filter (\<lambda>x. \<not> P x) xs)) = {}"
  by (induction xs) auto

lemma distinct_map_filterI: "distinct (map f xs) \<Longrightarrow> distinct (map f (filter P xs))"
  by (rule distinct_map_filter)

end
