(* ===== verification/Token_Store.thy ===== *)
theory Token_Store
  imports Prelude
begin

text \<open>
  \<open>cpp/token_manager.{h,cpp}\<close>: one token store (\<open>TokenManager\<close>) with its two key
  namespaces, and the per-image registry of stores by identity.

  A store is one table. Outbound tokens (what this identity presents to a peer) are filed
  under the peer's bare name, inbound tokens (what this identity issued to a caller) under
  \<open>inboundKey caller\<close>. Every operation returns the new store; those that emit a Qt signal
  return the signals with it. The mutex of the store makes each operation one atomic step.

  The registry hands out references: \<open>AmbientStore\<close> is \<open>TokenManager::instance()\<close>,
  \<open>PrivateStore n\<close> the heap object of the isolated identity \<open>n\<close>. \<open>deref\<close> and \<open>assign\<close>
  read and write the object a reference points at, so aliasing is explicit.
\<close>

subsection \<open>Keys and namespaces\<close>

definition namespaceChar :: char where
  "namespaceChar = CHR 0x01"

definition inboundKey :: "qstring \<Rightarrow> qstring" where
  "inboundKey caller = [namespaceChar] @ ''in'' @ [namespaceChar] @ caller"

definition isReservedKey :: "qstring \<Rightarrow> bool" where
  "isReservedKey key = (namespaceChar \<in> set key)"

definition bootstrapKeys :: "qstring list" where
  "bootstrapKeys = [''core'', ''capability_module'']"

lemma isReservedKey_inboundKey [simp]: "isReservedKey (inboundKey c)"
  by (simp add: isReservedKey_def inboundKey_def)

lemma inboundKey_inj [simp]: "inboundKey a = inboundKey b \<longleftrightarrow> a = b"
  by (simp add: inboundKey_def)

lemma inboundKey_neq_bare [simp]:
  "\<not> isReservedKey k \<Longrightarrow> k \<noteq> inboundKey c"
  "\<not> isReservedKey k \<Longrightarrow> inboundKey c \<noteq> k"
  by auto

lemma bootstrapKeys_not_reserved: "k \<in> set bootstrapKeys \<Longrightarrow> \<not> isReservedKey k"
  by (auto simp: bootstrapKeys_def isReservedKey_def namespaceChar_def)

subsection \<open>One store: the outbound half\<close>

datatype token_signal = TokenSaved qstring | TokenRemoved qstring | AllTokensCleared

record token_manager =
  m_tokens :: "(qstring, qstring) qhash"

definition newTokenManager :: token_manager where
  "newTokenManager = \<lparr>m_tokens = []\<rparr>"

definition saveToken :: "qstring \<Rightarrow> qstring \<Rightarrow> token_manager \<Rightarrow> token_manager \<times> token_signal list" where
  "saveToken key token s =
     (if isReservedKey key then (s, [])
      else (s\<lparr>m_tokens := hash_insert key token (m_tokens s)\<rparr>, [TokenSaved key]))"

definition getToken :: "token_manager \<Rightarrow> qstring \<Rightarrow> qstring" where
  "getToken s key =
     (if isReservedKey key then [] else hash_value (m_tokens s) key [])"

definition hasToken :: "token_manager \<Rightarrow> qstring \<Rightarrow> bool" where
  "hasToken s key = (if isReservedKey key then False else hash_contains (m_tokens s) key)"

definition removeToken :: "qstring \<Rightarrow> token_manager \<Rightarrow> bool \<times> token_manager \<times> token_signal list" where
  "removeToken key s =
     (if isReservedKey key then (False, s, [])
      else if hash_contains (m_tokens s) key
      then (True, s\<lparr>m_tokens := hash_remove key (m_tokens s)\<rparr>, [TokenRemoved key])
      else (False, s, []))"

definition clearAllTokens :: "token_manager \<Rightarrow> token_manager \<times> token_signal list" where
  "clearAllTokens s = (s\<lparr>m_tokens := []\<rparr>, [AllTokensCleared])"

definition getTokenKeys :: "token_manager \<Rightarrow> qstring list" where
  "getTokenKeys s = filter (\<lambda>k. \<not> isReservedKey k) (hash_keys (m_tokens s))"

definition tokenCount :: "token_manager \<Rightarrow> nat" where
  "tokenCount s =
     fold (\<lambda>k n. if \<not> isReservedKey k then Suc n else n) (hash_keys (m_tokens s)) 0"

subsection \<open>One store: the inbound half\<close>

definition saveInboundToken :: "qstring \<Rightarrow> qstring \<Rightarrow> token_manager \<Rightarrow> bool \<times> token_manager" where
  "saveInboundToken caller token s =
     (if caller = [] \<or> token = [] then (False, s)
      else if isReservedKey caller then (False, s)
      else (True, s\<lparr>m_tokens := hash_insert (inboundKey caller) token (m_tokens s)\<rparr>))"

definition inboundValue :: "token_manager \<Rightarrow> qstring \<Rightarrow> qstring" where
  "inboundValue s caller =
     (if isReservedKey caller then [] else hash_value (m_tokens s) (inboundKey caller) [])"

definition inboundKeyList :: "token_manager \<Rightarrow> qstring list" where
  "inboundKeyList s =
     (let skip = length (inboundKey [])
      in map (drop skip) (filter isReservedKey (hash_keys (m_tokens s))))"

definition inboundContains :: "token_manager \<Rightarrow> qstring \<Rightarrow> bool" where
  "inboundContains s caller =
     (if isReservedKey caller then False else hash_contains (m_tokens s) (inboundKey caller))"

definition inboundCount :: "token_manager \<Rightarrow> nat" where
  "inboundCount s =
     fold (\<lambda>k n. if isReservedKey k then Suc n else n) (hash_keys (m_tokens s)) 0"

subsection \<open>The credential: one value under two role labels\<close>

fun first_nonempty :: "(qstring, qstring) qhash \<Rightarrow> qstring list \<Rightarrow> qstring" where
  "first_nonempty h [] = []"
| "first_nonempty h (key # keys) =
     (let value = hash_value h key [] in if value \<noteq> [] then value else first_nonempty h keys)"

definition credential :: "token_manager \<Rightarrow> qstring" where
  "credential s = first_nonempty (m_tokens s) bootstrapKeys"

fun saveTokens :: "qstring list \<Rightarrow> qstring \<Rightarrow> token_manager \<Rightarrow> token_manager \<times> token_signal list" where
  "saveTokens [] v s = (s, [])"
| "saveTokens (key # keys) v s =
     (let (s1, e1) = saveToken key v s; (s2, e2) = saveTokens keys v s1 in (s2, e1 @ e2))"

definition adoptCredential :: "qstring \<Rightarrow> token_manager \<Rightarrow> token_manager \<times> token_signal list" where
  "adoptCredential c s = (if c = [] then (s, []) else saveTokens bootstrapKeys c s)"

subsection \<open>What a store's table may hold\<close>

text \<open>
  Every reserved key of the table was produced by \<open>inboundKey\<close> from a name that may be a
  caller, and its token is not empty. This is what makes the fixed-width strip of
  \<open>inboundKeyList\<close> exact.
\<close>

definition inbound_entry_ok :: "qstring \<Rightarrow> qstring \<Rightarrow> bool" where
  "inbound_entry_ok k v =
     (take (length (inboundKey [])) k = inboundKey [] \<and>
      \<not> isReservedKey (drop (length (inboundKey [])) k) \<and>
      drop (length (inboundKey [])) k \<noteq> [] \<and> v \<noteq> [])"

definition store_wf :: "token_manager \<Rightarrow> bool" where
  "store_wf s =
     (hash_wf (m_tokens s) \<and>
      (\<forall>(k, v) \<in> set (m_tokens s). isReservedKey k \<longrightarrow> inbound_entry_ok k v))"

lemma take_inboundKey [simp]: "take (length (inboundKey [])) (inboundKey c) = inboundKey []"
  and drop_inboundKey [simp]: "drop (length (inboundKey [])) (inboundKey c) = c"
  by (simp_all add: inboundKey_def)

lemma inbound_entry_ok_iff:
  "inbound_entry_ok k v \<longleftrightarrow> (\<exists>c. k = inboundKey c \<and> \<not> isReservedKey c \<and> c \<noteq> [] \<and> v \<noteq> [])"
proof
  assume ok: "inbound_entry_ok k v"
  have "k = take (length (inboundKey [])) k @ drop (length (inboundKey [])) k" by simp
  also have "\<dots> = inboundKey [] @ drop (length (inboundKey [])) k"
    using ok by (simp add: inbound_entry_ok_def)
  also have "\<dots> = inboundKey (drop (length (inboundKey [])) k)"
    by (simp add: inboundKey_def)
  finally show "\<exists>c. k = inboundKey c \<and> \<not> isReservedKey c \<and> c \<noteq> [] \<and> v \<noteq> []"
    using ok unfolding inbound_entry_ok_def by blast
next
  assume "\<exists>c. k = inboundKey c \<and> \<not> isReservedKey c \<and> c \<noteq> [] \<and> v \<noteq> []"
  then show "inbound_entry_ok k v"
    by (auto simp: inbound_entry_ok_def simp del: drop_eq_Nil drop_eq_Nil2)
qed

lemma store_wf_alt:
  "store_wf s \<longleftrightarrow> hash_wf (m_tokens s) \<and>
     (\<forall>k v. hash_find (m_tokens s) k = Some v \<longrightarrow> isReservedKey k \<longrightarrow>
        (\<exists>c. k = inboundKey c \<and> \<not> isReservedKey c \<and> c \<noteq> [] \<and> v \<noteq> []))"
proof -
  have "(\<forall>(k, v) \<in> set (m_tokens s). isReservedKey k \<longrightarrow> inbound_entry_ok k v) =
      (\<forall>k v. (k, v) \<in> set (m_tokens s) \<longrightarrow> isReservedKey k \<longrightarrow> inbound_entry_ok k v)"
    by auto
  then show ?thesis
    unfolding store_wf_def inbound_entry_ok_iff
    by (cases "hash_wf (m_tokens s)") (simp_all add: hash_wf_in)
qed

lemma store_wf_reservedE:
  assumes "store_wf s" and "hash_contains (m_tokens s) k" and "isReservedKey k"
  obtains c v where "k = inboundKey c" and "\<not> isReservedKey c" and "c \<noteq> []"
    and "v \<noteq> []" and "hash_find (m_tokens s) k = Some v"
proof -
  from assms(2) obtain v where v: "hash_find (m_tokens s) k = Some v"
    by (auto simp: hash_contains_def)
  with assms(1,3) obtain c where "k = inboundKey c \<and> \<not> isReservedKey c \<and> c \<noteq> [] \<and> v \<noteq> []"
    unfolding store_wf_alt by blast
  with v that show thesis by blast
qed

subsection \<open>How the operations act\<close>

lemma saveToken_tokens [store_simps]:
  "m_tokens (fst (saveToken k t s)) =
     (if isReservedKey k then m_tokens s else hash_insert k t (m_tokens s))"
  by (simp add: saveToken_def)

lemma saveInboundToken_tokens [store_simps]:
  "m_tokens (snd (saveInboundToken c t s)) =
     (if c = [] \<or> t = [] \<or> isReservedKey c then m_tokens s
      else hash_insert (inboundKey c) t (m_tokens s))"
  by (simp add: saveInboundToken_def)

lemma removeToken_tokens [store_simps]:
  "m_tokens (fst (snd (removeToken k s))) =
     (if \<not> isReservedKey k \<and> hash_contains (m_tokens s) k then hash_remove k (m_tokens s)
      else m_tokens s)"
  by (simp add: removeToken_def)

lemma clearAllTokens_tokens [store_simps]: "m_tokens (fst (clearAllTokens s)) = []"
  by (simp add: clearAllTokens_def)

lemma saveTokens_fst: "fst (saveTokens ks v s) = fold (\<lambda>k s. fst (saveToken k v s)) ks s"
  by (induction ks arbitrary: s) (simp_all add: split_beta Let_def)

lemma adoptCredential_tokens [store_simps]:
  "m_tokens (fst (adoptCredential c s)) =
     (if c = [] then m_tokens s
      else hash_insert ''capability_module'' c (hash_insert ''core'' c (m_tokens s)))"
proof -
  have "\<not> isReservedKey ''core''" "\<not> isReservedKey ''capability_module''"
    using bootstrapKeys_not_reserved by (simp_all add: bootstrapKeys_def)
  then show ?thesis
    by (simp add: adoptCredential_def saveTokens_fst bootstrapKeys_def store_simps
        del: saveTokens.simps)
qed

text \<open>Two stores with the same table answer every question the same way.\<close>

lemmas store_reads = getToken_def hasToken_def getTokenKeys_def inboundValue_def
  inboundContains_def inboundKeyList_def credential_def

lemma tokenCount_length: "tokenCount s = length (getTokenKeys s)"
proof -
  have "fold (\<lambda>k n. if P k then Suc n else n) ks m = m + length (filter P ks)" for P :: "qstring \<Rightarrow> bool" and ks m
    by (induction ks arbitrary: m) auto
  from this[of "\<lambda>k. \<not> isReservedKey k"] show ?thesis
    by (simp add: tokenCount_def getTokenKeys_def)
qed

lemma inboundCount_length: "inboundCount s = length (inboundKeyList s)"
proof -
  have "fold (\<lambda>k n. if P k then Suc n else n) ks m = m + length (filter P ks)" for P :: "qstring \<Rightarrow> bool" and ks m
    by (induction ks arbitrary: m) auto
  from this[of isReservedKey] show ?thesis
    by (simp add: inboundCount_def inboundKeyList_def)
qed

subsection \<open>The well-formedness invariant\<close>

lemma store_wf_new: "store_wf newTokenManager"
  by (simp add: store_wf_def newTokenManager_def)

lemma store_wf_saveToken: "store_wf s \<Longrightarrow> store_wf (fst (saveToken k t s))"
  by (auto simp: store_wf_alt store_simps split: if_splits)

lemma store_wf_saveInboundToken: "store_wf s \<Longrightarrow> store_wf (snd (saveInboundToken c t s))"
  by (auto simp: store_wf_alt store_simps split: if_splits)

lemma store_wf_removeToken: "store_wf s \<Longrightarrow> store_wf (fst (snd (removeToken k s)))"
  by (auto simp: store_wf_alt store_simps split: if_splits)

lemma store_wf_clearAllTokens: "store_wf (fst (clearAllTokens s))"
  by (simp add: store_wf_alt store_simps)

lemma store_wf_adoptCredential: "store_wf s \<Longrightarrow> store_wf (fst (adoptCredential c s))"
proof -
  assume wf: "store_wf s"
  have "store_wf (fold (\<lambda>k s. fst (saveToken k c s)) ks s)" for ks
    using wf by (induction ks arbitrary: s) (simp_all add: store_wf_saveToken)
  then show ?thesis using wf by (simp add: adoptCredential_def saveTokens_fst)
qed

lemmas store_wf_ops = store_wf_new store_wf_saveToken store_wf_saveInboundToken
  store_wf_removeToken store_wf_clearAllTokens store_wf_adoptCredential

text \<open>The inbound listing is exactly the callers the store would answer for.\<close>

lemma inboundKeyList_exact:
  assumes "store_wf s"
  shows "set (inboundKeyList s) = {c. inboundContains s c}"
proof -
  have "set (inboundKeyList s) =
      drop (length (inboundKey [])) ` {k. hash_contains (m_tokens s) k \<and> isReservedKey k}"
    by (auto simp: inboundKeyList_def set_hash_keys)
  also have "{k. hash_contains (m_tokens s) k \<and> isReservedKey k} =
      inboundKey ` {c. inboundContains s c}"
  proof (intro equalityI subsetI)
    fix k assume "k \<in> {k. hash_contains (m_tokens s) k \<and> isReservedKey k}"
    then have "hash_contains (m_tokens s) k" "isReservedKey k" by simp_all
    with assms obtain c where "k = inboundKey c" "\<not> isReservedKey c" "hash_contains (m_tokens s) k"
      by (elim store_wf_reservedE) auto
    then show "k \<in> inboundKey ` {c. inboundContains s c}"
      by (auto simp: inboundContains_def)
  qed (auto simp: inboundContains_def split: if_splits)
  finally show ?thesis by (simp add: image_image)
qed

lemma inboundKeyList_distinct:
  assumes "store_wf s"
  shows "distinct (inboundKeyList s)"
proof -
  let ?ks = "filter isReservedKey (hash_keys (m_tokens s))"
  have "inj_on (drop (length (inboundKey []))) (set ?ks)"
  proof (rule inj_onI)
    fix a b
    assume a: "a \<in> set ?ks" and b: "b \<in> set ?ks"
      and eq: "drop (length (inboundKey [])) a = drop (length (inboundKey [])) b"
    from a assms obtain c where "a = inboundKey c"
      by (auto simp: set_hash_keys elim: store_wf_reservedE)
    moreover from b assms obtain d where "b = inboundKey d"
      by (auto simp: set_hash_keys elim: store_wf_reservedE)
    ultimately show "a = b" using eq by simp
  qed
  moreover have "distinct ?ks"
    using assms by (simp add: store_wf_def hash_wf_def hash_keys_def)
  ultimately show ?thesis by (simp add: inboundKeyList_def distinct_map)
qed

lemma inboundValue_nonempty:
  assumes "store_wf s"
  shows "inboundContains s c \<longleftrightarrow> inboundValue s c \<noteq> []"
proof
  assume "inboundContains s c"
  then have c: "hash_contains (m_tokens s) (inboundKey c)" "\<not> isReservedKey c"
    by (simp_all add: inboundContains_def split: if_splits)
  from assms c(1) obtain v where "v \<noteq> []" "hash_find (m_tokens s) (inboundKey c) = Some v"
    by (rule store_wf_reservedE) simp
  with c(2) show "inboundValue s c \<noteq> []"
    by (simp add: inboundValue_def hash_value_def)
next
  assume "inboundValue s c \<noteq> []"
  then show "inboundContains s c"
    by (auto simp: inboundContains_def inboundValue_def hash_contains_def hash_value_def
        split: if_splits option.splits)
qed

subsection \<open>The two halves as one interface, twice\<close>

text \<open>
  What a client of either half relies on: a write the door admits is read back under its
  own key and under no other, and a refused write changes no answer.
\<close>

locale token_half =
  fixes get :: "'s \<Rightarrow> qstring \<Rightarrow> qstring"
    and put :: "qstring \<Rightarrow> qstring \<Rightarrow> 's \<Rightarrow> 's"
    and admits :: "qstring \<Rightarrow> qstring \<Rightarrow> bool"
  assumes get_put: "get (put k v s) k' = (if admits k v \<and> k' = k then v else get s k')"
begin

lemma get_put_same [simp]: "admits k v \<Longrightarrow> get (put k v s) k = v"
  by (simp add: get_put)

lemma get_put_other [simp]: "k' \<noteq> k \<Longrightarrow> get (put k v s) k' = get s k'"
  by (simp add: get_put)

lemma get_put_refused [simp]: "\<not> admits k v \<Longrightarrow> get (put k v s) k' = get s k'"
  by (simp add: get_put)

text \<open>Over a sequence of writes the last admitted one to a key is what is read.\<close>

lemma get_puts_last:
  "admits k v \<Longrightarrow> (\<And>v'. (k, v') \<in> set later \<Longrightarrow> \<not> admits k v') \<Longrightarrow>
   get (fold (\<lambda>(k, v). put k v) (earlier @ (k, v) # later) s) k = v"
proof (induction later rule: rev_induct)
  case Nil
  then show ?case by simp
next
  case (snoc kv later)
  obtain k' v' where kv: "kv = (k', v')" by (cases kv)
  with snoc.prems have "\<not> (admits k' v' \<and> k = k')" by auto
  moreover from snoc have "get (fold (\<lambda>(k, v). put k v) (earlier @ (k, v) # later) s) k = v"
    by auto
  ultimately show ?case by (auto simp: kv get_put)
qed

end

text \<open>
  Both halves over one state: a write through one door changes no answer of the other.
  A mixed history then splits into two independent ones.
\<close>

locale split_store =
  out: token_half geto puto admitso + inb: token_half geti puti admitsi
  for geto :: "'s \<Rightarrow> qstring \<Rightarrow> qstring" and puto admitso
    and geti :: "'s \<Rightarrow> qstring \<Rightarrow> qstring" and puti admitsi +
  assumes geto_puti: "geto (puti k v s) k' = geto s k'"
    and geti_puto: "geti (puto k v s) k' = geti s k'"
begin

definition put_half :: "bool \<times> qstring \<times> qstring \<Rightarrow> 's \<Rightarrow> 's" where
  "put_half w s = (case w of (outgoing, k, v) \<Rightarrow> if outgoing then puto k v s else puti k v s)"

lemma geto_put_half:
  "(\<And>k. geto s k = geto t k) \<Longrightarrow> fst w \<Longrightarrow> geto (put_half w s) k = geto (put_half w t) k"
  "\<not> fst w \<Longrightarrow> geto (put_half w s) k = geto s k"
  by (cases w; simp add: put_half_def out.get_put geto_puti)+

lemma geti_put_half:
  "(\<And>k. geti s k = geti t k) \<Longrightarrow> \<not> fst w \<Longrightarrow> geti (put_half w s) k = geti (put_half w t) k"
  "fst w \<Longrightarrow> geti (put_half w s) k = geti s k"
  by (cases w; simp add: put_half_def inb.get_put geti_puto)+

lemma geto_history:
  assumes "\<And>k. geto s k = geto t k"
  shows "geto (fold put_half ws s) k = geto (fold put_half (filter fst ws) t) k"
  using assms
proof (induction ws arbitrary: s t)
  case (Cons w ws)
  show ?case
  proof (cases "fst w")
    case True
    from geto_put_half(1)[OF Cons.prems True] show ?thesis
      using Cons.IH[of "put_half w s" "put_half w t"] True by simp
  next
    case False
    from geto_put_half(2)[OF False] Cons.prems show ?thesis
      using Cons.IH[of "put_half w s" t] False by simp
  qed
qed simp

lemma geti_history:
  assumes "\<And>k. geti s k = geti t k"
  shows "geti (fold put_half ws s) k = geti (fold put_half (filter (\<lambda>w. \<not> fst w) ws) t) k"
  using assms
proof (induction ws arbitrary: s t)
  case (Cons w ws)
  show ?case
  proof (cases "fst w")
    case False
    from geti_put_half(1)[OF Cons.prems False] show ?thesis
      using Cons.IH[of "put_half w s" "put_half w t"] False by simp
  next
    case True
    from geti_put_half(2)[OF True] Cons.prems show ?thesis
      using Cons.IH[of "put_half w s" t] True by simp
  qed
qed simp

end

interpretation outbound: token_half getToken "\<lambda>k t s. fst (saveToken k t s)" "\<lambda>k t. \<not> isReservedKey k"
  by unfold_locales (auto simp: getToken_def store_simps)

interpretation inbound: token_half inboundValue "\<lambda>c t s. snd (saveInboundToken c t s)"
  "\<lambda>c t. c \<noteq> [] \<and> t \<noteq> [] \<and> \<not> isReservedKey c"
  by unfold_locales (auto simp: inboundValue_def store_simps)

interpretation halves: split_store getToken "\<lambda>k t s. fst (saveToken k t s)" "\<lambda>k t. \<not> isReservedKey k"
  inboundValue "\<lambda>c t s. snd (saveInboundToken c t s)"
  "\<lambda>c t. c \<noteq> [] \<and> t \<noteq> [] \<and> \<not> isReservedKey c"
  by unfold_locales (auto simp: getToken_def inboundValue_def store_simps)

text \<open>A write to a store: outbound (\<open>saveToken\<close>) or inbound (\<open>saveInboundToken\<close>).\<close>

definition store_write :: "bool \<times> qstring \<times> qstring \<Rightarrow> token_manager \<Rightarrow> token_manager" where
  "store_write w s = (case w of (outgoing, k, v) \<Rightarrow>
     if outgoing then fst (saveToken k v s) else snd (saveInboundToken k v s))"

lemma store_write_eq: "store_write = halves.put_half"
  by (intro ext) (simp add: store_write_def halves.put_half_def)

lemma store_write_frame:
  "\<not> fst w \<Longrightarrow> set (getTokenKeys (store_write w s)) = set (getTokenKeys s)"
  "fst w \<Longrightarrow> inboundContains (store_write w s) c = inboundContains s c"
  by (auto simp: store_write_def split_beta getTokenKeys_def set_hash_keys store_simps
      inboundContains_def split: if_splits)

lemma inboundContains_frame:
  "inboundContains (fst (saveToken k t s)) c = inboundContains s c"
  "inboundContains (fst (snd (removeToken k s))) c = inboundContains s c"
  by (auto simp: inboundContains_def store_simps)

lemma inboundValue_removeToken: "inboundValue (fst (snd (removeToken k s))) c = inboundValue s c"
  by (auto simp: inboundValue_def store_simps)

lemma getToken_removeToken:
  "getToken (fst (snd (removeToken k s))) k' = (if k' = k then [] else getToken s k')"
  by (auto simp: getToken_def store_simps hash_contains_def hash_value_def)

subsection \<open>Properties of a store\<close>

datatype store_op =
  OpSave qstring qstring
| OpSaveInbound qstring qstring
| OpRemove qstring
| OpClear
| OpAdopt qstring

fun store_step :: "store_op \<Rightarrow> token_manager \<Rightarrow> token_manager" where
  "store_step (OpSave k t) s = fst (saveToken k t s)"
| "store_step (OpSaveInbound c t) s = snd (saveInboundToken c t s)"
| "store_step (OpRemove k) s = fst (snd (removeToken k s))"
| "store_step OpClear s = fst (clearAllTokens s)"
| "store_step (OpAdopt c) s = fst (adoptCredential c s)"

lemma store_wf_step: "store_wf s \<Longrightarrow> store_wf (store_step op s)"
  by (cases op) (simp_all add: store_wf_ops)

lemma store_wf_run: "store_wf s \<Longrightarrow> store_wf (fold store_step ops s)"
  by (induction ops arbitrary: s) (simp_all add: store_wf_step)

text \<open>
  The two directions of one store are independent. Over any mixed sequence of outbound
  and inbound writes, an outbound lookup answers as if only the outbound writes had been
  made, and an inbound lookup as if only the inbound ones had, whatever keys were used.
\<close>

theorem directions_independent:
  "getToken (fold store_write ws s) k = getToken (fold store_write (filter fst ws) s) k \<and>
   inboundValue (fold store_write ws s) c =
     inboundValue (fold store_write (filter (\<lambda>w. \<not> fst w) ws) s) c"
  unfolding store_write_eq
  by (intro conjI halves.geto_history halves.geti_history) (rule refl)+

text \<open>
  After any sequence of store operations from an empty store, the inbound listing that
  the authorization scan walks names each caller once, names exactly the callers for which
  the store holds a non-empty inbound token, and \<open>inboundCount\<close> counts them.
\<close>

theorem inbound_listing_exact:
  "distinct (inboundKeyList (fold store_step ops newTokenManager)) \<and>
   set (inboundKeyList (fold store_step ops newTokenManager)) =
     {c. inboundValue (fold store_step ops newTokenManager) c \<noteq> []} \<and>
   inboundCount (fold store_step ops newTokenManager) =
     card {c. inboundValue (fold store_step ops newTokenManager) c \<noteq> []}"
proof -
  let ?s = "fold store_step ops newTokenManager"
  have wf: "store_wf ?s" by (intro store_wf_run store_wf_new)
  have set: "set (inboundKeyList ?s) = {c. inboundValue ?s c \<noteq> []}"
    using inboundKeyList_exact[OF wf] inboundValue_nonempty[OF wf] by simp
  with inboundKeyList_distinct[OF wf] show ?thesis
    by (metis distinct_card inboundCount_length)
qed

lemma credential_unfold:
  "credential s =
     (if hash_value (m_tokens s) ''core'' [] \<noteq> [] then hash_value (m_tokens s) ''core'' []
      else hash_value (m_tokens s) ''capability_module'' [])"
  by (simp add: credential_def bootstrapKeys_def Let_def)

lemma newTokenManager_reads [simp]:
  "credential newTokenManager = []" "inboundKeyList newTokenManager = []"
  "getToken newTokenManager k = []" "inboundValue newTokenManager k = []"
  by (simp_all add: newTokenManager_def credential_unfold inboundKeyList_def hash_keys_def
      getToken_def inboundValue_def)

lemma credential_adopt: "c \<noteq> [] \<Longrightarrow> credential (fst (adoptCredential c s)) = c"
  by (simp add: credential_unfold store_simps)

text \<open>
  The credential of a store is whatever non-empty value was adopted last; it survives
  the removal of either role label and is gone when both are removed, so no cached value
  can assert a token the table does not hold.
\<close>

theorem credential_survives_one_label:
  assumes "c \<noteq> []"
  shows "credential (fst (adoptCredential c s)) = c \<and>
    credential (fst (snd (removeToken ''core'' (fst (adoptCredential c s))))) = c \<and>
    credential (fst (snd (removeToken ''capability_module'' (fst (adoptCredential c s))))) = c \<and>
    credential (fst (snd (removeToken ''capability_module''
      (fst (snd (removeToken ''core'' (fst (adoptCredential c s)))))))) = []"
proof -
  have "\<not> isReservedKey ''core''" "\<not> isReservedKey ''capability_module''"
    using bootstrapKeys_not_reserved by (simp_all add: bootstrapKeys_def)
  with assms show ?thesis by (simp add: credential_unfold store_simps)
qed

lemma credential_survives_one_label_witness:
  "credential (fst (snd (removeToken ''core'' (fst (adoptCredential ''tok'' newTokenManager))))) = ''tok''"
  using credential_survives_one_label[of "''tok''" newTokenManager] by simp

end
