(* ===== verification/Identity_Registry.thy ===== *)
theory Identity_Registry
  imports Token_Store "HOL-Library.List_Lexorder" "HOL-Library.Char_ord"
begin

text \<open>
  The per-identity registry of token stores in \<open>cpp/token_manager.cpp\<close>: which store a
  name selects (\<open>forIdentity\<close>), how a host opts a name in (\<open>isolateIdentity\<close>), how it
  installs and clears that identity's own credential. The state is the image's: the
  ambient store that \<open>TokenManager::instance()\<close> returns, and the three sets of
  \<open>StoreRegistry\<close>, guarded by one mutex, so every operation is one step.
\<close>

subsection \<open>State and references\<close>

record store_registry =
  ambient :: token_manager
  isolated :: "qstring list"
  vendedShared :: "qstring list"
  stores :: "(qstring, token_manager) qhash"

datatype store_ref = AmbientStore | PrivateStore qstring

definition initRegistry :: store_registry where
  "initRegistry = \<lparr>ambient = newTokenManager, isolated = [], vendedShared = [], stores = []\<rparr>"

text \<open>The object a reference points at. A \<open>PrivateStore\<close> is only ever vended for a name
  that has an entry in \<open>stores\<close>, and entries are never erased.\<close>

fun deref :: "store_registry \<Rightarrow> store_ref \<Rightarrow> token_manager" where
  "deref r AmbientStore = ambient r"
| "deref r (PrivateStore n) = hash_value (stores r) n newTokenManager"

fun assign :: "store_ref \<Rightarrow> token_manager \<Rightarrow> store_registry \<Rightarrow> store_registry" where
  "assign AmbientStore tm r = r\<lparr>ambient := tm\<rparr>"
| "assign (PrivateStore n) tm r = r\<lparr>stores := hash_insert n tm (stores r)\<rparr>"

fun ref_live :: "store_registry \<Rightarrow> store_ref \<Rightarrow> bool" where
  "ref_live r AmbientStore = True"
| "ref_live r (PrivateStore n) = hash_contains (stores r) n"

subsection \<open>Operations\<close>

definition forIdentity :: "qstring \<Rightarrow> store_registry \<Rightarrow> store_ref \<times> store_registry" where
  "forIdentity identity r =
     (if identity = [] \<or> identity \<notin> set (isolated r)
      then (AmbientStore, r\<lparr>vendedShared := List.insert identity (vendedShared r)\<rparr>)
      else if \<not> hash_contains (stores r) identity
      then (PrivateStore identity, r\<lparr>stores := hash_insert identity newTokenManager (stores r)\<rparr>)
      else (PrivateStore identity, r))"

definition isolateIdentity :: "qstring \<Rightarrow> store_registry \<Rightarrow> bool \<times> store_registry" where
  "isolateIdentity identity r =
     (if identity = [] then (False, r)
      else if identity \<in> set (isolated r) then (True, r)
      else if identity \<in> set (vendedShared r) then (False, r)
      else (True, r\<lparr>isolated := List.insert identity (isolated r)\<rparr>))"

definition isIsolated :: "store_registry \<Rightarrow> qstring \<Rightarrow> bool" where
  "isIsolated r identity = (identity \<in> set (isolated r))"

definition isolatedIdentities :: "store_registry \<Rightarrow> qstring list" where
  "isolatedIdentities r = sort (isolated r)"

definition isHostAnchorValue :: "store_registry \<Rightarrow> qstring \<Rightarrow> bool" where
  "isHostAnchorValue r v = (if v = [] then False else credential (ambient r) = v)"

definition adoptCredentialFor :: "qstring \<Rightarrow> qstring \<Rightarrow> store_registry \<Rightarrow> bool \<times> store_registry" where
  "adoptCredentialFor identity c r =
     (if identity = [] \<or> c = [] then (False, r)
      else if \<not> isIsolated r identity then (False, r)
      else if isHostAnchorValue r c then (False, r)
      else let (store, r1) = forIdentity identity r
           in if store = AmbientStore then (False, r1)
              else (True, assign store (fst (adoptCredential c (deref r1 store))) r1))"

text \<open>The loop of \<open>identitiesSharingHostAnchor\<close>: it vends a reference for every isolated
  name, which creates a store where there was none.\<close>

fun sharing_loop :: "qstring list \<Rightarrow> store_registry \<Rightarrow> qstring list \<times> store_registry" where
  "sharing_loop [] r = ([], r)"
| "sharing_loop (name # names) r =
     (let (store, r1) = forIdentity name r;
          (out, r2) = sharing_loop names r1
      in if store = AmbientStore then (out, r2)
         else if isHostAnchorValue r1 (credential (deref r1 store)) then (name # out, r2)
         else (out, r2))"

definition identitiesSharingHostAnchor :: "store_registry \<Rightarrow> qstring list \<times> store_registry" where
  "identitiesSharingHostAnchor r =
     (let (out, r') = sharing_loop (isolated r) r in (sort out, r'))"

definition resetIdentity :: "qstring \<Rightarrow> store_registry \<Rightarrow> bool \<times> store_registry" where
  "resetIdentity identity r =
     (if \<not> isIsolated r identity then (False, r)
      else let (store, r1) = forIdentity identity r
           in if store = AmbientStore then (False, r1)
              else (True, assign store (fst (clearAllTokens (deref r1 store))) r1))"

text \<open>The store a client presents tokens from (\<open>storeFor\<close> of \<open>logos_api_client.cpp\<close>): an
  explicit store wins, a null one resolves to the origin's.\<close>

definition storeFor :: "store_ref option \<Rightarrow> qstring \<Rightarrow> store_registry \<Rightarrow> store_ref \<times> store_registry" where
  "storeFor explicit_store origin r =
     (case explicit_store of Some ref \<Rightarrow> (ref, r) | None \<Rightarrow> forIdentity origin r)"

subsection \<open>Steps of the image\<close>

inductive reg_step :: "store_registry \<Rightarrow> store_registry \<Rightarrow> bool" where
  vend: "reg_step r (snd (forIdentity n r))"
| isolate: "reg_step r (snd (isolateIdentity n r))"
| adopt_for: "reg_step r (snd (adoptCredentialFor n c r))"
| sharing: "reg_step r (snd (identitiesSharingHostAnchor r))"
| reset: "reg_step r (snd (resetIdentity n r))"
| store_op: "ref_live r ref \<Longrightarrow> reg_step r (assign ref (store_step op (deref r ref)) r)"

inductive reg_steps :: "store_registry \<Rightarrow> store_registry \<Rightarrow> bool" where
  refl: "reg_steps r r"
| step: "reg_steps r s \<Longrightarrow> reg_step s t \<Longrightarrow> reg_steps r t"

definition registry_wf :: "store_registry \<Rightarrow> bool" where
  "registry_wf r =
     (set (isolated r) \<inter> set (vendedShared r) = {} \<and>
      [] \<notin> set (isolated r) \<and>
      set (hash_keys (stores r)) \<subseteq> set (isolated r) \<and>
      hash_wf (stores r) \<and>
      store_wf (ambient r) \<and>
      (\<forall>n. store_wf (hash_value (stores r) n newTokenManager)))"

lemma registry_wf_init: "registry_wf initRegistry"
  by (simp add: registry_wf_def initRegistry_def store_wf_new hash_keys_def)

text \<open>What each operation does to the fields.\<close>

lemma forIdentity_fields [reg_simps]:
  "isolated (snd (forIdentity n r)) = isolated r"
  "ambient (snd (forIdentity n r)) = ambient r"
  "set (vendedShared r) \<subseteq> set (vendedShared (snd (forIdentity n r)))"
  by (auto simp: forIdentity_def)

lemma forIdentity_ref:
  "fst (forIdentity n r) =
     (if n = [] \<or> n \<notin> set (isolated r) then AmbientStore else PrivateStore n)"
  by (simp add: forIdentity_def)

lemma deref_forIdentity [reg_simps]: "deref (snd (forIdentity n r)) ref = deref r ref"
  by (cases ref) (auto simp: forIdentity_def hash_contains_def hash_value_def)

lemma assign_fields [reg_simps]:
  "isolated (assign ref tm r) = isolated r" "vendedShared (assign ref tm r) = vendedShared r"
  by (cases ref; simp)+

lemma deref_assign [reg_simps]: "deref (assign ref tm r) ref' = (if ref' = ref then tm else deref r ref')"
  by (cases ref; cases ref') auto

lemma registry_wf_forIdentity: "registry_wf r \<Longrightarrow> registry_wf (snd (forIdentity n r))"
  by (auto simp: registry_wf_def forIdentity_def store_wf_new)

lemma registry_wf_assign:
  "registry_wf r \<Longrightarrow> ref_live r ref \<Longrightarrow> store_wf tm \<Longrightarrow> registry_wf (assign ref tm r)"
  by (cases ref) (auto simp: registry_wf_def set_hash_keys)

lemma store_wf_deref: "registry_wf r \<Longrightarrow> store_wf (deref r ref)"
  by (cases ref) (auto simp: registry_wf_def)

lemma ref_live_forIdentity:
  "ref_live (snd (forIdentity n r)) (fst (forIdentity n r))"
  by (auto simp: forIdentity_def)

lemma registry_wf_isolate: "registry_wf r \<Longrightarrow> registry_wf (snd (isolateIdentity n r))"
  by (auto simp: registry_wf_def isolateIdentity_def)

lemma registry_wf_adopt: "registry_wf r \<Longrightarrow> registry_wf (snd (adoptCredentialFor n c r))"
  using ref_live_forIdentity[of n r]
  by (auto simp: adoptCredentialFor_def Let_def split_beta intro!: registry_wf_assign
      registry_wf_forIdentity store_wf_adoptCredential store_wf_deref)

lemma registry_wf_sharing_loop: "registry_wf r \<Longrightarrow> registry_wf (snd (sharing_loop names r))"
  by (induction names arbitrary: r)
    (simp_all add: Let_def split_beta registry_wf_forIdentity)

lemma registry_wf_reset: "registry_wf r \<Longrightarrow> registry_wf (snd (resetIdentity n r))"
  using ref_live_forIdentity[of n r]
  by (auto simp: resetIdentity_def Let_def split_beta intro!: registry_wf_assign
      registry_wf_forIdentity store_wf_clearAllTokens)

lemma registry_wf_step: "reg_step r s \<Longrightarrow> registry_wf r \<Longrightarrow> registry_wf s"
  by (induction rule: reg_step.induct)
    (simp_all add: registry_wf_forIdentity registry_wf_isolate registry_wf_adopt registry_wf_reset
      registry_wf_assign store_wf_step store_wf_deref identitiesSharingHostAnchor_def Let_def
      split_beta registry_wf_sharing_loop)

lemma registry_wf_steps: "reg_steps r s \<Longrightarrow> registry_wf r \<Longrightarrow> registry_wf s"
  by (induction rule: reg_steps.induct) (simp_all add: registry_wf_step)

subsection \<open>Names only ever move one way\<close>

definition grows :: "store_registry \<Rightarrow> store_registry \<Rightarrow> bool" where
  "grows r s = (set (isolated r) \<subseteq> set (isolated s) \<and> set (vendedShared r) \<subseteq> set (vendedShared s))"

lemma grows_refl [simp]: "grows r r"
  by (simp add: grows_def)

lemma grows_trans: "grows r s \<Longrightarrow> grows s t \<Longrightarrow> grows r t"
  by (auto simp: grows_def)

lemma grows_forIdentity: "grows r (snd (forIdentity n r))"
  by (simp add: grows_def reg_simps)

lemma grows_assign: "grows r (assign ref tm r)"
  by (simp add: grows_def reg_simps)

lemma grows_isolate: "grows r (snd (isolateIdentity n r))"
  by (auto simp: grows_def isolateIdentity_def)

lemma grows_adopt: "grows r (snd (adoptCredentialFor n c r))"
  by (simp add: adoptCredentialFor_def Let_def split_beta)
    (meson grows_assign grows_forIdentity grows_trans)

lemma grows_reset: "grows r (snd (resetIdentity n r))"
  by (simp add: resetIdentity_def Let_def split_beta)
    (meson grows_assign grows_forIdentity grows_trans)

lemma grows_sharing_loop: "grows r (snd (sharing_loop names r))"
proof (induction names arbitrary: r)
  case (Cons n names)
  from grows_trans[OF grows_forIdentity Cons.IH] show ?case
    by (simp add: Let_def split_beta)
qed simp

lemma grows_step: "reg_step r s \<Longrightarrow> grows r s"
  by (induction rule: reg_step.induct)
    (simp_all add: grows_forIdentity grows_isolate grows_adopt grows_reset grows_assign
      identitiesSharingHostAnchor_def Let_def split_beta grows_sharing_loop)

lemma grows_steps: "reg_steps r s \<Longrightarrow> grows r s"
  by (induction rule: reg_steps.induct) (auto dest: grows_step intro: grows_trans)

lemma deref_sharing_loop: "deref (snd (sharing_loop names r)) ref = deref r ref"
  by (induction names arbitrary: r) (simp_all add: Let_def split_beta reg_simps)

lemma isolated_sharing_loop: "isolated (snd (sharing_loop names r)) = isolated r"
  by (induction names arbitrary: r) (simp_all add: Let_def split_beta reg_simps)

subsection \<open>Properties of the registry\<close>

text \<open>
  C26: Same identity, same store. In every state the image can reach, whatever store a name
  was given is the store it is given ever after: isolating, adopting, resetting and every
  other operation in between cannot make two clients of one identity disagree about which
  store they share.
\<close>

theorem identity_reference_stable:
  assumes "reg_steps initRegistry r"
    and "forIdentity n r = (ref, r1)"
    and "reg_steps r1 r2"
  shows "fst (forIdentity n r2) = ref"
proof -
  have wf: "registry_wf r" using assms(1) registry_wf_init by (rule registry_wf_steps)
  have r1: "r1 = snd (forIdentity n r)" and ref: "ref = fst (forIdentity n r)"
    using assms(2) by simp_all
  from wf have "registry_wf r1" by (simp add: r1 registry_wf_forIdentity)
  with assms(3) have wf2: "registry_wf r2" by (rule registry_wf_steps)
  have grow: "grows r1 r2" using assms(3) by (rule grows_steps)
  show ?thesis
  proof (cases "n = [] \<or> n \<notin> set (isolated r)")
    case True
    then have "n \<in> set (vendedShared r1)" by (auto simp: r1 forIdentity_def)
    with grow wf2 have "n \<notin> set (isolated r2)" by (auto simp: grows_def registry_wf_def)
    with True show ?thesis by (simp add: ref forIdentity_ref)
  next
    case False
    then have "n \<in> set (isolated r2)" using grow by (auto simp: r1 grows_def reg_simps)
    with False show ?thesis by (simp add: ref forIdentity_ref)
  qed
qed

lemma identity_reference_stable_witness:
  "fst (forIdentity ''page''
     (snd (adoptCredentialFor ''page'' ''c1''
       (snd (forIdentity ''page'' (snd (isolateIdentity ''page'' initRegistry))))))) = PrivateStore ''page''"
proof (rule identity_reference_stable)
  show "reg_steps initRegistry (snd (isolateIdentity ''page'' initRegistry))"
    by (rule reg_steps.step[OF reg_steps.refl reg_step.isolate])
  show "forIdentity ''page'' (snd (isolateIdentity ''page'' initRegistry)) =
      (PrivateStore ''page'', snd (forIdentity ''page'' (snd (isolateIdentity ''page'' initRegistry))))"
    by (simp add: prod_eq_iff forIdentity_ref isolateIdentity_def initRegistry_def)
  show "reg_steps (snd (forIdentity ''page'' (snd (isolateIdentity ''page'' initRegistry))))
      (snd (adoptCredentialFor ''page'' ''c1''
        (snd (forIdentity ''page'' (snd (isolateIdentity ''page'' initRegistry))))))"
    by (rule reg_steps.step[OF reg_steps.refl reg_step.adopt_for])
qed

lemma registry_wf_no_store:
  "registry_wf r \<Longrightarrow> n \<notin> set (isolated r) \<Longrightarrow> deref r (PrivateStore n) = newTokenManager"
  by (auto simp: registry_wf_def set_hash_keys hash_contains_def hash_value_def split: option.splits)

text \<open>
  Isolation starts from nothing. When the host isolates a name for the first time, the
  store that name then selects is its own, holds no token in either direction and no
  credential, and isolating changed no other store; a name already handed the ambient
  store is refused and nothing changes.
\<close>

theorem isolate_is_born_empty:
  assumes "reg_steps initRegistry r"
    and "isolateIdentity n r = (ok, r')"
    and "n \<notin> set (isolated r)"
  shows "ok = (n \<noteq> [] \<and> n \<notin> set (vendedShared r)) \<and>
    (ok \<longrightarrow> fst (forIdentity n r') = PrivateStore n \<and>
       (\<forall>k. getToken (deref r' (PrivateStore n)) k = [] \<and>
            inboundValue (deref r' (PrivateStore n)) k = []) \<and>
       credential (deref r' (PrivateStore n)) = []) \<and>
    (\<not> ok \<longrightarrow> r' = r) \<and> (\<forall>ref. deref r' ref = deref r ref)"
proof -
  have wf: "registry_wf r" using assms(1) registry_wf_init by (rule registry_wf_steps)
  have same: "deref r' ref = deref r ref" for ref
    using assms(2) by (cases ref) (auto simp: isolateIdentity_def split: if_splits)
  have empty: "deref r (PrivateStore n) = newTokenManager"
    by (rule registry_wf_no_store[OF wf assms(3)])
  have ok: "ok = (n \<noteq> [] \<and> n \<notin> set (vendedShared r))" and no: "\<not> ok \<Longrightarrow> r' = r"
    and iso: "ok \<Longrightarrow> n \<in> set (isolated r')"
    using assms(2,3) by (auto simp: isolateIdentity_def split: if_splits)
  have reads: "getToken newTokenManager k = []" "inboundValue newTokenManager k = []"
    "credential newTokenManager = []" for k
    by (simp_all add: getToken_def inboundValue_def newTokenManager_def credential_unfold)
  show ?thesis
    using ok no iso same by (auto simp: empty forIdentity_ref reads simp del: deref.simps)
qed

lemma isolate_is_born_empty_witness:
  "fst (forIdentity ''page'' (snd (isolateIdentity ''page'' initRegistry))) = PrivateStore ''page''"
proof -
  have "isolateIdentity ''page'' initRegistry = (True, snd (isolateIdentity ''page'' initRegistry))"
    by (simp add: isolateIdentity_def initRegistry_def)
  from isolate_is_born_empty[OF reg_steps.refl this] show ?thesis
    by (simp add: initRegistry_def)
qed

text \<open>
  A credential is adopted exactly when the name is isolated and the value is neither
  empty nor the host's own anchor. Adopting installs it in that identity's store and in no
  other, so it never hands an identity the host's authority; a refusal changes nothing,
  in particular it does not record a shared vend that would forbid isolating the name later.
\<close>

theorem adopt_never_shares_the_anchor:
  assumes "adoptCredentialFor n c r = (ok, r')"
  shows "ok = (n \<noteq> [] \<and> c \<noteq> [] \<and> n \<in> set (isolated r) \<and> credential (ambient r) \<noteq> c) \<and>
    (ok \<longrightarrow> credential (deref r' (PrivateStore n)) = c \<and>
       credential (deref r' (PrivateStore n)) \<noteq> credential (ambient r')) \<and>
    (\<not> ok \<longrightarrow> r' = r) \<and> (\<forall>ref. ref \<noteq> PrivateStore n \<longrightarrow> deref r' ref = deref r ref)"
proof (cases "n \<noteq> [] \<and> c \<noteq> [] \<and> n \<in> set (isolated r) \<and> credential (ambient r) \<noteq> c")
  case True
  let ?r1 = "snd (forIdentity n r)" and ?p = "PrivateStore n"
  from True have ref: "fst (forIdentity n r) = ?p" by (simp add: forIdentity_ref)
  from True assms have r': "ok" "r' = assign ?p (fst (adoptCredential c (deref ?r1 ?p))) ?r1"
    by (simp_all add: adoptCredentialFor_def isIsolated_def isHostAnchorValue_def ref
        Let_def split_beta del: deref.simps assign.simps)
  have all: "deref r' ref = (if ref = ?p then fst (adoptCredential c (deref r ?p)) else deref r ref)" for ref
    unfolding r'(2) by (simp add: reg_simps del: deref.simps assign.simps)
  have amb: "ambient r' = ambient r" using all[of AmbientStore] by simp
  have cred: "credential (deref r' ?p) = c"
    unfolding all using True credential_adopt by simp
  have frame: "ref \<noteq> ?p \<Longrightarrow> deref r' ref = deref r ref" for ref
    unfolding all by simp
  from True r'(1) amb cred frame show ?thesis by (metis (no_types))
next
  case False
  then have "ok = False \<and> r' = r"
    using assms by (auto simp: adoptCredentialFor_def isIsolated_def isHostAnchorValue_def split: if_splits)
  with False show ?thesis by auto
qed

lemma adopt_never_shares_the_anchor_witness:
  "fst (adoptCredentialFor ''page'' ''c1'' (snd (isolateIdentity ''page'' initRegistry)))"
  using adopt_never_shares_the_anchor[of "''page''" "''c1''" "snd (isolateIdentity ''page'' initRegistry)"
      "fst (adoptCredentialFor ''page'' ''c1'' (snd (isolateIdentity ''page'' initRegistry)))"
      "snd (adoptCredentialFor ''page'' ''c1'' (snd (isolateIdentity ''page'' initRegistry)))"]
  by (simp add: isolateIdentity_def initRegistry_def credential_unfold newTokenManager_def)

text \<open>
  Resetting an isolated identity takes both halves of its table and its credential with
  it, and touches no other store: no credential of the previous incarnation survives a
  reload. A name that is not isolated is refused with no effect.
\<close>

theorem reset_clears_everything:
  assumes "registry_wf r" and "resetIdentity n r = (ok, r')"
  shows "ok = (n \<in> set (isolated r)) \<and>
    (ok \<longrightarrow> getTokenKeys (deref r' (PrivateStore n)) = [] \<and>
       inboundKeyList (deref r' (PrivateStore n)) = [] \<and>
       credential (deref r' (PrivateStore n)) = []) \<and>
    (\<not> ok \<longrightarrow> r' = r) \<and> (\<forall>ref. ref \<noteq> PrivateStore n \<longrightarrow> deref r' ref = deref r ref)"
proof (cases "n \<in> set (isolated r)")
  case True
  with assms(1) have "n \<noteq> []" by (auto simp: registry_wf_def)
  let ?p = "PrivateStore n"
  from True \<open>n \<noteq> []\<close> have ref: "fst (forIdentity n r) = ?p" by (simp add: forIdentity_ref)
  from True assms(2) have r': "ok"
    "r' = assign ?p (fst (clearAllTokens (deref (snd (forIdentity n r)) ?p))) (snd (forIdentity n r))"
    by (simp_all add: resetIdentity_def isIsolated_def ref Let_def split_beta
        del: deref.simps assign.simps)
  have all: "deref r' ref = (if ref = ?p then fst (clearAllTokens (deref r ?p)) else deref r ref)" for ref
    unfolding r'(2) by (simp add: reg_simps del: deref.simps assign.simps)
  have cleared: "m_tokens (deref r' ?p) = []"
    unfolding all by (simp add: store_simps)
  then have "getTokenKeys (deref r' ?p) = []" "inboundKeyList (deref r' ?p) = []"
    "credential (deref r' ?p) = []"
    by (simp_all add: getTokenKeys_def inboundKeyList_def credential_unfold hash_keys_def)
  moreover have "ref \<noteq> ?p \<Longrightarrow> deref r' ref = deref r ref" for ref
    unfolding all by simp
  ultimately show ?thesis using True r'(1) by (auto simp del: deref.simps)
next
  case False
  then have "ok = False \<and> r' = r"
    using assms(2) by (auto simp: resetIdentity_def isIsolated_def split: if_splits)
  with False show ?thesis by auto
qed

lemma reset_clears_everything_witness:
  "registry_wf (snd (isolateIdentity ''page'' initRegistry)) \<and>
   fst (resetIdentity ''page'' (snd (isolateIdentity ''page'' initRegistry)))"
proof -
  have wf: "registry_wf (snd (isolateIdentity ''page'' initRegistry))"
    by (intro registry_wf_isolate registry_wf_init)
  from reset_clears_everything[OF wf, of "''page''"
      "fst (resetIdentity ''page'' (snd (isolateIdentity ''page'' initRegistry)))"
      "snd (resetIdentity ''page'' (snd (isolateIdentity ''page'' initRegistry)))"] wf
  show ?thesis by (simp add: isolateIdentity_def initRegistry_def)
qed

lemma sharing_loop_out:
  assumes "[] \<notin> set (isolated r)" and "set names \<subseteq> set (isolated r)"
  shows "fst (sharing_loop names r) =
    filter (\<lambda>n. isHostAnchorValue r (credential (deref r (PrivateStore n)))) names"
  using assms
proof (induction names arbitrary: r)
  case (Cons n names)
  then have "fst (forIdentity n r) = PrivateStore n" by (auto simp: forIdentity_ref)
  moreover have "isHostAnchorValue (snd (forIdentity n r)) = isHostAnchorValue r"
    by (intro ext) (simp add: isHostAnchorValue_def reg_simps)
  moreover have "fst (sharing_loop names (snd (forIdentity n r))) =
      filter (\<lambda>n. isHostAnchorValue r (credential (deref r (PrivateStore n)))) names"
    using Cons.IH[of "snd (forIdentity n r)"] Cons.prems calculation
    by (auto simp: reg_simps simp del: deref.simps)
  ultimately show ?case
    by (simp add: Let_def split_beta reg_simps del: deref.simps)
qed simp

text \<open>
  The audit \<open>identitiesSharingHostAnchor\<close> is exact: it reports precisely the isolated
  identities whose own credential is the host's non-empty anchor, and although it creates
  the stores it looks at, it changes what no store holds.
\<close>

theorem sharing_audit_exact:
  assumes "registry_wf r"
  shows "set (fst (identitiesSharingHostAnchor r)) =
      {n \<in> set (isolated r). credential (ambient r) \<noteq> [] \<and>
         credential (deref r (PrivateStore n)) = credential (ambient r)} \<and>
    deref (snd (identitiesSharingHostAnchor r)) ref = deref r ref"
proof -
  from assms have "[] \<notin> set (isolated r)" by (simp add: registry_wf_def)
  then have "set (fst (sharing_loop (isolated r) r)) =
      {n \<in> set (isolated r). isHostAnchorValue r (credential (deref r (PrivateStore n)))}"
    by (simp add: sharing_loop_out)
  moreover have "isHostAnchorValue r v \<longleftrightarrow>
      credential (ambient r) \<noteq> [] \<and> v = credential (ambient r)" for v
    by (auto simp: isHostAnchorValue_def)
  ultimately have "set (fst (sharing_loop (isolated r) r)) =
      {n \<in> set (isolated r). credential (ambient r) \<noteq> [] \<and>
         credential (deref r (PrivateStore n)) = credential (ambient r)}"
    by (simp del: deref.simps)
  moreover have "fst (identitiesSharingHostAnchor r) = sort (fst (sharing_loop (isolated r) r))"
    "snd (identitiesSharingHostAnchor r) = snd (sharing_loop (isolated r) r)"
    by (simp_all add: identitiesSharingHostAnchor_def split_beta)
  ultimately show ?thesis
    by (simp only: set_sort deref_sharing_loop)
qed

lemma sharing_audit_exact_witness:
  "set (fst (identitiesSharingHostAnchor (snd (isolateIdentity ''page'' initRegistry)))) = {}"
  using sharing_audit_exact[OF registry_wf_isolate[OF registry_wf_init], of "''page''"]
  by (simp add: isolateIdentity_def initRegistry_def newTokenManager_def credential_unfold)

end
