(* ===== verification/Qt_Values.thy ===== *)
theory Qt_Values
  imports Prelude
begin

text \<open>
  The values that cross the Qt side of the program, the rejection sentinel of
  \<open>cpp/logos_rpc_status.h\<close> and the error vocabulary of \<open>cpp/logos_call_error.h\<close>.

  A \<open>QVariant\<close> is modelled by the metatypes the code tells apart. The integer metatypes keep
  their name; their value is widened to 64 bits, as \<open>toLongLong\<close> and \<open>toULongLong\<close> answer it.
  \<open>QLogosResult\<close> is the registered struct of \<open>cpp/logos_types.h\<close>. \<open>'v\<close> is the type of doubles and
  of the values of further metatypes (\<open>QOther\<close>), which are only passed on. What Qt makes of a
  value that is not a string when it is asked for one is the parameter \<open>conv\<close> of the
  definitions that ask. A map or JSON object is a list in the order of its iteration.
\<close>

subsection \<open>Values\<close>

datatype 'v qjson =
  JNull
| JUndefined
| JBool bool
| JNumber 'v
| JString qstring
| JArray "'v qjson list"
| JObject "(qstring \<times> 'v qjson) list"

datatype signed_kind = KInt | KLong | KLongLong | KShort | KChar | KSChar

datatype unsigned_kind = KUInt | KULong | KULongLong | KUShort | KUChar

datatype 'v qvariant =
  QInvalid
| QBool bool
| QSigned signed_kind "64 word"
| QUnsigned unsigned_kind u64
| QReal 'v
| QString qstring
| QBytes bytes
| QStringList "qstring list"
| QVariantList "'v qvariant list"
| QVariantMap "(qstring \<times> 'v qvariant) list"
| QJsonValue "'v qjson"
| QJsonObject "(qstring \<times> 'v qjson) list"
| QJsonArray "'v qjson list"
| QLogosResult bool "'v qvariant" "'v qvariant"
| QOther 'v

text \<open>What \<open>std::modf\<close> tells of a double.\<close>

datatype double_kind = Fractional | Whole int | PosInf | NegInf

fun isValid :: "'v qvariant \<Rightarrow> bool" where
  "isValid QInvalid = False"
| "isValid _ = True"

fun variant_toString :: "('v qvariant \<Rightarrow> qstring) \<Rightarrow> 'v qvariant \<Rightarrow> qstring" where
  "variant_toString conv (QString s) = s"
| "variant_toString conv QInvalid = []"
| "variant_toString conv (QVariantList vs) = []"
| "variant_toString conv (QVariantMap m) = []"
| "variant_toString conv (QJsonObject o1) = []"
| "variant_toString conv (QJsonArray a) = []"
| "variant_toString conv (QLogosResult ok v e) = []"
| "variant_toString conv v = conv v"

text \<open>\<open>QJsonValue::toString\<close> answers the empty string for anything but a string.\<close>

fun json_toString :: "'v qjson \<Rightarrow> qstring" where
  "json_toString (JString s) = s"
| "json_toString _ = []"

fun json_toObject :: "'v qjson \<Rightarrow> (qstring \<times> 'v qjson) list" where
  "json_toObject (JObject fs) = fs"
| "json_toObject _ = []"

fun json_isObject :: "'v qjson \<Rightarrow> bool" where
  "json_isObject (JObject fs) = True"
| "json_isObject _ = False"

definition object_string :: "(qstring \<times> 'v qjson) list \<Rightarrow> qstring \<Rightarrow> qstring" where
  "object_string fs k = (case hash_find fs k of None \<Rightarrow> [] | Some v \<Rightarrow> json_toString v)"

subsection \<open>The rejection sentinel\<close>

definition kRpcStatusKey :: qstring where
  "kRpcStatusKey = ''__logos_rpc_status__''"

definition kRpcStatusUnauthorized :: qstring where
  "kRpcStatusUnauthorized = ''unauthorized''"

definition makeUnauthorizedSentinel :: "'v qvariant" where
  "makeUnauthorizedSentinel = QVariantMap [(kRpcStatusKey, QString kRpcStatusUnauthorized)]"

fun isUnauthorizedSentinel :: "('v qvariant \<Rightarrow> qstring) \<Rightarrow> 'v qvariant \<Rightarrow> bool" where
  "isUnauthorizedSentinel conv (QVariantMap m) =
     (length m = 1 \<and>
      (case hash_find m kRpcStatusKey of None \<Rightarrow> [] | Some v \<Rightarrow> variant_toString conv v)
        = kRpcStatusUnauthorized)"
| "isUnauthorizedSentinel conv (QJsonObject o1) =
     (length o1 = 1 \<and> object_string o1 kRpcStatusKey = kRpcStatusUnauthorized)"
| "isUnauthorizedSentinel conv _ = False"

lemma sentinel_recognised [simp]: "isUnauthorizedSentinel conv makeUnauthorizedSentinel"
  by (simp add: makeUnauthorizedSentinel_def)

lemma sentinel_valid [simp]: "isValid makeUnauthorizedSentinel"
  by (simp add: makeUnauthorizedSentinel_def)

lemma sentinel_not_scalar [simp]:
  "\<not> isUnauthorizedSentinel conv QInvalid"
  "\<not> isUnauthorizedSentinel conv (QString s)"
  "\<not> isUnauthorizedSentinel conv (QOther v)"
  "\<not> isUnauthorizedSentinel conv (QJsonArray a)"
  by simp_all

subsection \<open>Call errors\<close>

record call_error =
  code :: qstring
  message :: qstring
  origin :: qstring

definition no_error :: call_error where
  "no_error = \<lparr>code = [], message = [], origin = []\<rparr>"

definition error_ok :: "call_error \<Rightarrow> bool" where
  "error_ok e = (code e = [])"

text \<open>\<open>std::to_string\<close> of an \<open>int\<close>, in decimal.\<close>

fun nat_digits :: "nat \<Rightarrow> qstring" where
  "nat_digits n = (if n < 10 then [char_of (48 + n)] else nat_digits (n div 10) @ [char_of (48 + n mod 10)])"

declare nat_digits.simps [simp del]

definition to_string :: "int \<Rightarrow> qstring" where
  "to_string i = (if i < 0 then ''-'' @ nat_digits (nat (- i)) else nat_digits (nat i))"

definition callErrorTimeout :: "qstring \<Rightarrow> qstring \<Rightarrow> int \<Rightarrow> call_error" where
  "callErrorTimeout orig method timeoutMs =
     \<lparr>code = ''timeout'',
      message = ''call to '' @ [CHR 0x27] @ orig @ ''.'' @ method @ [CHR 0x27] @ '' timed out after '' @
        to_string timeoutMs @ ''ms'',
      origin = orig\<rparr>"

definition callErrorObjectUnavailable :: "qstring \<Rightarrow> qstring \<Rightarrow> call_error" where
  "callErrorObjectUnavailable orig detail =
     \<lparr>code = ''object_unavailable'', message = detail, origin = orig\<rparr>"

definition callErrorTransport :: "qstring \<Rightarrow> qstring \<Rightarrow> call_error" where
  "callErrorTransport orig detail = \<lparr>code = ''transport_error'', message = detail, origin = orig\<rparr>"

definition callErrorCallFailed :: "qstring \<Rightarrow> qstring \<Rightarrow> call_error" where
  "callErrorCallFailed orig detail = \<lparr>code = ''call_failed'', message = detail, origin = orig\<rparr>"

definition callErrorFromWire :: "qstring \<Rightarrow> qstring \<Rightarrow> qstring \<Rightarrow> call_error" where
  "callErrorFromWire orig wireCode msg =
     (let detail = (if msg = [] then wireCode else msg)
      in if wireCode = ''MODULE_NOT_LOADED'' then callErrorObjectUnavailable orig detail
         else if wireCode = ''TRANSPORT_CLOSED'' \<or> wireCode = ''TRANSPORT_ERROR''
         then callErrorTransport orig detail
         else callErrorCallFailed orig detail)"

lemma callErrorFromWire_not_ok: "\<not> error_ok (callErrorFromWire orig wireCode msg)"
  by (simp add: error_ok_def callErrorFromWire_def Let_def callErrorObjectUnavailable_def
      callErrorTransport_def callErrorCallFailed_def)

end
