(* ===== verification/Caller_Scope.thy ===== *)
theory Caller_Scope
  imports Prelude
begin

text \<open>
  \<open>cpp/logos_caller_scope.{h,cpp}\<close>: the caller documents and the per-thread slot that
  names the caller of the dispatch in progress. The slot is a string of the thread's state,
  empty when no dispatch runs; a scope keeps the enclosing document in its own frame.

  nlohmann's serializer is not part of the repository: \<open>dump\<close>, which renders a JSON object
  from its fields in order, is a parameter of the definitions.
\<close>

definition callerUnknownJson :: qstring where
  "callerUnknownJson = ''{\"kind\":\"unknown\"}''"

definition callerHostAnchorJson :: qstring where
  "callerHostAnchorJson = ''{\"kind\":\"host\"}''"

type_synonym json_dump = "(qstring \<times> qstring) list \<Rightarrow> qstring"

definition callerModuleJson :: "json_dump \<Rightarrow> qstring \<Rightarrow> qstring" where
  "callerModuleJson dump name =
     (if name = [] then callerUnknownJson else dump [(''kind'', ''module''), (''name'', name)])"

subsection \<open>Scopes\<close>

text \<open>Opening moves the slot's value into the frame; closing moves it back.\<close>

definition openScope :: "qstring \<Rightarrow> qstring \<Rightarrow> qstring \<times> qstring" where
  "openScope callerJson slot = (let previous = slot in (previous, callerJson))"

definition closeScope :: "qstring \<Rightarrow> qstring \<Rightarrow> qstring" where
  "closeScope previous slot = previous"

text \<open>
  A dispatch on this thread: the caller's document, and the dispatches that run inside it
  (nested event loops deliver inbound calls on the same thread). It reads the slot at its
  start and again after each nested dispatch; the readings are the run's trace.
\<close>

datatype dispatch = Dispatch qstring "dispatch list"

fun run_dispatch :: "dispatch \<Rightarrow> qstring \<Rightarrow> (qstring \<times> qstring) list \<times> qstring"
  and run_nested :: "qstring \<Rightarrow> dispatch list \<Rightarrow> qstring \<Rightarrow> (qstring \<times> qstring) list \<times> qstring"
where
  "run_dispatch (Dispatch c ds) slot =
     (let (previous, slot1) = openScope c slot;
          (trace, slot2) = run_nested c ds slot1
      in ((c, slot1) # trace, closeScope previous slot2))"
| "run_nested c [] slot = ([], slot)"
| "run_nested c (d # ds) slot =
     (let (t1, slot1) = run_dispatch d slot;
          (t2, slot2) = run_nested c ds slot1
      in (t1 @ (c, slot1) # t2, slot2))"

lemma run_dispatch_restores: "snd (run_dispatch d slot) = slot"
  and run_nested_restores: "snd (run_nested c ds slot) = slot"
  by (induction d slot and c ds slot rule: run_dispatch_run_nested.induct)
    (auto simp: openScope_def closeScope_def Let_def split: prod.splits)

lemma run_dispatch_names: "\<forall>(c, seen) \<in> set (fst (run_dispatch d slot)). seen = c"
  and run_nested_names: "slot = c' \<Longrightarrow> \<forall>(c, seen) \<in> set (fst (run_nested c' ds slot)). seen = c"
proof (induction d slot and c' ds slot rule: run_dispatch_run_nested.induct)
  case (3 c d ds slot)
  obtain t1 where d: "run_dispatch d slot = (t1, slot)"
    using run_dispatch_restores[of d slot] by (cases "run_dispatch d slot") auto
  from "3.IH"(2)[OF refl] d "3.prems"
  have "\<forall>(c, seen) \<in> set (fst (run_nested c ds slot)). seen = c"
    by metis
  with 3 show ?case by (auto simp: run_dispatch_restores split_beta Let_def)
qed (auto simp: openScope_def split_beta Let_def)

text \<open>
  However dispatches nest on a thread, every reading a dispatch makes of the ambient
  caller is its own caller, also after an inner dispatch has returned, and when the outermost
  dispatch is over the slot holds what it held before.
\<close>

theorem caller_scope_nests:
  "(\<forall>(c, seen) \<in> set (fst (run_dispatch d slot)). seen = c) \<and> snd (run_dispatch d slot) = slot"
  by (simp add: run_dispatch_names run_dispatch_restores)

lemma caller_scope_nests_witness:
  "fst (run_dispatch (Dispatch ''a'' [Dispatch ''b'' []]) []) = [(''a'', ''a''), (''b'', ''b''), (''a'', ''a'')] \<and>
   snd (run_dispatch (Dispatch ''a'' [Dispatch ''b'' []]) []) = []"
  using caller_scope_nests[of "Dispatch ''a'' [Dispatch ''b'' []]" "[]"]
  by (simp add: openScope_def closeScope_def)

end
