(* ===== verification/Authorize.thy ===== *)
theory Authorize
  imports Token_Store Caller_Scope
begin

text \<open>
  The authorization scan of \<open>cpp/module_proxy.cpp\<close>: the constant-time comparison, the
  branch-free fold that recovers the name of the matching caller, \<open>scanIssuedTokens\<close> over
  the three sources of issued tokens, and \<open>ModuleProxy::authorize\<close>.

  C++ \<open>int\<close> is \<open>32 word\<close> read by \<open>sint\<close>, \<open>unsigned char\<close> is \<open>u8\<close>, \<open>unsigned\<close> is
  \<open>u32\<close>, the comparison counter \<open>u64\<close>. Token lengths are stored in an \<open>int\<close> by the code;
  theorems that need no truncation to occur say so with \<open>int_sized\<close>.
\<close>

unbundle bit_operations_syntax

subsection \<open>Constant-time comparison\<close>

definition toUtf8 :: "qstring \<Rightarrow> bytes" where
  "toUtf8 s = map of_char s"

definition byte_or_0 :: "bytes \<Rightarrow> nat \<Rightarrow> u8" where
  "byte_or_0 bs i = (if i < length bs then bs ! i else 0)"

definition constantTimeEquals :: "qstring \<Rightarrow> qstring \<Rightarrow> u64 \<Rightarrow> bool \<times> u64" where
  "constantTimeEquals a b count =
     (let ba = toUtf8 a; bb = toUtf8 b;
          n = sint (word_of_nat (max (length ba) (length bb)) :: 32 word);
          diff0 = (word_of_nat (length ba) :: 32 word) XOR word_of_nat (length bb);
          diff = fold (\<lambda>i d. d OR (ucast (byte_or_0 ba i XOR byte_or_0 bb i) :: 32 word)) [0..<nat n] diff0
      in (diff = 0, count + 1))"

definition int_sized :: "qstring \<Rightarrow> bool" where
  "int_sized s = (length s < 2 ^ 31)"

lemma xor_eq_0_iff_word: "x XOR y = 0 \<longleftrightarrow> x = (y :: 'a::len word)"
proof
  assume "x XOR y = 0"
  then have "(x XOR y) XOR y = y" by simp
  then show "x = y" by (simp add: xor.assoc)
qed simp

lemma fold_or_eq_0:
  "fold (\<lambda>i d. d OR f i) is d = (0 :: 'a::len word) \<longleftrightarrow> d = 0 \<and> (\<forall>i \<in> set is. f i = 0)"
  by (induction "is" arbitrary: d) (auto simp: or_eq_0_iff)

lemma unat_of_char [simp]: "unat (of_char c :: u8) = of_char c"
proof -
  have "(of_char c :: u8) = of_nat (of_char c)" by (simp add: of_nat_of_char)
  moreover have "(of_char c :: nat) < 2 ^ LENGTH(8)" using nat_of_char_less_256[of c] by simp
  ultimately show ?thesis by (simp only: unat_word_of_nat)
qed

lemma toUtf8_inj [simp]: "toUtf8 a = toUtf8 b \<longleftrightarrow> a = b"
proof -
  have "inj (of_char :: char \<Rightarrow> u8)"
    by (rule injI) (metis unat_of_char of_char_eq_iff)
  then show ?thesis by (auto simp: toUtf8_def inj_map_eq_map)
qed

lemma length_toUtf8 [simp]: "length (toUtf8 s) = length s"
  by (simp add: toUtf8_def)

lemma nth_or_0_eq:
  assumes "length xs = length ys"
  shows "(\<forall>i < length xs. byte_or_0 xs i = byte_or_0 ys i) \<longleftrightarrow> xs = ys"
  using assms by (auto simp: byte_or_0_def list_eq_iff_nth_eq)

lemma sint_small: "n < 2 ^ 31 \<Longrightarrow> sint (word_of_nat n :: 32 word) = int n"
proof -
  assume "n < 2 ^ 31"
  then have "int n < 2 ^ 31" by simp
  then show ?thesis by (simp add: signed_of_nat signed_take_bit_int_eq_self)
qed

lemma ucast_eq_0_u8: "(ucast w :: 32 word) = 0 \<longleftrightarrow> w = (0 :: u8)"
proof -
  have "unat w < 2 ^ 32" using unsigned_less[of w, where ?'a = nat] by simp
  then have "unat (ucast w :: 32 word) = unat w"
    by (simp add: unsigned_ucast_eq take_bit_nat_eq_self)
  then show ?thesis by (metis unat_eq_0)
qed

text \<open>On tokens whose length fits an \<open>int\<close> the scan answers equality, and it always counts one.\<close>

lemma constantTimeEquals_correct:
  assumes "int_sized a" and "int_sized b"
  shows "constantTimeEquals a b count = (a = b, count + 1)"
proof -
  let ?ba = "toUtf8 a" and ?bb = "toUtf8 b"
  let ?n = "max (length a) (length b)"
  let ?d0 = "(word_of_nat (length a) :: 32 word) XOR word_of_nat (length b)"
  from assms have n: "nat (sint (word_of_nat ?n :: 32 word)) = ?n"
    by (simp add: int_sized_def sint_small)
  have d0: "?d0 = 0 \<longleftrightarrow> length a = length b"
  proof -
    have "length a < 2 ^ LENGTH(32)" "length b < 2 ^ LENGTH(32)"
      using assms by (simp_all add: int_sized_def)
    then have "(word_of_nat (length a) :: 32 word) = word_of_nat (length b) \<longleftrightarrow> length a = length b"
      by (metis unat_word_of_nat)
    then show ?thesis by (simp add: xor_eq_0_iff_word)
  qed
  have byte: "(ucast (x XOR y) :: 32 word) = 0 \<longleftrightarrow> x = y" for x y :: u8
    by (simp only: ucast_eq_0_u8 xor_eq_0_iff_word)
  have "(fold (\<lambda>i d. d OR (ucast (byte_or_0 ?ba i XOR byte_or_0 ?bb i) :: 32 word)) [0..<?n] ?d0 = 0)
      \<longleftrightarrow> length a = length b \<and> (\<forall>i < ?n. byte_or_0 ?ba i = byte_or_0 ?bb i)"
    by (auto simp: fold_or_eq_0 d0 byte)
  also have "\<dots> \<longleftrightarrow> a = b"
    using nth_or_0_eq[of ?ba ?bb] by auto
  finally show ?thesis by (simp add: constantTimeEquals_def Let_def n)
qed

lemma constantTimeEquals_counts: "snd (constantTimeEquals a b count) = count + 1"
  by (simp add: constantTimeEquals_def Let_def)

subsection \<open>Recovering the matched key\<close>

definition kCallerKeyMax :: nat where
  "kCallerKeyMax = 64"

record caller_fold =
  key :: bytes
  keyLen :: u8

definition emptyFold :: caller_fold where
  "emptyFold = \<lparr>key = replicate kCallerKeyMax 0, keyLen = 0\<rparr>"

definition offer :: "32 word \<Rightarrow> bytes \<Rightarrow> caller_fold \<Rightarrow> caller_fold" where
  "offer match candKey f =
     (let m = ucast (- (match AND 1)) :: u8;
          n = (if length candKey \<le> kCallerKeyMax then length candKey else 0);
          c = (\<lambda>i. if i < n then candKey ! i else 0)
      in \<lparr>key = map (\<lambda>i. (key f ! i AND NOT m) OR (c i AND m)) [0..<kCallerKeyMax],
          keyLen = (keyLen f AND NOT m) OR (word_of_nat n AND m)\<rparr>)"

definition foldName :: "caller_fold \<Rightarrow> qstring" where
  "foldName f = map (\<lambda>b. char_of (unat b)) (take (unat (keyLen f)) (key f))"

text \<open>The fold as a plain choice: what the branch-free selection computes.\<close>

definition named :: "qstring \<Rightarrow> caller_fold" where
  "named k = (let n = (if length k \<le> kCallerKeyMax then length k else 0)
     in \<lparr>key = map (\<lambda>i. if i < n then toUtf8 k ! i else 0) [0..<kCallerKeyMax], keyLen = word_of_nat n\<rparr>)"

lemma offer_unmatched: "length (key f) = kCallerKeyMax \<Longrightarrow> offer 0 cand f = f"
  by (cases f) (auto simp: offer_def Let_def intro!: nth_equalityI)

lemma offer_matched: "offer 1 (toUtf8 k) f = named k"
proof -
  have "(ucast (- (1 AND 1) :: 32 word) :: u8) = - 1"
    by (simp add: unsigned_minus_1_eq_mask mask_eq_exp_minus_1)
  then show ?thesis by (simp add: offer_def named_def Let_def)
qed

lemma length_key_emptyFold [simp]: "length (key emptyFold) = kCallerKeyMax"
  by (simp add: emptyFold_def)

lemma length_key_named [simp]: "length (key (named k)) = kCallerKeyMax"
  by (simp add: named_def Let_def)

lemma unat_keyLen_named: "unat (keyLen (named k)) = (if length k \<le> kCallerKeyMax then length k else 0)"
  by (simp add: named_def Let_def kCallerKeyMax_def unat_word_of_nat)

lemma keyLen_emptyFold [simp]: "keyLen emptyFold = 0"
  by (simp add: emptyFold_def)

lemma keyLen_named_pos: "0 < keyLen (named k) \<longleftrightarrow> k \<noteq> [] \<and> length k \<le> kCallerKeyMax"
  using unat_keyLen_named[of k] by (auto simp: word_greater_zero_iff simp flip: unat_eq_0 split: if_splits)

lemma foldName_named: "length k \<le> kCallerKeyMax \<Longrightarrow> foldName (named k) = k"
proof -
  assume le: "length k \<le> kCallerKeyMax"
  then have "take (length k) (key (named k)) = toUtf8 k"
    by (auto simp: named_def Let_def intro!: nth_equalityI)
  moreover have "map (\<lambda>b. char_of (unat b)) (toUtf8 k) = k"
    by (simp add: toUtf8_def map_idI)
  ultimately show ?thesis
    using le by (simp add: foldName_def unat_keyLen_named)
qed

subsection \<open>The scan over every issued token\<close>

record scan_outcome =
  authorized :: bool
  moduleHits :: u32
  anchorHits :: u32
  scanFold :: caller_fold

definition scan_init :: scan_outcome where
  "scan_init = \<lparr>authorized = False, moduleHits = 0, anchorHits = 0, scanFold = emptyFold\<rparr>"

definition scan_proxy_entry ::
  "qstring \<Rightarrow> qstring \<times> qstring \<Rightarrow> scan_outcome \<times> u64 \<Rightarrow> scan_outcome \<times> u64" where
  "scan_proxy_entry authToken entry st =
     (let (out, count) = st; (k, v) = entry;
          isAnchor = (if k \<in> set bootstrapKeys then 1 else 0) :: 32 word;
          (eq, count') = constantTimeEquals authToken v count;
          match = (if eq then 1 else 0) :: 32 word
      in (out\<lparr>authorized := (authorized out \<or> match \<noteq> 0),
              scanFold := offer (match AND NOT isAnchor) (toUtf8 k) (scanFold out),
              moduleHits := moduleHits out + match\<rparr>, count'))"

definition scan_store_entry ::
  "qstring \<Rightarrow> token_manager \<Rightarrow> qstring \<Rightarrow> scan_outcome \<times> u64 \<Rightarrow> scan_outcome \<times> u64" where
  "scan_store_entry authToken store caller st =
     (let (out, count) = st;
          (eq, count') = constantTimeEquals authToken (inboundValue store caller) count;
          match = (if eq then 1 else 0) :: 32 word
      in (out\<lparr>authorized := (authorized out \<or> match \<noteq> 0)\<rparr>, count'))"

definition scan_credential ::
  "qstring \<Rightarrow> qstring \<Rightarrow> scan_outcome \<times> u64 \<Rightarrow> scan_outcome \<times> u64" where
  "scan_credential authToken cred st =
     (let (out, count) = st;
          present = (if cred = [] then 0 else 1) :: 32 word;
          (eq, count') = constantTimeEquals authToken cred count;
          match = (if eq then 1 else 0) :: 32 word
      in (out\<lparr>authorized := (authorized out \<or> match AND present \<noteq> 0),
              anchorHits := anchorHits out + (match AND present)\<rparr>, count'))"

definition scanIssuedTokens ::
  "qstring \<Rightarrow> (qstring, qstring) qhash \<Rightarrow> token_manager \<Rightarrow> qstring \<Rightarrow> u64 \<Rightarrow> scan_outcome \<times> u64" where
  "scanIssuedTokens authToken proxyInbound storeInbound cred count =
     scan_credential authToken cred
       (fold (scan_store_entry authToken storeInbound) (inboundKeyList storeInbound)
         (fold (scan_proxy_entry authToken) proxyInbound (scan_init, count)))"

type_synonym token_validator = "qstring \<Rightarrow> qstring \<Rightarrow> bool"

definition authorize ::
  "json_dump \<Rightarrow> (qstring, qstring) qhash \<Rightarrow> token_manager \<Rightarrow> token_validator option \<Rightarrow>
   qstring \<Rightarrow> qstring \<Rightarrow> u64 \<Rightarrow> bool \<times> qstring \<times> u64" where
  "authorize dump proxyTokens store validator authToken transport count =
     (if authToken = [] then (False, callerUnknownJson, count)
      else
        let (scan, count') =
              scanIssuedTokens authToken proxyTokens store (credential store) count;
            auth = authorized scan;
            auth' = (case validator of
                       Some f \<Rightarrow> if \<not> auth then f authToken transport else auth
                     | None \<Rightarrow> auth)
        in if \<not> auth' then (False, callerUnknownJson, count')
           else if 0 < anchorHits scan then (True, callerHostAnchorJson, count')
           else if moduleHits scan = 1 \<and> 0 < keyLen (scanFold scan)
           then (True, callerModuleJson dump (foldName (scanFold scan)), count')
           else (True, callerUnknownJson, count'))"

definition isAuthorized ::
  "(qstring, qstring) qhash \<Rightarrow> token_manager \<Rightarrow> token_validator option \<Rightarrow> qstring \<Rightarrow> qstring \<Rightarrow> u64 \<Rightarrow> bool \<times> u64" where
  "isAuthorized proxyTokens store validator authToken transport count =
     (let (ok, _, count') = authorize (\<lambda>_. []) proxyTokens store validator authToken transport count
      in (ok, count'))"

subsection \<open>What the scan computes\<close>

text \<open>The names in which truncation of a length or of a counter could matter.\<close>

definition scan_sized :: "(qstring, qstring) qhash \<Rightarrow> token_manager \<Rightarrow> qstring \<Rightarrow> bool" where
  "scan_sized proxyTokens store tok =
     (int_sized tok \<and> int_sized (credential store) \<and> length proxyTokens < 2 ^ 32 \<and>
      (\<forall>(k, v) \<in> set proxyTokens. int_sized v) \<and>
      (\<forall>c \<in> set (inboundKeyList store). int_sized (inboundValue store c)))"

definition name_of :: "qstring \<Rightarrow> qstring \<times> qstring \<Rightarrow> caller_fold \<Rightarrow> caller_fold" where
  "name_of tok e f = (if snd e = tok \<and> fst e \<notin> set bootstrapKeys then named (fst e) else f)"

lemma length_key_name_of: "length (key f) = kCallerKeyMax \<Longrightarrow> length (key (name_of tok e f)) = kCallerKeyMax"
  by (simp add: name_of_def)

lemma and_not_bit [simp]: "(1 :: 32 word) AND NOT 1 = 0" "(1 :: 32 word) AND NOT 0 = 1"
  by simp_all

lemma scan_proxy_entry_eq:
  assumes "int_sized tok" and "int_sized (snd e)" and "length (key (scanFold out)) = kCallerKeyMax"
  shows "scan_proxy_entry tok e (out, count) =
    (out\<lparr>authorized := (authorized out \<or> snd e = tok),
        scanFold := name_of tok e (scanFold out),
        moduleHits := moduleHits out + (if snd e = tok then 1 else 0)\<rparr>, count + 1)"
  using assms
  by (cases e) (auto simp: scan_proxy_entry_def constantTimeEquals_correct name_of_def
      offer_matched offer_unmatched)

lemma scan_proxy_eq:
  assumes "int_sized tok" and "\<forall>(k, v) \<in> set P. int_sized v"
    and "length (key (scanFold out)) = kCallerKeyMax"
  shows "fold (scan_proxy_entry tok) P (out, count) =
    (out\<lparr>authorized := (authorized out \<or> tok \<in> snd ` set P),
        scanFold := fold (name_of tok) P (scanFold out),
        moduleHits := moduleHits out + word_of_nat (length (filter (\<lambda>e. snd e = tok) P))\<rparr>,
     count + word_of_nat (length P))"
  using assms(2,3)
proof (induction P arbitrary: out count)
  case (Cons e P)
  have e: "int_sized (snd e)" using Cons.prems(1) by auto
  have P: "\<forall>(k, v) \<in> set P. int_sized v" using Cons.prems(1) by simp
  show ?case
    unfolding fold_simps o_apply scan_proxy_entry_eq[OF assms(1) e Cons.prems(2)]
    by (subst Cons.IH[OF P]) (auto simp: length_key_name_of Cons.prems(2) algebra_simps)
qed simp

lemma scan_store_eq:
  assumes "int_sized tok" and "\<forall>c \<in> set cs. int_sized (inboundValue store c)"
  shows "fold (scan_store_entry tok store) cs (out, count) =
    (out\<lparr>authorized := (authorized out \<or> (\<exists>c \<in> set cs. inboundValue store c = tok))\<rparr>,
     count + word_of_nat (length cs))"
  using assms(2)
  by (induction cs arbitrary: out count)
    (auto simp: scan_store_entry_def constantTimeEquals_correct assms(1) algebra_simps)

lemma scan_credential_eq:
  assumes "int_sized tok" and "int_sized cred" and "tok \<noteq> []"
  shows "scan_credential tok cred (out, count) =
    (out\<lparr>authorized := (authorized out \<or> cred = tok),
        anchorHits := anchorHits out + (if cred = tok then 1 else 0)\<rparr>, count + 1)"
  using assms by (auto simp: scan_credential_def constantTimeEquals_correct)

lemma scanIssuedTokens_eq:
  assumes "scan_sized P store tok" and "tok \<noteq> []"
  shows "scanIssuedTokens tok P store (credential store) count =
    (\<lparr>authorized = (tok \<in> snd ` set P \<or>
         (\<exists>c \<in> set (inboundKeyList store). inboundValue store c = tok) \<or> credential store = tok),
      moduleHits = word_of_nat (length (filter (\<lambda>e. snd e = tok) P)),
      anchorHits = (if credential store = tok then 1 else 0),
      scanFold = fold (name_of tok) P emptyFold\<rparr>,
     count + word_of_nat (length P) + word_of_nat (length (inboundKeyList store)) + 1)"
  using assms
  by (auto simp: scanIssuedTokens_def scan_sized_def scan_proxy_eq scan_store_eq
      scan_credential_eq scan_init_def)

lemma fold_name_of_unmatched:
  "(\<And>e. e \<in> set P \<Longrightarrow> snd e \<noteq> tok) \<Longrightarrow> fold (name_of tok) P f = f"
  by (induction P arbitrary: f) (auto simp: name_of_def)

lemma fold_name_of_single:
  assumes "filter (\<lambda>e. snd e = tok) P = [e]"
  shows "fold (name_of tok) P f = name_of tok e f"
proof -
  from assms obtain us vs where P: "P = us @ e # vs" and us: "\<forall>u \<in> set us. snd u \<noteq> tok"
    and vs: "filter (\<lambda>e. snd e = tok) vs = []"
    by (auto simp: filter_eq_Cons_iff)
  from vs have "\<And>v. v \<in> set vs \<Longrightarrow> snd v \<noteq> tok" by (simp add: filter_empty_conv)
  with us show ?thesis by (simp add: P fold_name_of_unmatched)
qed

text \<open>The verdict and the caller document, stated without the machinery.\<close>

definition issued_token :: "(qstring, qstring) qhash \<Rightarrow> token_manager \<Rightarrow> qstring \<Rightarrow> bool" where
  "issued_token P store tok =
     (tok \<in> snd ` set P \<or> (\<exists>c. inboundValue store c = tok) \<or> credential store = tok)"

definition caller_document ::
  "json_dump \<Rightarrow> (qstring, qstring) qhash \<Rightarrow> token_manager \<Rightarrow> qstring \<Rightarrow> qstring" where
  "caller_document dump P store tok =
     (if credential store = tok then callerHostAnchorJson
      else case filter (\<lambda>e. snd e = tok) P of
             [(k, v)] \<Rightarrow> if k \<notin> set bootstrapKeys \<and> length k \<le> kCallerKeyMax
                        then callerModuleJson dump k else callerUnknownJson
           | _ \<Rightarrow> callerUnknownJson)"

lemma module_hits_single:
  assumes "length P < 2 ^ 32"
  shows "(word_of_nat (length (filter Q P)) :: u32) = 1 \<longleftrightarrow> (\<exists>e. filter Q P = [e])"
proof -
  have "length (filter Q P) < 2 ^ LENGTH(32)"
    using assms le_less_trans[OF length_filter_le] by simp
  then have "unat (word_of_nat (length (filter Q P)) :: u32) = length (filter Q P)"
    by (rule unat_word_of_nat)
  then have "(word_of_nat (length (filter Q P)) :: u32) = 1 \<longleftrightarrow> length (filter Q P) = 1"
    by (metis unat_1 word_unat_eq_iff)
  then show ?thesis by (simp add: length_Suc_conv)
qed

lemma caller_document_none:
  "tok \<notin> snd ` set P \<Longrightarrow> credential store \<noteq> tok \<Longrightarrow> caller_document dump P store tok = callerUnknownJson"
proof -
  assume "tok \<notin> snd ` set P" and c: "credential store \<noteq> tok"
  then have "filter (\<lambda>e. snd e = tok) P = []" by (auto simp: filter_empty_conv)
  with c show ?thesis by (simp add: caller_document_def)
qed

lemma scan_document:
  assumes "length P < 2 ^ 32" and "credential store \<noteq> tok"
  shows "(if (word_of_nat (length (filter (\<lambda>e. snd e = tok) P)) :: u32) = 1 \<and>
             0 < keyLen (fold (name_of tok) P emptyFold)
          then callerModuleJson dump (foldName (fold (name_of tok) P emptyFold))
          else callerUnknownJson) = caller_document dump P store tok"
proof (cases "\<exists>e. filter (\<lambda>e. snd e = tok) P = [e]")
  case True
  then obtain k v where e: "filter (\<lambda>e. snd e = tok) P = [(k, v)]" by auto
  then have "(k, v) \<in> set (filter (\<lambda>e. snd e = tok) P)" by simp
  then have v: "v = tok" by simp
  show ?thesis
    using assms(2) e
    by (auto simp: fold_name_of_single[OF e] module_hits_single[OF assms(1)] caller_document_def
        v name_of_def keyLen_named_pos foldName_named callerModuleJson_def)
next
  case False
  with assms(2) show ?thesis
    by (auto simp: module_hits_single[OF assms(1)] caller_document_def split: list.splits)
qed

text \<open>
  C1: \<open>authorize\<close> is exact. A non-empty token is admitted precisely when it is one this proxy
  recorded for a caller, one the provider's store holds in its inbound half, the identity's
  own credential, or one a host validator accepts for the transport. The caller document is
  the host's when the credential matched, names a module only when exactly one recorded
  caller has that token and its name is neither an anchor label nor too long to recover,
  and is unknown otherwise; an empty token is refused without a comparison.
\<close>

theorem authorize_exact:
  assumes "store_wf store" and "scan_sized P store tok"
  shows "authorize dump P store validator tok transport count =
    (if tok = [] then (False, callerUnknownJson, count)
     else let ok = issued_token P store tok \<or>
                (case validator of None \<Rightarrow> False | Some f \<Rightarrow> f tok transport)
          in (ok, if ok then caller_document dump P store tok else callerUnknownJson,
              count + word_of_nat (length P) + word_of_nat (length (inboundKeyList store)) + 1))"
proof (cases "tok = []")
  case False
  have len: "length P < 2 ^ 32" using assms(2) by (simp add: scan_sized_def)
  have inb: "(\<exists>c \<in> set (inboundKeyList store). inboundValue store c = tok) \<longleftrightarrow>
      (\<exists>c. inboundValue store c = tok)"
    using False inboundKeyList_exact[OF assms(1)] inboundValue_nonempty[OF assms(1)] by auto
  define ok where "ok = (issued_token P store tok \<or>
      (case validator of None \<Rightarrow> False | Some f \<Rightarrow> f tok transport))"
  have plain: "authorize dump P store validator tok transport count =
      (ok, if \<not> ok then callerUnknownJson
           else if credential store = tok then callerHostAnchorJson
           else if (word_of_nat (length (filter (\<lambda>e. snd e = tok) P)) :: u32) = 1 \<and>
                   0 < keyLen (fold (name_of tok) P emptyFold)
           then callerModuleJson dump (foldName (fold (name_of tok) P emptyFold))
           else callerUnknownJson,
       count + word_of_nat (length P) + word_of_nat (length (inboundKeyList store)) + 1)"
    using False
    by (auto simp: authorize_def scanIssuedTokens_eq[OF assms(2) False] inb issued_token_def ok_def
        split: option.splits)
  show ?thesis
  proof (cases "credential store = tok")
    case True
    with False show ?thesis
      by (simp add: plain caller_document_def flip: ok_def)
  next
    case cred: False
    with False scan_document[OF len cred, of dump] show ?thesis
      by (simp add: plain flip: ok_def)
  qed
qed (simp add: authorize_def)

lemma authorize_exact_witness:
  "authorize (\<lambda>fs. concat (map snd fs)) [(''chat'', ''t1'')] newTokenManager None ''t1'' ''local'' 0 =
     (True, ''modulechat'', 2)"
proof -
  have "scan_sized [(''chat'', ''t1'')] newTokenManager ''t1''"
    by (simp add: scan_sized_def int_sized_def newTokenManager_def credential_unfold
        inboundKeyList_def hash_keys_def)
  from authorize_exact[OF store_wf_new this] show ?thesis
    by (simp add: issued_token_def caller_document_def newTokenManager_def credential_unfold
        inboundKeyList_def hash_keys_def bootstrapKeys_def kCallerKeyMax_def callerModuleJson_def)
qed

subsection \<open>What cannot influence the verdict\<close>

lemma inboundKeyList_saveToken: "inboundKeyList (fst (saveToken k t s)) = inboundKeyList s"
  by (simp add: inboundKeyList_def store_simps hash_keys_def hash_insert_def update_keys)

lemma credential_saveToken: "k \<notin> set bootstrapKeys \<Longrightarrow> credential (fst (saveToken k t s)) = credential s"
  by (auto simp: credential_unfold store_simps bootstrapKeys_def)

lemma inboundValue_saveToken: "inboundValue (fst (saveToken k t s)) = inboundValue s"
  by (rule ext) (rule halves.geti_puto)

lemma scan_store_entry_cong:
  "inboundValue s = inboundValue s' \<Longrightarrow> scan_store_entry tok s = scan_store_entry tok s'"
  by (intro ext) (simp add: scan_store_entry_def)



lemma scan_counts:
  "snd (scanIssuedTokens tok P store cred count) =
     count + word_of_nat (length P) + word_of_nat (length (inboundKeyList store)) + 1"
proof -
  have proxy: "snd (fold (scan_proxy_entry tok) P st) = snd st + word_of_nat (length P)" for st
    by (induction P arbitrary: st)
      (auto simp: scan_proxy_entry_def split_beta Let_def constantTimeEquals_counts algebra_simps)
  have store: "snd (fold (scan_store_entry tok store) cs st) = snd st + word_of_nat (length cs)" for cs st
    by (induction cs arbitrary: st)
      (auto simp: scan_store_entry_def split_beta Let_def constantTimeEquals_counts algebra_simps)
  show ?thesis
    by (simp add: scanIssuedTokens_def scan_credential_def split_beta Let_def
        constantTimeEquals_counts proxy store)
qed

text \<open>
  The number of token comparisons of an authorization is one for each recorded caller,
  one for each inbound entry and one for the credential. It is the same for every non-empty
  token presented, matching or not, so it reveals neither a match nor its position.
\<close>

theorem comparison_count_depends_on_sizes_only:
  assumes "tok \<noteq> []"
  shows "snd (snd (authorize dump P store validator tok transport count)) =
    count + word_of_nat (length P + inboundCount store + 1)"
  using assms
  by (auto simp: authorize_def split_beta Let_def scan_counts inboundCount_length algebra_simps
      split: option.splits)

lemma comparison_count_depends_on_sizes_only_witness:
  "snd (snd (authorize (\<lambda>_. []) [(''a'', ''t'')] newTokenManager None ''t'' ''local'' 5)) = 7"
  using comparison_count_depends_on_sizes_only[of "''t''" "\<lambda>_. []" "[(''a'', ''t'')]" newTokenManager None "''local''" 5]
  by (simp add: inboundCount_def newTokenManager_def hash_keys_def)

end
