(* ===== verification/Module_Proxy.thy ===== *)
theory Module_Proxy
  imports Authorize Qt_Values
begin

text \<open>
  \<open>cpp/module_proxy.cpp\<close>: the authorization gate the transports publish in front of a
  provider, the handshake that records issued tokens, and the interface listing.

  The provider (\<open>LogosProviderObject\<close>) is implemented outside the repository. It is a record
  of functions over the whole proxy state, so a handler may do anything a handler can,
  including calling back into the same proxy. \<open>None\<close> is the null provider. Logging is
  left out. The slot of the calling thread and the process-wide comparison counter are
  fields of the state.
\<close>

subsection \<open>State and provider\<close>

record ('p, 'v) proxy_state =
  proxyTokens :: "(qstring, qstring) qhash"
  proxyValidator :: "token_validator option"
  store :: token_manager
  slot :: qstring
  comparisons :: u64
  queued :: "(qstring \<times> 'v qvariant list) list"
  emitted :: "(qstring \<times> 'v qvariant list) list"
  pstate :: 'p

record ('p, 'v) provider_object =
  callMethod :: "qstring \<Rightarrow> 'v qvariant list \<Rightarrow> ('p, 'v) proxy_state \<Rightarrow> 'v qvariant \<times> ('p, 'v) proxy_state"
  informProvider :: "qstring \<Rightarrow> qstring \<Rightarrow> ('p, 'v) proxy_state \<Rightarrow> bool \<times> ('p, 'v) proxy_state"
  getMethods :: "('p, 'v) proxy_state \<Rightarrow> 'v qjson list \<times> ('p, 'v) proxy_state"
  providerName :: "('p, 'v) proxy_state \<Rightarrow> qstring"
  providerVersion :: "('p, 'v) proxy_state \<Rightarrow> qstring"

subsection \<open>Events: queued to the proxy's thread, never emitted inline\<close>

definition onProviderEvent :: "qstring \<Rightarrow> 'v qvariant list \<Rightarrow> ('p, 'v) proxy_state \<Rightarrow> ('p, 'v) proxy_state" where
  "onProviderEvent eventName data s = s\<lparr>queued := queued s @ [(eventName, data)]\<rparr>"

definition eventLoopTurn :: "('p, 'v) proxy_state \<Rightarrow> ('p, 'v) proxy_state" where
  "eventLoopTurn s = (case queued s of [] \<Rightarrow> s
     | e # es \<Rightarrow> s\<lparr>queued := es, emitted := emitted s @ [e]\<rparr>)"

subsection \<open>Issued tokens\<close>

definition proxySaveToken :: "qstring \<Rightarrow> qstring \<Rightarrow> ('p, 'v) proxy_state \<Rightarrow> bool \<times> ('p, 'v) proxy_state" where
  "proxySaveToken from_module token s =
     (if from_module = [] then (False, s)
      else if token = [] then (False, s)
      else (True, s\<lparr>proxyTokens := hash_insert from_module token (proxyTokens s)\<rparr>))"

definition setTokenValidator :: "token_validator option \<Rightarrow> ('p, 'v) proxy_state \<Rightarrow> ('p, 'v) proxy_state" where
  "setTokenValidator v s = s\<lparr>proxyValidator := v\<rparr>"

definition informModuleToken ::
  "('p, 'v) provider_object option \<Rightarrow> qstring \<Rightarrow> qstring \<Rightarrow> qstring \<Rightarrow> ('p, 'v) proxy_state \<Rightarrow>
   bool \<times> ('p, 'v) proxy_state" where
  "informModuleToken provider authToken moduleName token s =
     (case provider of None \<Rightarrow> (False, s)
      | Some p \<Rightarrow>
        let cred = credential (store s);
            (callerIsTrusted, s1) =
              (if cred \<noteq> []
               then let (eq, count) = constantTimeEquals authToken cred (comparisons s)
                    in (eq, s\<lparr>comparisons := count\<rparr>)
               else (False, s))
        in if authToken = [] \<or> \<not> callerIsTrusted then (False, s1)
           else if moduleName = [] then (False, s1)
           else if token = [] then (False, s1)
           else let (accepted, s2) = informProvider p moduleName token s1
                in if \<not> accepted then (False, s2)
                   else let (_, s3) = proxySaveToken moduleName token s2 in (True, s3))"

text \<open>\<open>ModuleHandshakeProxy\<close>: the same gate behind an earlier door; \<open>None\<close> is a destroyed proxy.\<close>

definition handshakeInformModuleToken ::
  "('p, 'v) provider_object option option \<Rightarrow> qstring \<Rightarrow> qstring \<Rightarrow> qstring \<Rightarrow> ('p, 'v) proxy_state \<Rightarrow>
   bool \<times> ('p, 'v) proxy_state" where
  "handshakeInformModuleToken proxy authToken moduleName token s =
     (case proxy of None \<Rightarrow> (False, s)
      | Some provider \<Rightarrow> informModuleToken provider authToken moduleName token s)"

subsection \<open>The interface listing\<close>

definition isEventEntry :: "'v qjson \<Rightarrow> bool" where
  "isEventEntry v = (object_string (json_toObject v) ''type'' = ''event'')"

definition filterInterface :: "'v qjson list \<Rightarrow> bool \<Rightarrow> 'v qjson list" where
  "filterInterface iface keepEvents = filter (\<lambda>v. isEventEntry v = keepEvents) iface"

definition listsName :: "'v qjson list \<Rightarrow> qstring \<Rightarrow> bool" where
  "listsName iface name =
     (\<exists>v \<in> set iface. json_isObject v \<and> object_string (json_toObject v) ''name'' = name)"

definition identityEntry :: "qstring \<Rightarrow> qstring \<Rightarrow> 'v qjson" where
  "identityEntry name desc = JObject
     [(''name'', JString name), (''type'', JString ''method''), (''signature'', JString (name @ ''()'')),
      (''returnType'', JString ''QString''), (''isInvokable'', JBool True), (''description'', JString desc)]"

definition identity_table :: "(qstring \<times> qstring) list" where
  "identity_table =
     [(''name'', ''The module'' @ [CHR 0x27] @ ''s name, as declared in its metadata.''),
      (''version'', ''The module'' @ [CHR 0x27] @ ''s version, as declared in its metadata.'')]"

fun addIdentity :: "(qstring \<times> qstring) list \<Rightarrow> 'v qjson list \<Rightarrow> 'v qjson list" where
  "addIdentity [] iface = iface"
| "addIdentity ((name, desc) # ids) iface =
     addIdentity ids (if listsName iface name then iface else iface @ [identityEntry name desc])"

definition getPluginInterface ::
  "('p, 'v) provider_object option \<Rightarrow> ('p, 'v) proxy_state \<Rightarrow> 'v qjson list \<times> ('p, 'v) proxy_state" where
  "getPluginInterface provider s =
     (case provider of None \<Rightarrow> ([], s)
      | Some p \<Rightarrow> let (iface, s') = getMethods p s in (addIdentity identity_table iface, s'))"

definition getPluginMethods ::
  "('p, 'v) provider_object option \<Rightarrow> ('p, 'v) proxy_state \<Rightarrow> 'v qjson list \<times> ('p, 'v) proxy_state" where
  "getPluginMethods provider s =
     (let (iface, s') = getPluginInterface provider s in (filterInterface iface False, s'))"

definition getPluginEvents ::
  "('p, 'v) provider_object option \<Rightarrow> ('p, 'v) proxy_state \<Rightarrow> 'v qjson list \<times> ('p, 'v) proxy_state" where
  "getPluginEvents provider s =
     (let (iface, s') = getPluginInterface provider s in (filterInterface iface True, s'))"

subsection \<open>Dispatch\<close>

definition callRemoteMethod ::
  "json_dump \<Rightarrow> ('p, 'v) provider_object option \<Rightarrow> qstring \<Rightarrow> qstring \<Rightarrow> 'v qvariant list \<Rightarrow> qstring \<Rightarrow>
   ('p, 'v) proxy_state \<Rightarrow> 'v qvariant \<times> ('p, 'v) proxy_state" where
  "callRemoteMethod dump provider authToken methodName args transport s =
     (case provider of None \<Rightarrow> (QInvalid, s)
      | Some p \<Rightarrow>
        if methodName = [] then (QInvalid, s)
        else if methodName = ''getPluginMethods'' \<and> args = []
        then let (ms, s') = getPluginMethods provider s in (QJsonArray ms, s')
        else if methodName = ''getPluginEvents'' \<and> args = []
        then let (es, s') = getPluginEvents provider s in (QJsonArray es, s')
        else if methodName = ''getPluginInterface'' \<and> args = []
        then let (xs, s') = getPluginInterface provider s in (QJsonArray xs, s')
        else
          let (ok, callerJson, count) =
                authorize dump (proxyTokens s) (store s) (proxyValidator s) authToken transport (comparisons s);
              s1 = s\<lparr>comparisons := count\<rparr>
          in if \<not> ok then (makeUnauthorizedSentinel, s1)
             else
               let (previous, slot1) = openScope callerJson (slot s1);
                   (result, s2) = callMethod p methodName args (s1\<lparr>slot := slot1\<rparr>);
                   s3 = s2\<lparr>slot := closeScope previous (slot s2)\<rparr>
               in if \<not> isValid result \<and> args = [] \<and> methodName = ''name''
                  then (QString (providerName p s2), s3)
                  else if \<not> isValid result \<and> args = [] \<and> methodName = ''version''
                  then (QString (providerVersion p s2), s3)
                  else (result, s3))"

definition callRemoteMethodLocal ::
  "json_dump \<Rightarrow> ('p, 'v) provider_object option \<Rightarrow> qstring \<Rightarrow> qstring \<Rightarrow> 'v qvariant list \<Rightarrow>
   ('p, 'v) proxy_state \<Rightarrow> 'v qvariant \<times> ('p, 'v) proxy_state" where
  "callRemoteMethodLocal dump provider authToken methodName args s =
     callRemoteMethod dump provider authToken methodName args ''local'' s"

definition introspection :: "qstring \<Rightarrow> 'v qvariant list \<Rightarrow> bool" where
  "introspection methodName args =
     (args = [] \<and> methodName \<in> {''getPluginMethods'', ''getPluginEvents'', ''getPluginInterface''})"

subsection \<open>The gate\<close>

abbreviation authorized_by ::
  "json_dump \<Rightarrow> ('p, 'v) proxy_state \<Rightarrow> qstring \<Rightarrow> qstring \<Rightarrow> bool \<times> qstring \<times> u64" where
  "authorized_by dump s authToken transport \<equiv>
     authorize dump (proxyTokens s) (store s) (proxyValidator s) authToken transport (comparisons s)"

lemma callRemoteMethod_dispatch:
  assumes "methodName \<noteq> []" and "\<not> introspection methodName args"
  shows "callRemoteMethod dump (Some p) authToken methodName args transport s =
    (let (ok, callerJson, count) = authorized_by dump s authToken transport;
         s1 = s\<lparr>comparisons := count\<rparr>
     in if \<not> ok then (makeUnauthorizedSentinel, s1)
        else let (result, s2) = callMethod p methodName args (s1\<lparr>slot := callerJson\<rparr>);
                 s3 = s2\<lparr>slot := slot s\<rparr>
             in if \<not> isValid result \<and> args = [] \<and> methodName = ''name''
                then (QString (providerName p s2), s3)
                else if \<not> isValid result \<and> args = [] \<and> methodName = ''version''
                then (QString (providerVersion p s2), s3)
                else (result, s3))"
proof -
  have n: "\<not> (methodName = ''getPluginMethods'' \<and> args = [])"
    "\<not> (methodName = ''getPluginEvents'' \<and> args = [])"
    "\<not> (methodName = ''getPluginInterface'' \<and> args = [])"
    using assms(2) by (auto simp: introspection_def)
  show ?thesis
    unfolding callRemoteMethod_def option.case if_not_P[OF assms(1)] n[THEN if_not_P]
    by (simp add: openScope_def closeScope_def Let_def split_beta split del: if_split
        cong del: if_weak_cong)
qed

text \<open>
  C2: A call that is not authorized never reaches the provider. For every method other than
  the three introspection calls the answer is the rejection sentinel, which a consumer
  recognises, and nothing of the proxy, its stores, its provider or the calling thread's
  caller slot has changed; only the comparison counter has moved.
\<close>

theorem unauthorized_call_is_stopped:
  assumes "methodName \<noteq> []" and "\<not> introspection methodName args"
    and "\<not> fst (authorized_by dump s authToken transport)"
  shows "callRemoteMethod dump (Some p) authToken methodName args transport s =
      (makeUnauthorizedSentinel, s\<lparr>comparisons := snd (snd (authorized_by dump s authToken transport))\<rparr>) \<and>
    isUnauthorizedSentinel conv (fst (callRemoteMethod dump (Some p) authToken methodName args transport s))"
  using assms by (simp add: callRemoteMethod_dispatch split_beta Let_def)

definition silent_provider :: "(nat, nat) provider_object" where
  "silent_provider =
     \<lparr>callMethod = (\<lambda>m as s. (QString (slot s), s\<lparr>pstate := Suc (pstate s), slot := ''junk''\<rparr>)),
      informProvider = (\<lambda>m t s. (True, s)), getMethods = (\<lambda>s. ([], s)),
      providerName = (\<lambda>s. ''chat''), providerVersion = (\<lambda>s. ''1.0'')\<rparr>"

definition init_proxy :: "(nat, nat) proxy_state" where
  "init_proxy = \<lparr>proxyTokens = [], proxyValidator = None, store = newTokenManager, slot = [],
     comparisons = 0, queued = [], emitted = [], pstate = 0\<rparr>"

lemma unauthorized_call_is_stopped_witness:
  "fst (callRemoteMethod (\<lambda>_. []) (Some silent_provider) [] ''send'' [] ''tcp'' init_proxy) =
     makeUnauthorizedSentinel"
  using unauthorized_call_is_stopped[of "''send''" "[]" "\<lambda>_. []" init_proxy "[]" "''tcp''" silent_provider "\<lambda>_. []"]
  by (simp add: introspection_def authorize_def)

text \<open>
  An authorized call runs the provider with the slot naming the caller that
  \<open>authorize\<close> identified, whatever was in the slot before and whatever the handler leaves
  there; afterwards the slot is restored. The provider's valid answer is returned as it is,
  and an unknown \<open>name\<close> or \<open>version\<close> is answered from the provider's own identity.
\<close>

theorem authorized_call_sees_its_caller:
  assumes "methodName \<noteq> []" and "\<not> introspection methodName args"
    and "authorized_by dump s authToken transport = (True, doc, count)"
    and "callMethod p methodName args (s\<lparr>comparisons := count, slot := doc\<rparr>) = (result, s2)"
  shows "snd (callRemoteMethod dump (Some p) authToken methodName args transport s) = s2\<lparr>slot := slot s\<rparr> \<and>
    fst (callRemoteMethod dump (Some p) authToken methodName args transport s) =
      (if isValid result then result
       else if args = [] \<and> methodName = ''name'' then QString (providerName p s2)
       else if args = [] \<and> methodName = ''version'' then QString (providerVersion p s2)
       else result)"
proof -
  have comm: "s\<lparr>comparisons := count\<rparr>\<lparr>slot := doc\<rparr> = s\<lparr>comparisons := count, slot := doc\<rparr>" by simp
  show ?thesis using assms by (auto simp: callRemoteMethod_dispatch Let_def)
qed

lemma authorized_call_sees_its_caller_witness:
  "callRemoteMethod (\<lambda>_. []) (Some silent_provider) ''op'' ''send'' [] ''tcp''
     (init_proxy\<lparr>proxyValidator := Some (\<lambda>t p. p = ''tcp''), slot := ''outer''\<rparr>) =
   (QString callerUnknownJson,
    init_proxy\<lparr>proxyValidator := Some (\<lambda>t p. p = ''tcp''), slot := ''outer'', comparisons := 1, pstate := 1\<rparr>)"
proof -
  let ?s = "init_proxy\<lparr>proxyValidator := Some (\<lambda>t p. p = ''tcp''), slot := ''outer''\<rparr>"
  have sized: "scan_sized [] newTokenManager ''op''"
    by (simp add: scan_sized_def int_sized_def)
  have scan: "scanIssuedTokens ''op'' [] newTokenManager [] 0 =
      (\<lparr>authorized = False, moduleHits = 0, anchorHits = 0, scanFold = emptyFold\<rparr>, 1)"
    using scanIssuedTokens_eq[OF sized, of 0] by simp
  have auth: "authorized_by (\<lambda>_. []) ?s ''op'' ''tcp'' = (True, callerUnknownJson, 1)"
    by (simp add: init_proxy_def authorize_def scan)
  from authorized_call_sees_its_caller[OF _ _ auth, of "''send''" "[]" silent_provider]
  show ?thesis
    by (simp add: introspection_def silent_provider_def prod_eq_iff init_proxy_def)
qed

subsection \<open>The handshake\<close>

lemma informModuleToken_eq:
  assumes "int_sized authToken" and "int_sized (credential (store s))"
  shows "informModuleToken (Some p) authToken m t s =
    (let s1 = (if credential (store s) \<noteq> [] then s\<lparr>comparisons := comparisons s + 1\<rparr> else s)
     in if credential (store s) \<noteq> [] \<and> authToken = credential (store s) \<and> m \<noteq> [] \<and> t \<noteq> []
        then let (accepted, s2) = informProvider p m t s1
             in if accepted then (True, s2\<lparr>proxyTokens := hash_insert m t (proxyTokens s2)\<rparr>)
                else (False, s2)
        else (False, s1))"
  by (cases "credential (store s) = []"; cases "m = []"; cases "t = []")
    (simp_all add: informModuleToken_def constantTimeEquals_correct[OF assms]
      constantTimeEquals_correct[OF assms(2) assms(2)] proxySaveToken_def split_beta Let_def prod_eq_iff)



subsection \<open>The listing\<close>

lemma listsName_append: "listsName (xs @ ys) n \<longleftrightarrow> listsName xs n \<or> listsName ys n"
  by (auto simp: listsName_def)

lemma listsName_identityEntry [simp]: "listsName [identityEntry n d] m \<longleftrightarrow> m = n"
  by (auto simp: listsName_def identityEntry_def object_string_def)

lemma isEventEntry_identityEntry [simp]: "\<not> isEventEntry (identityEntry n d)"
  by (simp add: isEventEntry_def identityEntry_def object_string_def)

lemma filterInterface_partition:
  "set (filterInterface iface False) \<union> set (filterInterface iface True) = set iface"
  "set (filterInterface iface False) \<inter> set (filterInterface iface True) = {}"
  "length (filterInterface iface False) + length (filterInterface iface True) = length iface"
  by (auto simp: filterInterface_def sum_length_filter_compl[of isEventEntry iface] add.commute)

text \<open>
  The published interface begins with the provider's own entries unchanged, lists both
  \<open>name\<close> and \<open>version\<close>, and adds an entry for one only when the provider lists none. The
  method listing and the event listing split it exactly, and everything added is a method.
\<close>

theorem interface_lists_identity:
  fixes p :: "('p, 'v) provider_object"
  assumes "getMethods p s = (iface, s')"
  shows "\<exists>extra. getPluginInterface (Some p) s = (iface @ extra, s') \<and>
      listsName (iface @ extra) ''name'' \<and> listsName (iface @ extra) ''version'' \<and>
      (listsName iface ''name'' \<and> listsName iface ''version'' \<longrightarrow> extra = []) \<and>
      fst (getPluginEvents (Some p) s) = filterInterface iface True \<and>
      fst (getPluginMethods (Some p) s) = filterInterface iface False @ extra"
proof -
  define e1 where "e1 = (if listsName iface ''name'' then []
    else [identityEntry (fst (identity_table ! 0)) (snd (identity_table ! 0)) :: 'v qjson])"
  define e2 where "e2 = (if listsName (iface @ e1) ''version'' then []
    else [identityEntry (fst (identity_table ! 1)) (snd (identity_table ! 1)) :: 'v qjson])"
  have add: "addIdentity identity_table iface = iface @ e1 @ e2"
    by (simp add: identity_table_def e1_def e2_def)
  have e12: "listsName (iface @ e1 @ e2) ''name''" "listsName (iface @ e1 @ e2) ''version''"
    by (simp_all add: e1_def e2_def listsName_append identity_table_def)
  have nonevents: "filterInterface (iface @ e1 @ e2) True = filterInterface iface True"
    "filterInterface (iface @ e1 @ e2) False = filterInterface iface False @ e1 @ e2"
    by (simp_all add: filterInterface_def e1_def e2_def)
  have none: "listsName iface ''name'' \<and> listsName iface ''version'' \<longrightarrow> e1 @ e2 = []"
    by (simp add: e1_def e2_def)
  have "getPluginInterface (Some p) s = (iface @ e1 @ e2, s')"
    by (simp add: getPluginInterface_def assms add)
  with e12 nonevents none show ?thesis
    by (intro exI[of _ "e1 @ e2"]) (simp add: getPluginEvents_def getPluginMethods_def)
qed

lemma interface_lists_identity_witness:
  "listsName (fst (getPluginInterface (Some silent_provider) init_proxy)) ''version''"
  using interface_lists_identity[of silent_provider init_proxy "[]" init_proxy]
  by (auto simp: silent_provider_def)

end
