(* ===== verification/Base64.thy ===== *)
theory Base64
  imports Prelude "HOL-Library.Char_ord"
begin

unbundle bit_operations_syntax

text \<open>
  The unpadded base64url text form of byte strings, \<open>cpp/logos_codec.h\<close>: the encoder, the
  tolerant decoder of the consumers and the checked decoder of the wire. The decoders'
  32-bit buffer and bit count are kept as the code has them; bits shifted out on the left
  are lost there as in the code.
\<close>

subsection \<open>The alphabet\<close>

definition alpha :: qstring where
  "alpha = ''ABCDEFGHIJKLMNOPQRSTUVWXYZabcdefghijklmnopqrstuvwxyz0123456789-_''"

definition b64_idx :: "char \<Rightarrow> int" where
  "b64_idx ch =
     (if CHR ''A'' \<le> ch \<and> ch \<le> CHR ''Z'' then of_char ch - of_char CHR ''A''
      else if CHR ''a'' \<le> ch \<and> ch \<le> CHR ''z'' then of_char ch - of_char CHR ''a'' + 26
      else if CHR ''0'' \<le> ch \<and> ch \<le> CHR ''9'' then of_char ch - of_char CHR ''0'' + 52
      else if ch = CHR ''-'' then 62
      else if ch = CHR ''_'' then 63
      else -1)"

definition b64_digit :: "u32 \<Rightarrow> nat \<Rightarrow> char" where
  "b64_digit n k = alpha ! unat (drop_bit k n AND 0x3f)"

subsection \<open>Encoding and decoding\<close>

fun b64UrlEncode :: "bytes \<Rightarrow> qstring" where
  "b64UrlEncode (a # b # c # rest) =
     (let n = push_bit 16 (ucast a) OR push_bit 8 (ucast b) OR ucast c :: u32
      in b64_digit n 18 # b64_digit n 12 # b64_digit n 6 # b64_digit n 0 # b64UrlEncode rest)"
| "b64UrlEncode [a, b] =
     (let n = push_bit 16 (ucast a) OR push_bit 8 (ucast b) :: u32
      in [b64_digit n 18, b64_digit n 12, b64_digit n 6])"
| "b64UrlEncode [a] =
     (let n = push_bit 16 (ucast a) :: u32
      in [b64_digit n 18, b64_digit n 12])"
| "b64UrlEncode [] = []"

type_synonym b64_state = "bytes \<times> u32 \<times> nat"

definition b64_push :: "int \<Rightarrow> b64_state \<Rightarrow> b64_state" where
  "b64_push v st = (case st of (out, buf, bits) \<Rightarrow>
     let buf = push_bit 6 buf OR word_of_int v; bits = bits + 6
     in if 8 \<le> bits then let bits = bits - 8 in (out @ [ucast (drop_bit bits buf AND 0xff)], buf, bits)
        else (out, buf, bits))"

definition b64_step :: "char \<Rightarrow> b64_state \<Rightarrow> b64_state" where
  "b64_step ch st = (let v = b64_idx ch in if v < 0 then st else b64_push v st)"

definition b64UrlDecode :: "qstring \<Rightarrow> bytes" where
  "b64UrlDecode s = fst (fold b64_step s ([], 0, 0))"

fun strip_padding :: "qstring \<Rightarrow> qstring" where
  "strip_padding s = (if s \<noteq> [] \<and> last s = CHR ''='' then strip_padding (butlast s) else s)"

declare strip_padding.simps [simp del]

fun b64_checked :: "qstring \<Rightarrow> b64_state \<Rightarrow> b64_state option" where
  "b64_checked [] st = Some st"
| "b64_checked (ch # s) st =
     (let v = b64_idx ch in if v < 0 then None else b64_checked s (b64_push v st))"

definition b64UrlDecodeChecked :: "qstring \<Rightarrow> bytes option" where
  "b64UrlDecodeChecked s =
     (let body = strip_padding s
      in if length body mod 4 = 1 then None else map_option fst (b64_checked body ([], 0, 0)))"

subsection \<open>Digits\<close>

lemma b64_idx_alpha_all: "map b64_idx alpha = [0..63]"
  by code_simp

lemma b64_idx_alpha: "k < 64 \<Longrightarrow> b64_idx (alpha ! k) = int k"
proof -
  assume "k < 64"
  moreover have "length alpha = 64" by (simp add: alpha_def)
  ultimately have "b64_idx (alpha ! k) = map b64_idx alpha ! k" by simp
  with \<open>k < 64\<close> show ?thesis by (simp add: b64_idx_alpha_all)
qed

lemma and_3f: "x AND (0x3f :: u32) = take_bit 6 x"
  by (simp add: take_bit_eq_mask mask_eq_exp_minus_1)

lemma and_3f_less: "unat (x AND (0x3f :: u32)) < 64"
  using take_bit_nat_less_exp[of 6 "unat x"] by (simp add: and_3f unsigned_take_bit_eq)

lemma b64_idx_digit: "b64_idx (b64_digit n k) = uint (drop_bit k n AND 0x3f)"
  by (simp add: b64_digit_def b64_idx_alpha and_3f_less)

lemma b64_step_digit: "b64_step (b64_digit n k) st = b64_push (uint (drop_bit k n AND 0x3f)) st"
  by (simp add: b64_step_def b64_idx_digit Let_def)

lemma b64_checked_digit:
  "b64_checked (b64_digit n k # s) st = b64_checked s (b64_push (uint (drop_bit k n AND 0x3f)) st)"
  by (simp add: b64_idx_digit Let_def)

text \<open>What two, three and four digits push, whatever was left in the buffer.\<close>

lemma b64_byte1:
  "ucast (drop_bit 4 (push_bit 6 (push_bit 6 buf OR (drop_bit 18 n AND 0x3f)) OR (drop_bit 12 n AND 0x3f)) AND 0xff :: u32)
     = (ucast (drop_bit 16 n) :: u8)"
  by (rule bit_word_eqI) (auto simp: and_3f and_ff bit_simps add.commute)

lemma b64_byte2:
  "ucast (drop_bit 2 (push_bit 6 (push_bit 6 buf OR (drop_bit 12 n AND 0x3f)) OR (drop_bit 6 n AND 0x3f)) AND 0xff :: u32)
     = (ucast (drop_bit 8 n) :: u8)"
  by (rule bit_word_eqI) (auto simp: and_3f and_ff bit_simps add.commute)

lemma b64_byte3:
  "ucast ((push_bit 6 (push_bit 6 buf OR (drop_bit 6 n AND 0x3f)) OR (n AND 0x3f)) AND 0xff :: u32)
     = (ucast n :: u8)"
  by (rule bit_word_eqI) (auto simp: and_3f and_ff bit_simps add.commute)

lemma ucast_byte_of_word:
  "ucast (drop_bit 16 (push_bit 16 (ucast (a :: u8)) OR push_bit 8 (ucast (b :: u8)) OR ucast (c :: u8) :: u32)) = a"
  "ucast (drop_bit 8 (push_bit 16 (ucast (a :: u8)) OR push_bit 8 (ucast (b :: u8)) OR ucast (c :: u8) :: u32)) = b"
  "ucast (push_bit 16 (ucast (a :: u8)) OR push_bit 8 (ucast (b :: u8)) OR ucast (c :: u8) :: u32) = c"
  by (rule bit_word_eqI; auto simp: bit_simps dest: bit_imp_le_length)+

lemma ucast_byte_of_word2:
  "ucast (drop_bit 16 (push_bit 16 (ucast (a :: u8)) OR push_bit 8 (ucast (b :: u8)) :: u32)) = a"
  "ucast (drop_bit 8 (push_bit 16 (ucast (a :: u8)) OR push_bit 8 (ucast (b :: u8)) :: u32)) = b"
  by (rule bit_word_eqI; auto simp: bit_simps dest: bit_imp_le_length)+

lemma ucast_byte_of_word1: "ucast (drop_bit 16 (push_bit 16 (ucast (a :: u8)) :: u32)) = a"
  by (rule bit_word_eqI) (auto simp: bit_simps)

lemma b64_push_uint:
  "b64_push (uint x) (out, buf, bits) =
     (let buf = push_bit 6 buf OR x
      in if bits < 2 then (out, buf, bits + 6)
         else (out @ [ucast (drop_bit (bits - 2) buf AND 0xff)], buf, bits - 2))"
  by (simp add: b64_push_def Let_def)

lemma b64_push4:
  fixes n :: u32
  shows
  "\<exists>buf'. b64_push (uint (n AND 0x3f)) (b64_push (uint (drop_bit 6 n AND 0x3f))
      (b64_push (uint (drop_bit 12 n AND 0x3f)) (b64_push (uint (drop_bit 18 n AND 0x3f)) (out, buf, 0)))) =
     (out @ [ucast (drop_bit 16 n), ucast (drop_bit 8 n), ucast n], buf', 0)"
  by (simp add: b64_push_uint Let_def b64_byte1 b64_byte2 b64_byte3 del: push_bit_or drop_bit_or)

lemma b64_push3:
  fixes n :: u32
  shows
  "\<exists>buf'. b64_push (uint (drop_bit 6 n AND 0x3f))
      (b64_push (uint (drop_bit 12 n AND 0x3f)) (b64_push (uint (drop_bit 18 n AND 0x3f)) (out, buf, 0))) =
     (out @ [ucast (drop_bit 16 n), ucast (drop_bit 8 n)], buf', 2)"
  by (simp add: b64_push_uint Let_def b64_byte1 b64_byte2 del: push_bit_or drop_bit_or)

lemma b64_push2:
  fixes n :: u32
  shows
  "\<exists>buf'. b64_push (uint (drop_bit 12 n AND 0x3f)) (b64_push (uint (drop_bit 18 n AND 0x3f)) (out, buf, 0)) =
     (out @ [ucast (drop_bit 16 n)], buf', 4)"
  by (simp add: b64_push_uint Let_def b64_byte1 del: push_bit_or drop_bit_or)

lemma b64_checked_encode:
  "\<exists>st. b64_checked (b64UrlEncode bs) (out, buf, 0) = Some st \<and> fst st = out @ bs"
proof (induction bs arbitrary: out buf rule: b64UrlEncode.induct)
  case (1 a b c rest)
  let ?n = "push_bit 16 (ucast a) OR push_bit 8 (ucast b) OR ucast c :: u32"
  obtain buf' where "b64_push (uint (?n AND 0x3f)) (b64_push (uint (drop_bit 6 ?n AND 0x3f))
      (b64_push (uint (drop_bit 12 ?n AND 0x3f)) (b64_push (uint (drop_bit 18 ?n AND 0x3f)) (out, buf, 0)))) =
     (out @ [a, b, c], buf', 0)"
    using b64_push4[of ?n out buf] by (auto simp: ucast_byte_of_word simp del: push_bit_or drop_bit_or)
  then show ?case
    using "1.IH"[OF refl, of "out @ [a, b, c]" buf']
    by (simp add: Let_def b64_checked_digit del: b64_checked.simps(2) push_bit_or drop_bit_or)
next
  case (2 a b)
  let ?n = "push_bit 16 (ucast a) OR push_bit 8 (ucast b) :: u32"
  show ?case
    using b64_push3[of ?n out buf]
    by (auto simp: Let_def b64_checked_digit ucast_byte_of_word2 simp del: b64_checked.simps(2) push_bit_or drop_bit_or)
next
  case (3 a)
  show ?case
    using b64_push2[of "push_bit 16 (ucast a)" out buf]
    by (auto simp: Let_def b64_checked_digit ucast_byte_of_word1 simp del: b64_checked.simps(2) push_bit_or drop_bit_or)
qed simp

subsection \<open>The two decoders agree\<close>

definition b64_text :: "qstring \<Rightarrow> bool" where
  "b64_text s = (\<forall>ch \<in> set s. 0 \<le> b64_idx ch)"

lemma b64_checked_eq:
  "b64_checked s st = (if b64_text s then Some (fold b64_step s st) else None)"
  by (induction s arbitrary: st) (auto simp: b64_text_def b64_step_def Let_def)

lemma b64_idx_pad [simp]: "b64_idx (CHR ''='') = -1"
  by (simp add: b64_idx_def less_eq_char_def)

lemma fold_b64_filter: "fold b64_step s st = fold b64_step (filter (\<lambda>ch. 0 \<le> b64_idx ch) s) st"
  by (induction s arbitrary: st) (auto simp: b64_step_def Let_def)

lemma fold_b64_strip: "fold b64_step (strip_padding s) st = fold b64_step s st"
proof (induction s arbitrary: st rule: strip_padding.induct)
  case (1 s)
  show ?case
  proof (cases "s \<noteq> [] \<and> last s = CHR ''=''")
    case True
    then have s: "s = butlast s @ [CHR ''='']" by (metis append_butlast_last_id)
    have "fold b64_step s st = fold b64_step (butlast s) st"
      by (subst s) (simp add: b64_step_def)
    with True 1 show ?thesis by (simp add: strip_padding.simps[of s])
  next
    case False
    then show ?thesis by (subst strip_padding.simps) auto
  qed
qed

lemma b64_text_encode: "b64_text (b64UrlEncode bs)"
  by (induction bs rule: b64UrlEncode.induct) (auto simp: b64_text_def Let_def b64_idx_digit)

lemma strip_padding_text: "b64_text s \<Longrightarrow> strip_padding s = s"
  by (subst strip_padding.simps) (auto simp: b64_text_def dest!: last_in_set)

lemma length_b64UrlEncode:
  "length (b64UrlEncode bs) = 4 * (length bs div 3) + (if length bs mod 3 = 0 then 0 else length bs mod 3 + 1)"
proof (induction bs rule: b64UrlEncode.induct)
  case (1 a b c rest)
  have "Suc (Suc (Suc n)) div 3 = Suc (n div 3)" "Suc (Suc (Suc n)) mod 3 = n mod 3" for n :: nat
    by presburger+
  with 1 show ?case by (simp add: Let_def del: push_bit_or drop_bit_or)
qed (simp_all add: Let_def del: push_bit_or drop_bit_or)

lemma length_b64UrlEncode_mod: "length (b64UrlEncode bs) mod 4 \<noteq> 1"
proof -
  consider "length bs mod 3 = 0" | "length bs mod 3 = 1" | "length bs mod 3 = 2" by linarith
  then show ?thesis by cases (simp_all add: length_b64UrlEncode, presburger)
qed

lemma b64_roundtrip: "b64UrlDecode (b64UrlEncode bs) = bs"
  using b64_checked_encode[of bs "[]" 0] by (auto simp: b64_checked_eq b64_text_encode b64UrlDecode_def)

text \<open>
  Every byte string survives the base64url text: both decoders answer it from its own
  encoding. The encoding uses the 64-letter alphabet only, carries no padding and has the
  length of the unpadded form.
\<close>

theorem base64_round_trip:
  "b64UrlDecodeChecked (b64UrlEncode bs) = Some bs \<and> b64UrlDecode (b64UrlEncode bs) = bs \<and>
   b64_text (b64UrlEncode bs) \<and>
   length (b64UrlEncode bs) = 4 * (length bs div 3) + (if length bs mod 3 = 0 then 0 else length bs mod 3 + 1)"
proof -
  have "b64UrlDecodeChecked (b64UrlEncode bs) = Some (b64UrlDecode (b64UrlEncode bs))"
    unfolding b64UrlDecodeChecked_def Let_def strip_padding_text[OF b64_text_encode]
    by (simp only: length_b64UrlEncode_mod if_False b64_checked_eq b64_text_encode if_True
        option.map b64UrlDecode_def)
  then show ?thesis by (simp only: b64_roundtrip b64_text_encode length_b64UrlEncode simp_thms)
qed

text \<open>
  The checked decoder rejects exactly the texts that, once trailing padding is removed,
  contain a character outside the alphabet or have an impossible length; what it accepts it
  decodes as the tolerant decoder does. The tolerant decoder is total and only ever looks at
  the characters of the alphabet.
\<close>

theorem base64_decoders_agree:
  "b64UrlDecodeChecked s =
     (if b64_text (strip_padding s) \<and> length (strip_padding s) mod 4 \<noteq> 1 then Some (b64UrlDecode s) else None) \<and>
   b64UrlDecode s = b64UrlDecode (filter (\<lambda>ch. 0 \<le> b64_idx ch) s)"
  using fold_b64_filter[of s "([], 0, 0)"]
  by (simp add: b64UrlDecodeChecked_def b64UrlDecode_def Let_def b64_checked_eq fold_b64_strip)

end
