(* ===== verification/Framing.thy ===== *)
theory Framing
  imports Prelude
begin

unbundle bit_operations_syntax

text \<open>
  \<open>cpp/implementations/plain/rpc_framing.{h,cpp}\<close>: the length-prefixed frames of the socket
  transport, and the incremental reader that cuts a byte stream back into frames.

  The tag is the raw byte of the wire; the cast to \<open>MessageType\<close> in the code does not check
  it. The contract a connection needs of a reader is the locale \<open>stream_reader\<close>; what
  follows from it (the frames a connection sees do not depend on how the stream was cut
  into reads) is proved there once and interpreted on the frame reader.
\<close>

subsection \<open>Frames\<close>

type_synonym frame = "u8 \<times> bytes"

datatype framing_error = FrameTooLarge | ZeroLengthFrame | FrameExceedsCap

definition kMaxFrameLength :: u32 where
  "kMaxFrameLength = 16 * 1024 * 1024"

definition writeBe32 :: "u32 \<Rightarrow> bytes" where
  "writeBe32 n = [ucast (drop_bit 24 n AND 0xff), ucast (drop_bit 16 n AND 0xff),
                  ucast (drop_bit 8 n AND 0xff), ucast (n AND 0xff)]"

definition readBe32 :: "bytes \<Rightarrow> u32" where
  "readBe32 p = push_bit 24 (ucast (p ! 0)) OR push_bit 16 (ucast (p ! 1)) OR
                push_bit 8 (ucast (p ! 2)) OR ucast (p ! 3)"

definition encodeFrame :: "u8 \<Rightarrow> bytes \<Rightarrow> framing_error + bytes" where
  "encodeFrame tag payload =
     (let bodyLen = 1 + length payload
      in if unat kMaxFrameLength < bodyLen then Inl FrameTooLarge
         else Inr (writeBe32 (word_of_nat bodyLen) @ [tag] @ payload))"

subsection \<open>The reader\<close>

definition appendBytes :: "bytes \<Rightarrow> bytes \<Rightarrow> bytes" where
  "appendBytes data buf = buf @ data"

definition nextFrame :: "bytes \<Rightarrow> framing_error + (frame \<times> bytes) option" where
  "nextFrame buf =
     (if length buf < 4 then Inr None
      else let bodyLen = readBe32 buf
           in if bodyLen = 0 then Inl ZeroLengthFrame
              else if kMaxFrameLength < bodyLen then Inl FrameExceedsCap
              else let total = unat (4 + bodyLen)
                   in if length buf < total then Inr None
                      else Inr (Some ((buf ! 4, take (total - 5) (drop 5 buf)), drop total buf)))"

lemma total_length:
  assumes "n \<noteq> 0" and "\<not> kMaxFrameLength < n"
  shows "unat (4 + n) = 4 + unat n" and "5 \<le> unat (4 + n)"
proof -
  have "unat n \<le> 16 * 1024 * 1024"
    using assms(2) by (simp add: kMaxFrameLength_def word_le_nat_alt not_less)
  then show t: "unat (4 + n) = 4 + unat n"
    by (subst unat_add_lem[THEN iffD1]) simp_all
  have "0 < unat n" using assms(1) by (simp add: unat_gt_0)
  with t show "5 \<le> unat (4 + n)" by simp
qed

lemma nextFrame_shrinks: "nextFrame buf = Inr (Some (f, rest)) \<Longrightarrow> length rest < length buf"
  using total_length[of "readBe32 buf"]
  by (auto simp: nextFrame_def Let_def split: if_splits)

text \<open>
  The loop of a read: take frames until the buffer holds no complete one, or until a frame
  is corrupt. The result is the frames and what is left: the reader's buffer, or the error.
\<close>

function drainFrames :: "bytes \<Rightarrow> frame list \<times> (framing_error + bytes)" where
  "drainFrames buf =
     (case nextFrame buf of
        Inl e \<Rightarrow> ([], Inl e)
      | Inr None \<Rightarrow> ([], Inr buf)
      | Inr (Some (f, rest)) \<Rightarrow> let (fs, r) = drainFrames rest in (f # fs, r))"
  by pat_completeness auto
termination
  by (relation "measure length") (auto simp: nextFrame_shrinks)

declare drainFrames.simps [simp del]

definition readChunk ::
  "frame list \<times> (framing_error + bytes) \<Rightarrow> bytes \<Rightarrow> frame list \<times> (framing_error + bytes)" where
  "readChunk st data =
     (case st of (fs, Inl e) \<Rightarrow> (fs, Inl e)
      | (fs, Inr buf) \<Rightarrow> let (fs', r) = drainFrames (appendBytes data buf) in (fs @ fs', r))"

subsection \<open>The contract of a stream reader\<close>

locale stream_reader =
  fixes nxt :: "'b list \<Rightarrow> 'e + ('m \<times> 'b list) option"
    and drain :: "'b list \<Rightarrow> 'm list \<times> ('e + 'b list)"
    and step :: "'m list \<times> ('e + 'b list) \<Rightarrow> 'b list \<Rightarrow> 'm list \<times> ('e + 'b list)"
    and enc :: "'m \<Rightarrow> 'b list \<Rightarrow> bool"
  assumes drain_unfold: "drain b = (case nxt b of
        Inl e \<Rightarrow> ([], Inl e)
      | Inr None \<Rightarrow> ([], Inr b)
      | Inr (Some (m, rest)) \<Rightarrow> (m # fst (drain rest), snd (drain rest)))"
    and step_def: "step st data = (case st of (ms, Inl e) \<Rightarrow> (ms, Inl e)
      | (ms, Inr b) \<Rightarrow> (ms @ fst (drain (b @ data)), snd (drain (b @ data))))"
    and shrinks: "nxt b = Inr (Some (m, rest)) \<Longrightarrow> length rest < length b"
    and stable: "nxt b = Inr (Some (m, rest)) \<Longrightarrow> nxt (b @ x) = Inr (Some (m, rest @ x))"
    and corrupt: "nxt b = Inl e \<Longrightarrow> nxt (b @ x) = Inl e"
    and decodes: "enc m w \<Longrightarrow> nxt (w @ x) = Inr (Some (m, x))"
    and empty: "nxt [] = Inr None"
begin

lemma drain_append:
  "drain (b @ x) = (case drain b of (ms, Inl e) \<Rightarrow> (ms, Inl e)
      | (ms, Inr rest) \<Rightarrow> (ms @ fst (drain (rest @ x)), snd (drain (rest @ x))))"
proof (induction b rule: length_induct)
  case (1 b)
  consider e where "nxt b = Inl e" | "nxt b = Inr None" | m rest where "nxt b = Inr (Some (m, rest))"
    by (metis option.exhaust sum.exhaust surj_pair)
  then show ?case
  proof cases
    case 1
    then show ?thesis using corrupt[OF 1] by (simp add: drain_unfold)
  next
    case 2
    then show ?thesis by (simp add: drain_unfold[of b])
  next
    case 3
    from 1 shrinks[OF 3] have "drain (rest @ x) = (case drain rest of (ms, Inl e) \<Rightarrow> (ms, Inl e)
      | (ms, Inr rest) \<Rightarrow> (ms @ fst (drain (rest @ x)), snd (drain (rest @ x))))" by blast
    with 3 stable[OF 3, of x] show ?thesis
      by (simp add: drain_unfold[of b] drain_unfold[of "b @ x"] split: prod.splits sum.splits)
  qed
qed

lemma step_append: "step (step st x) y = step st (x @ y)"
proof (cases st)
  case (Pair ms r)
  show ?thesis
  proof (cases r)
    case (Inr b)
    have "drain (b @ x @ y) = (case drain (b @ x) of (ms, Inl e) \<Rightarrow> (ms, Inl e)
      | (ms, Inr rest) \<Rightarrow> (ms @ fst (drain (rest @ y)), snd (drain (rest @ y))))"
      using drain_append[of "b @ x" y] by simp
    with Pair Inr show ?thesis
      by (simp add: step_def split: prod.splits sum.splits)
  qed (simp add: Pair step_def)
qed

lemma chunking_irrelevant:
  "chunks \<noteq> [] \<Longrightarrow> foldl step st chunks = step st (concat chunks)"
proof (induction chunks arbitrary: st)
  case (Cons c cs)
  show ?case
  proof (cases "cs = []")
    case False
    with Cons.IH[of "step st c"] show ?thesis by (simp add: step_append)
  qed simp
qed simp

lemma drain_encoded:
  assumes "list_all2 enc ms ws"
  shows "drain (concat ws) = (ms, Inr [])"
  using assms
proof (induction ms ws rule: list_all2_induct)
  case Nil
  then show ?case by (simp add: drain_unfold[of "[]"] empty)
next
  case (Cons m ms w ws)
  then show ?case using decodes[of m w "concat ws"] by (simp add: drain_unfold[of "w @ concat ws"])
qed

lemma stream_decoded:
  assumes "list_all2 enc ms ws" and "concat chunks = concat ws" and "chunks \<noteq> []"
  shows "foldl step ([], Inr []) chunks = (ms, Inr [])"
  using chunking_irrelevant[OF assms(3), of "([], Inr [])"] drain_encoded[OF assms(1)] assms(2)
  by (simp add: step_def)

end

subsection \<open>The frame reader keeps the contract\<close>

lemma length_writeBe32 [simp]: "length (writeBe32 n) = 4"
  by (simp add: writeBe32_def)

lemma read_writeBe32: "readBe32 (writeBe32 n @ xs) = n"
proof (rule bit_word_eqI)
  fix k assume "k < LENGTH(32)"
  then consider "k < 8" | "8 \<le> k" "k < 16" | "16 \<le> k" "k < 24" | "24 \<le> k" "k < 32"
    by fastforce
  then show "bit (readBe32 (writeBe32 n @ xs)) k = bit n k"
    by cases (auto simp: readBe32_def writeBe32_def bit_simps and_ff)
qed

lemma readBe32_append: "4 \<le> length b \<Longrightarrow> readBe32 (b @ x) = readBe32 b"
  by (auto simp: readBe32_def nth_append)

lemma nextFrame_append:
  "nextFrame b = Inr (Some (f, rest)) \<Longrightarrow> nextFrame (b @ x) = Inr (Some (f, rest @ x))"
  using total_length[of "readBe32 b"]
  by (auto simp: nextFrame_def Let_def readBe32_append nth_append split: if_splits)

lemma nextFrame_append_error: "nextFrame b = Inl e \<Longrightarrow> nextFrame (b @ x) = Inl e"
  by (auto simp: nextFrame_def Let_def readBe32_append split: if_splits)

lemma nextFrame_encodeFrame:
  assumes "encodeFrame tag payload = Inr w"
  shows "nextFrame (w @ x) = Inr (Some ((tag, payload), x))"
proof -
  let ?n = "word_of_nat (1 + length payload) :: u32"
  have w: "w = writeBe32 ?n @ [tag] @ payload" and cap: "1 + length payload \<le> 16 * 1024 * 1024"
    using assms by (auto simp: encodeFrame_def Let_def kMaxFrameLength_def split: if_splits)
  have n: "unat ?n = 1 + length payload"
    by (rule unat_word_of_nat) (use cap in simp)
  then have "?n \<noteq> 0" "\<not> kMaxFrameLength < ?n"
    using cap by (auto simp: kMaxFrameLength_def word_less_nat_alt simp flip: unat_eq_zero)
  with n total_length[of ?n] show ?thesis
    by (simp add: nextFrame_def w read_writeBe32 nth_append Let_def)
qed

interpretation frames: stream_reader nextFrame drainFrames readChunk
  "\<lambda>f w. encodeFrame (fst f) (snd f) = Inr w"
proof unfold_locales
  show "drainFrames b = (case nextFrame b of Inl e \<Rightarrow> ([], Inl e) | Inr None \<Rightarrow> ([], Inr b)
      | Inr (Some (m, rest)) \<Rightarrow> (m # fst (drainFrames rest), snd (drainFrames rest)))" for b
    by (subst drainFrames.simps) (auto split: sum.splits option.splits prod.splits)
  show "readChunk st data = (case st of (ms, Inl e) \<Rightarrow> (ms, Inl e)
      | (ms, Inr b) \<Rightarrow> (ms @ fst (drainFrames (b @ data)), snd (drainFrames (b @ data))))" for st data
    by (simp add: readChunk_def appendBytes_def split_beta Let_def split: sum.splits prod.splits)
  show "nextFrame [] = Inr None" by (simp add: nextFrame_def)
qed (auto simp: nextFrame_shrinks nextFrame_append nextFrame_append_error nextFrame_encodeFrame)

text \<open>
  A frame within the cap is encoded as its four-byte big-endian length, its tag and its
  payload, and the reader gives back exactly that tag and payload and keeps every byte that
  follows; a larger one is refused by the encoder.
\<close>

theorem frame_round_trip:
  "(case encodeFrame tag payload of
      Inl e \<Rightarrow> e = FrameTooLarge \<and> 16 * 1024 * 1024 < 1 + length payload
    | Inr w \<Rightarrow> length w = 5 + length payload \<and> 1 + length payload \<le> 16 * 1024 * 1024 \<and>
        (\<forall>rest. nextFrame (w @ rest) = Inr (Some ((tag, payload), rest))))"
proof (cases "encodeFrame tag payload")
  case (Inl e)
  then show ?thesis by (auto simp: encodeFrame_def Let_def kMaxFrameLength_def split: if_splits)
next
  case (Inr w)
  then have "length w = 5 + length payload" "1 + length payload \<le> 16 * 1024 * 1024"
    by (auto simp: encodeFrame_def Let_def kMaxFrameLength_def split: if_splits)
  with Inr nextFrame_encodeFrame[OF Inr] show ?thesis by simp
qed

text \<open>
  C17: The frames a connection hands on do not depend on how the stream was cut into reads:
  reading it in any chunks gives the frames, the left-over bytes or the error of reading it
  at once. In particular a sequence of encoded frames, cut anywhere, is read back as that
  sequence, with an empty buffer.
\<close>

theorem reads_do_not_depend_on_chunks:
  assumes "chunks \<noteq> []"
  shows "foldl readChunk st chunks = readChunk st (concat chunks) \<and>
    (\<forall>fs ws. list_all2 (\<lambda>f w. encodeFrame (fst f) (snd f) = Inr w) fs ws \<longrightarrow> concat chunks = concat ws \<longrightarrow>
       foldl readChunk ([], Inr []) chunks = (fs, Inr []))"
  using frames.chunking_irrelevant[OF assms] frames.stream_decoded[OF _ _ assms] by blast

lemma reads_do_not_depend_on_chunks_witness:
  "foldl readChunk ([], Inr []) [[0, 0], [0, 2, 5], [9, 0, 0], [0], [1, 6]] = ([(5, [9]), (6, [])], Inr [])"
proof -
  let ?chunks = "[[0, 0], [0, 2, 5], [9, 0, 0], [0], [1, 6]] :: bytes list"
  let ?ws = "[[0, 0, 0, 2, 5, 9], [0, 0, 0, 1, 6]] :: bytes list"
  have enc: "list_all2 (\<lambda>f w. encodeFrame (fst f) (snd f) = Inr w) [(5, [9]), (6, [])] ?ws"
    by (simp add: encodeFrame_def kMaxFrameLength_def writeBe32_def Let_def)
  have "concat ?chunks = concat ?ws" by simp
  with enc reads_do_not_depend_on_chunks[of ?chunks] show ?thesis by blast
qed

end
