(* ===== verification/Json_Values.thy ===== *)
theory Json_Values
  imports Prelude "HOL-Library.List_Lexorder" "HOL-Library.Char_ord"
begin

text \<open>
  JSON documents as the program handles them: the value kinds of \<open>nlohmann::json\<close> that the
  code tells apart, and the accessors it uses. An object is a \<open>std::map\<close>: an association
  list in strictly increasing key order (\<open>sorted_keys\<close>), written by \<open>object_put\<close>. The two
  integer kinds are 64-bit words; \<open>Integer\<close> is read as two's complement. Doubles are the
  type parameter \<open>'d\<close>: nothing here computes with them.
\<close>

type_synonym i64 = "64 word"

datatype 'd json =
  Null
| Boolean bool
| Integer i64
| Unsigned u64
| Float 'd
| Str qstring
| Array "'d json list"
| Object "(qstring \<times> 'd json) list"
| Binary bytes

subsection \<open>Errors as sums\<close>

fun and_then :: "'e + 'a \<Rightarrow> ('a \<Rightarrow> 'e + 'b) \<Rightarrow> 'e + 'b" where
  "and_then (Inl e) f = Inl e"
| "and_then (Inr x) f = f x"

fun collect :: "('e + 'a) list \<Rightarrow> 'e + 'a list" where
  "collect [] = Inr []"
| "collect (r # rs) = and_then r (\<lambda>x. and_then (collect rs) (\<lambda>xs. Inr (x # xs)))"

fun collect_fields :: "('k \<times> ('e + 'a)) list \<Rightarrow> 'e + ('k \<times> 'a) list" where
  "collect_fields [] = Inr []"
| "collect_fields ((k, r) # rs) = and_then r (\<lambda>x. and_then (collect_fields rs) (\<lambda>xs. Inr ((k, x) # xs)))"

lemma and_then_cong [fundef_cong]:
  "r = r' \<Longrightarrow> (\<And>x. r' = Inr x \<Longrightarrow> f x = g x) \<Longrightarrow> and_then r f = and_then r' g"
  by (cases r') auto

lemma and_then_Inr: "and_then r f = Inr y \<longleftrightarrow> (\<exists>x. r = Inr x \<and> f x = Inr y)"
  by (cases r) auto

lemma collect_Inr: "collect rs = Inr xs \<longleftrightarrow> rs = map Inr xs"
  by (induction rs arbitrary: xs) (auto simp: and_then_Inr)

lemma collect_fields_Inr: "collect_fields rs = Inr xs \<longleftrightarrow> rs = map (map_prod id Inr) xs"
  by (induction rs arbitrary: xs rule: collect_fields.induct) (auto simp: and_then_Inr)

subsection \<open>Objects\<close>

fun object_put :: "qstring \<Rightarrow> 'a \<Rightarrow> (qstring \<times> 'a) list \<Rightarrow> (qstring \<times> 'a) list" where
  "object_put k v [] = [(k, v)]"
| "object_put k v ((k', v') # fs) =
     (if k = k' then (k, v) # fs
      else if k < k' then (k, v) # (k', v') # fs
      else (k', v') # object_put k v fs)"

definition put_all :: "(qstring \<times> 'a) list \<Rightarrow> (qstring \<times> 'a) list" where
  "put_all es = foldl (\<lambda>fs (k, v). object_put k v fs) [] es"

definition object_get :: "(qstring \<times> 'd json) list \<Rightarrow> qstring \<Rightarrow> 'd json option" where
  "object_get fs k = map_of fs k"

definition sorted_keys :: "(qstring \<times> 'a) list \<Rightarrow> bool" where
  "sorted_keys fs = sorted_wrt (<) (map fst fs)"

primrec wf_json :: "'d json \<Rightarrow> bool" where
  "wf_json Null = True"
| "wf_json (Boolean b) = True"
| "wf_json (Integer i) = True"
| "wf_json (Unsigned u) = True"
| "wf_json (Float d) = True"
| "wf_json (Str s) = True"
| "wf_json (Array js) = list_all id (map wf_json js)"
| "wf_json (Object fs) = (sorted_keys fs \<and> list_all snd (map (map_prod id wf_json) fs))"
| "wf_json (Binary b) = True"

lemma object_get_put [simp]:
  "object_get (object_put k v fs) k' = (if k' = k then Some v else object_get fs k')"
  by (induction fs rule: object_put.induct[where ?a0.0 = k and ?a1.0 = v]) (auto simp: object_get_def)

lemma keys_object_put: "fst ` set (object_put k v fs) = insert k (fst ` set fs)"
  by (induction k v fs rule: object_put.induct) auto

lemma sorted_keys_put: "sorted_keys fs \<Longrightarrow> sorted_keys (object_put k v fs)"
proof (induction k v fs rule: object_put.induct)
  case (2 k v k' v' fs)
  have "set (map fst (object_put k v fs)) = insert k (set (map fst fs))"
    using keys_object_put[of k v fs] by simp
  with 2 show ?case by (auto simp: sorted_keys_def)
qed (simp add: sorted_keys_def)

lemma sorted_keys_foldl_put:
  "sorted_keys fs \<Longrightarrow> sorted_keys (foldl (\<lambda>fs (k, v). object_put k v fs) fs es)"
  by (induction es arbitrary: fs) (auto simp: sorted_keys_put)

lemma sorted_keys_put_all: "sorted_keys (put_all es)"
  unfolding put_all_def by (rule sorted_keys_foldl_put) (simp add: sorted_keys_def)

lemma object_put_last: "\<forall>k' \<in> fst ` set fs. k' < k \<Longrightarrow> object_put k v fs = fs @ [(k, v)]"
  by (induction k v fs rule: object_put.induct) auto

lemma put_all_sorted: "sorted_keys es \<Longrightarrow> put_all es = es"
proof (induction es rule: rev_induct)
  case (snoc e es)
  then have "put_all es = es" "\<forall>k' \<in> fst ` set es. k' < fst e"
    by (auto simp: sorted_keys_def sorted_wrt_append)
  then show ?case by (auto simp: put_all_def object_put_last split_beta)
qed (simp add: put_all_def)

lemma sorted_keys_map_prod [simp]: "sorted_keys (map (map_prod id f) fs) = sorted_keys fs"
  by (simp add: sorted_keys_def comp_def)

end
