(* ===== verification/Tagged_Bytes.thy ===== *)
theory Tagged_Bytes
  imports Json_Values Base64
begin

text \<open>
  The tagged form of byte strings in JSON (\<open>cpp/logos_codec.h\<close>): an object with the one key
  \<open>_bytes\<close> holding base64url text, the strict decoder and the lenient one that providers
  use for parameters. The decimal text of a number is nlohmann's \<open>dump\<close>, a parameter here.
\<close>

definition bytesKey :: qstring where
  "bytesKey = ''_bytes''"

definition bytesToJson :: "bytes \<Rightarrow> 'd json" where
  "bytesToJson bs = Object [(bytesKey, Str (b64UrlEncode bs))]"

fun isTaggedBytes :: "'d json \<Rightarrow> bool" where
  "isTaggedBytes (Object fs) =
     (length fs = 1 \<and> (case object_get fs bytesKey of Some (Str s) \<Rightarrow> True | _ \<Rightarrow> False))"
| "isTaggedBytes _ = False"

text \<open>\<open>j["_bytes"].get<std::string>()\<close> on a tagged object.\<close>

fun taggedText :: "'d json \<Rightarrow> qstring" where
  "taggedText (Object fs) = (case object_get fs bytesKey of Some (Str s) \<Rightarrow> s | _ \<Rightarrow> [])"
| "taggedText _ = []"

text \<open>The message of a failed decode names what was expected, the path and the kind found.\<close>

datatype codec_error = CodecError qstring

fun type_name :: "'d json \<Rightarrow> qstring" where
  "type_name Null = ''null''"
| "type_name (Boolean b) = ''boolean''"
| "type_name (Integer i) = ''number''"
| "type_name (Unsigned u) = ''number''"
| "type_name (Float d) = ''number''"
| "type_name (Str s) = ''string''"
| "type_name (Array js) = ''array''"
| "type_name (Object fs) = ''object''"
| "type_name (Binary b) = ''binary''"

definition typeError :: "qstring \<Rightarrow> qstring \<Rightarrow> 'd json \<Rightarrow> codec_error" where
  "typeError path expected got = CodecError (''expected '' @ expected @
     (if path = [] then '' at value'' else '' at '' @ path) @ '', got '' @ type_name got)"

definition taggedBytesExpected :: qstring where
  "taggedBytesExpected = ''tagged bytes {\"_bytes\": \"...\"}''"

definition bytesFromJson :: "'d json \<Rightarrow> codec_error + bytes" where
  "bytesFromJson j =
     (if \<not> isTaggedBytes j then Inl (typeError [] taggedBytesExpected j)
      else Inr (b64UrlDecode (taggedText j)))"

fun chars_to_bytes :: "qstring \<Rightarrow> bytes" where
  "chars_to_bytes s = map of_char s"

fun int_byte :: "'d json \<Rightarrow> u8 option" where
  "int_byte (Integer i) = Some (ucast i)"
| "int_byte (Unsigned u) = Some (ucast u)"
| "int_byte _ = None"

definition bytesFromJsonLenient :: "('d json \<Rightarrow> qstring) \<Rightarrow> 'd json \<Rightarrow> qstring \<Rightarrow> codec_error + bytes" where
  "bytesFromJsonLenient dump j path =
     (if isTaggedBytes j then Inr (b64UrlDecode (taggedText j))
      else case j of
        Str s \<Rightarrow> Inr (chars_to_bytes s)
      | Integer i \<Rightarrow> Inr (chars_to_bytes (dump j))
      | Unsigned u \<Rightarrow> Inr (chars_to_bytes (dump j))
      | Float d \<Rightarrow> Inr (chars_to_bytes (dump j))
      | Array js \<Rightarrow> Inr (List.map_filter int_byte js)
      | _ \<Rightarrow> Inl (typeError path ''bytes'' j))"

lemma isTaggedBytes_iff: "isTaggedBytes j \<longleftrightarrow> (\<exists>s. j = Object [(bytesKey, Str s)])"
proof
  assume "isTaggedBytes j"
  then obtain fs where j: "j = Object fs" and "length fs = 1"
    and t: "case object_get fs bytesKey of Some (Str s) \<Rightarrow> True | _ \<Rightarrow> False"
    by (cases j rule: isTaggedBytes.cases) auto
  then obtain k v where fs: "fs = [(k, v)]" by (cases fs) auto
  from t obtain s where "k = bytesKey" "v = Str s"
    by (auto simp: fs object_get_def split: if_splits option.splits json.splits)
  then show "\<exists>s. j = Object [(bytesKey, Str s)]" by (simp add: j fs)
qed (auto simp: object_get_def)

lemma isTaggedBytes_bytesToJson [simp]: "isTaggedBytes (bytesToJson bs)"
  by (simp add: bytesToJson_def object_get_def)

lemma taggedText_bytesToJson [simp]: "taggedText (bytesToJson bs) = b64UrlEncode bs"
  by (simp add: bytesToJson_def object_get_def)

lemma ucast_ucast_u8: "ucast (ucast (b :: u8) :: u64) = b"
  by (rule bit_word_eqI) (auto simp: bit_simps dest: bit_imp_le_length)

lemma int_bytes [simp]: "List.map_filter int_byte (map (\<lambda>b. Unsigned (ucast b)) bs) = bs"
  by (induction bs) (auto simp: List.map_filter_simps ucast_ucast_u8)

text \<open>
  Tagged bytes come back from all three readers, the strict one, the lenient one and the
  wire's checked decoder, and the lenient reader takes a JSON array of byte values as those
  bytes. The strict reader accepts nothing but the tagged form.
\<close>

theorem tagged_bytes_round_trip:
  "bytesFromJson (bytesToJson bs) = Inr bs \<and>
   bytesFromJsonLenient dump (bytesToJson bs) path = Inr bs \<and>
   bytesFromJsonLenient dump (Array (map (\<lambda>b. Unsigned (ucast b)) bs)) path = Inr bs \<and>
   (isTaggedBytes j \<longleftrightarrow> (\<exists>s. j = Object [(bytesKey, Str s)])) \<and>
   (bytesFromJson j = Inl (typeError [] taggedBytesExpected j) \<longleftrightarrow> \<not> isTaggedBytes j)"
  using isTaggedBytes_iff[of j]
  by (simp add: bytesFromJson_def bytesFromJsonLenient_def b64_roundtrip)

end
