(* ===== verification/Rpc_Values.thy ===== *)
theory Rpc_Values
  imports Tagged_Bytes
begin

text \<open>
  \<open>cpp/implementations/plain/rpc_value.h\<close> and the value half of
  \<open>cpp/implementations/plain/json_mapping.cpp\<close>: the values carried by the wire and their
  JSON form. The lemmas say exactly which values survive the mapping (\<open>canonical\<close>), that
  everything received is of that kind, and that the two spellings of a non-negative integer
  are one value.
\<close>

subsection \<open>Values\<close>

datatype 'd rpc_value =
  VNull
| VBool bool
| VInt i64
| VUInt u64
| VDouble 'd
| VString qstring
| VBytes bytes
| VList "'d rpc_value list"
| VMap "(qstring \<times> 'd rpc_value) list"

definition int64_max :: u64 where
  "int64_max = 0x7fffffffffffffff"

definition makeInteger :: "u64 \<Rightarrow> 'd rpc_value" where
  "makeInteger u = (if u \<le> int64_max then VInt u else VUInt u)"

definition map_emplace :: "qstring \<Rightarrow> 'd rpc_value \<Rightarrow> (qstring \<times> 'd rpc_value) list \<Rightarrow> (qstring \<times> 'd rpc_value) list" where
  "map_emplace key v entries = entries @ [(key, v)]"

fun map_find_key :: "qstring \<Rightarrow> (qstring \<times> 'd rpc_value) list \<Rightarrow> 'd rpc_value option" where
  "map_find_key key [] = None"
| "map_find_key key ((k, v) # entries) = (if k = key then Some v else map_find_key key entries)"

subsection \<open>The mapping\<close>

datatype decode_error = InvalidBase64 | ExpectedObject | UnknownTag | JsonTypeError | ParseFailed

primrec valueToJson :: "'d rpc_value \<Rightarrow> 'd json" where
  "valueToJson VNull = Null"
| "valueToJson (VBool b) = Boolean b"
| "valueToJson (VInt i) = Integer i"
| "valueToJson (VUInt u) = Unsigned u"
| "valueToJson (VDouble d) = Float d"
| "valueToJson (VString s) = Str s"
| "valueToJson (VBytes bs) = bytesToJson bs"
| "valueToJson (VList vs) = Array (map valueToJson vs)"
| "valueToJson (VMap es) = Object (put_all (map (map_prod id valueToJson) es))"

definition decodeTagged :: "qstring \<Rightarrow> decode_error + 'd rpc_value" where
  "decodeTagged s = (case b64UrlDecodeChecked s of None \<Rightarrow> Inl InvalidBase64 | Some bs \<Rightarrow> Inr (VBytes bs))"

primrec jsonToValue :: "'d json \<Rightarrow> decode_error + 'd rpc_value" where
  "jsonToValue Null = Inr VNull"
| "jsonToValue (Boolean b) = Inr (VBool b)"
| "jsonToValue (Unsigned u) = Inr (makeInteger u)"
| "jsonToValue (Integer i) = Inr (VInt i)"
| "jsonToValue (Float d) = Inr (VDouble d)"
| "jsonToValue (Str s) = Inr (VString s)"
| "jsonToValue (Array js) = and_then (collect (map jsonToValue js)) (\<lambda>vs. Inr (VList vs))"
| "jsonToValue (Object fs) =
     (if isTaggedBytes (Object fs) then decodeTagged (taggedText (Object fs))
      else and_then (collect_fields (map (map_prod id jsonToValue) fs)) (\<lambda>es. Inr (VMap es)))"
| "jsonToValue (Binary b) = Inr (VBytes b)"

subsection \<open>The values that survive\<close>

definition looksTagged :: "(qstring \<times> 'd rpc_value) list \<Rightarrow> bool" where
  "looksTagged es = (length es = 1 \<and> (case es of [(k, VString s)] \<Rightarrow> k = bytesKey | _ \<Rightarrow> False))"

primrec canonical :: "'d rpc_value \<Rightarrow> bool" where
  "canonical VNull = True"
| "canonical (VBool b) = True"
| "canonical (VInt i) = True"
| "canonical (VUInt u) = (int64_max < u)"
| "canonical (VDouble d) = True"
| "canonical (VString s) = True"
| "canonical (VBytes bs) = True"
| "canonical (VList vs) = list_all id (map canonical vs)"
| "canonical (VMap es) = (sorted_keys es \<and> \<not> looksTagged es \<and> list_all snd (map (map_prod id canonical) es))"

lemma looksTagged_iff: "looksTagged es \<longleftrightarrow> (\<exists>s. es = [(bytesKey, VString s)])"
  by (auto simp: looksTagged_def split: list.splits prod.splits rpc_value.splits)

lemma decodeTagged_not [simp]:
  "decodeTagged s \<noteq> Inr (VMap es)" "decodeTagged s \<noteq> Inr (VString t)"
  by (auto simp: decodeTagged_def split: option.splits)

lemma decodeTagged_canonical: "decodeTagged s = Inr v \<Longrightarrow> canonical v"
  by (auto simp: decodeTagged_def split: option.splits)

lemma decodeTagged_encode [simp]: "decodeTagged (b64UrlEncode bs) = Inr (VBytes bs)"
proof -
  have "b64UrlDecodeChecked (b64UrlEncode bs) = Some bs"
    unfolding b64UrlDecodeChecked_def Let_def strip_padding_text[OF b64_text_encode]
    using b64_checked_encode[of bs "[]" 0] length_b64UrlEncode_mod[of bs] by auto
  then show ?thesis by (simp add: decodeTagged_def)
qed

lemma valueToJson_eq_Str: "valueToJson v = Str s \<longleftrightarrow> v = VString s"
  by (cases v) (auto simp: bytesToJson_def)

lemma encoded_map_tagged_iff:
  assumes "sorted_keys es"
  shows "isTaggedBytes (Object (map (map_prod id valueToJson) es)) \<longleftrightarrow> looksTagged es"
  by (auto simp: isTaggedBytes_iff looksTagged_iff map_eq_Cons_conv valueToJson_eq_Str
      simp del: isTaggedBytes.simps)

lemma sorted_keys_put_all_eq: "put_all es = es \<longleftrightarrow> sorted_keys es"
  using put_all_sorted sorted_keys_put_all by metis

lemma decoded_object_sorted:
  assumes "jsonToValue (Object fs) = Inr (VMap es)"
  shows "map fst es = map fst fs" and "map (map_prod id jsonToValue) fs = map (map_prod id Inr) es"
proof -
  have nt: "\<not> isTaggedBytes (Object fs)"
    using assms by (auto simp del: isTaggedBytes.simps taggedText.simps)
  with assms show m: "map (map_prod id jsonToValue) fs = map (map_prod id Inr) es"
    by (auto simp: and_then_Inr collect_fields_Inr simp del: isTaggedBytes.simps)
  from arg_cong[OF m, of "map fst"] show "map fst es = map fst fs" by (simp add: comp_def)
qed

lemma value_round_trip_list:
  assumes "\<And>v. v \<in> set vs \<Longrightarrow> jsonToValue (valueToJson v) = Inr v \<longleftrightarrow> canonical v"
  shows "jsonToValue (valueToJson (VList vs)) = Inr (VList vs) \<longleftrightarrow> canonical (VList vs)"
  using assms by (auto simp: and_then_Inr collect_Inr list_all_iff)

lemma value_round_trip_map:
  assumes IH: "\<And>k v. (k, v) \<in> set es \<Longrightarrow> jsonToValue (valueToJson v) = Inr v \<longleftrightarrow> canonical v"
  shows "jsonToValue (valueToJson (VMap es)) = Inr (VMap es) \<longleftrightarrow> canonical (VMap es)"
proof (cases "sorted_keys es")
  case True
  have put: "put_all (map (map_prod id valueToJson) es) = map (map_prod id valueToJson) es"
    by (rule put_all_sorted) (simp add: True)
  have fields: "map (map_prod id jsonToValue) (map (map_prod id valueToJson) es) = map (map_prod id Inr) es \<longleftrightarrow>
      list_all snd (map (map_prod id canonical) es)"
    using IH by (auto simp: list_all_iff)
  show ?thesis
    unfolding valueToJson.simps put canonical.simps jsonToValue.simps encoded_map_tagged_iff[OF True]
    using True fields by (auto simp: and_then_Inr collect_fields_Inr simp del: map_map)
next
  case False
  have "jsonToValue (valueToJson (VMap es)) \<noteq> Inr (VMap es)"
  proof
    assume "jsonToValue (valueToJson (VMap es)) = Inr (VMap es)"
    then have "map fst es = map fst (put_all (map (map_prod id valueToJson) es))"
      unfolding valueToJson.simps by (rule decoded_object_sorted(1))
    with sorted_keys_put_all[of "map (map_prod id valueToJson) es"] False
    show False by (simp add: sorted_keys_def)
  qed
  with False show ?thesis by simp
qed

lemma value_round_trip_iff: "jsonToValue (valueToJson v) = Inr v \<longleftrightarrow> canonical v"
proof (induction v)
  case (VMap es)
  show ?case by (rule value_round_trip_map) (use VMap in auto)
next
  case (VList vs)
  show ?case by (rule value_round_trip_list) (use VList in auto)
next
  case (VUInt u)
  then show ?case by (auto simp: makeInteger_def)
next
  case (VBytes bs)
  have "isTaggedBytes (bytesToJson bs)" by simp
  then show ?case by (simp add: bytesToJson_def object_get_def)
qed simp_all

lemma decoded_list_canonical:
  assumes "map jsonToValue js = map Inr vs" and "\<And>j v. j \<in> set js \<Longrightarrow> jsonToValue j = Inr v \<Longrightarrow> canonical v"
  shows "list_all id (map canonical vs)"
  using assms by (auto simp: list_all_iff list_eq_iff_nth_eq in_set_conv_nth) (metis nth_mem)

lemma decoded_canonical: "wf_json j \<Longrightarrow> jsonToValue j = Inr v \<Longrightarrow> canonical v"
proof (induction j arbitrary: v)
  case (Object fs)
  show ?case
  proof (cases "isTaggedBytes (Object fs)")
    case True
    with Object.prems(2) decodeTagged_canonical show ?thesis
      by (auto simp del: isTaggedBytes.simps)
  next
    case False
    with Object.prems(2) obtain es where v: "v = VMap es"
      by (auto simp: and_then_Inr simp del: isTaggedBytes.simps)
    from decoded_object_sorted[OF Object.prems(2)[unfolded v]]
    have keys: "map fst es = map fst fs" and m: "map (map_prod id jsonToValue) fs = map (map_prod id Inr) es" .
    have "canonical x" if "(k, x) \<in> set es" for k x
    proof -
      from that have "(k, Inr x) \<in> set (map (map_prod id jsonToValue) fs)" unfolding m by force
      then obtain j where "(k, j) \<in> set fs" "jsonToValue j = Inr x" by auto
      with Object.IH[of "(k, j)" j x] Object.prems(1) show ?thesis by (force simp: list_all_iff)
    qed
    moreover have "\<not> looksTagged es"
    proof
      assume "looksTagged es"
      then obtain s where "es = [(bytesKey, VString s)]" by (auto simp: looksTagged_iff)
      with m obtain j where "fs = [(bytesKey, j)]" "jsonToValue j = Inr (VString s)"
        by (auto simp: map_eq_Cons_conv)
      moreover from this(2) have "j = Str s"
        by (cases j) (auto simp: makeInteger_def and_then_Inr simp del: isTaggedBytes.simps split: if_splits)
      ultimately show False using False by (simp add: object_get_def)
    qed
    ultimately show ?thesis
      using Object.prems(1) keys by (auto simp: v sorted_keys_def list_all_iff)
  qed
next
  case (Array js)
  then obtain vs where "v = VList vs" "map jsonToValue js = map Inr vs"
    by (auto simp: and_then_Inr collect_Inr)
  with decoded_list_canonical[of js vs] Array show ?case by (auto simp: list_all_iff)
qed (auto simp: makeInteger_def)

subsection \<open>The two spellings of an integer\<close>

text \<open>
  Serializers write both integer kinds alike and parsers read every non-negative integer as
  unsigned; \<open>respell\<close> is what a trip through text does to the kinds.
\<close>

primrec respell :: "'d json \<Rightarrow> 'd json" where
  "respell Null = Null"
| "respell (Boolean b) = Boolean b"
| "respell (Integer i) = (if i \<le> int64_max then Unsigned i else Integer i)"
| "respell (Unsigned u) = Unsigned u"
| "respell (Float d) = Float d"
| "respell (Str s) = Str s"
| "respell (Array js) = Array (map respell js)"
| "respell (Object fs) = Object (map (map_prod id respell) fs)"
| "respell (Binary b) = Binary b"

lemma respell_eq_Str [simp]: "respell j = Str s \<longleftrightarrow> j = Str s"
  by (cases j) auto

lemma isTaggedBytes_respell [simp]: "isTaggedBytes (respell j) = isTaggedBytes j"
  by (cases j) (auto simp: isTaggedBytes_iff map_eq_Cons_conv simp del: isTaggedBytes.simps)

lemma object_get_respell: "object_get (map (map_prod id respell) fs) k = map_option respell (object_get fs k)"
  by (induction fs) (auto simp: object_get_def)

lemma taggedText_respell: "isTaggedBytes j \<Longrightarrow> taggedText (respell j) = taggedText j"
  by (auto simp: isTaggedBytes_iff object_get_def simp del: isTaggedBytes.simps)

lemma jsonToValue_respell [simp]: "jsonToValue (respell j) = jsonToValue j"
proof (induction j)
  case (Array js)
  then have "map jsonToValue (map respell js) = map jsonToValue js" by simp
  then show ?case by (simp del: map_map)
next
  case (Object fs)
  then have "map (map_prod id jsonToValue) (map (map_prod id respell) fs) = map (map_prod id jsonToValue) fs"
    by (force simp: map_prod_def)
  then show ?case
    using isTaggedBytes_respell[of "Object fs"] taggedText_respell[of "Object fs"]
    by (simp del: map_map isTaggedBytes.simps taggedText.simps)
qed (auto simp: makeInteger_def)

subsection \<open>What the mapping guarantees\<close>

text \<open>
  A value comes back from its JSON form exactly when it is canonical: an unsigned
  integer lies above the signed range, and a map has strictly increasing keys and is not the
  one-key \<open>_bytes\<close> map that JSON cannot tell from bytes, at every depth. The text form of
  the document may spell non-negative integers either way without changing the outcome.
\<close>

theorem value_round_trip_exact:
  "(jsonToValue (valueToJson v) = Inr v \<longleftrightarrow> canonical v) \<and>
   jsonToValue (respell (valueToJson v)) = jsonToValue (valueToJson v)"
  by (simp add: value_round_trip_iff)

text \<open>
  Whatever a peer sends in a well-formed document, the value decoded from it is
  canonical; a node that receives it and sends it on passes on the same value.
\<close>

theorem received_values_are_relayed_unchanged:
  assumes "wf_json j" and "jsonToValue j = Inr v"
  shows "canonical v \<and> jsonToValue (valueToJson v) = Inr v"
  using decoded_canonical[OF assms] by (simp add: value_round_trip_iff)

lemma received_values_are_relayed_unchanged_witness:
  "jsonToValue (valueToJson (VMap [(''_bytes'', VInt 3)] :: nat rpc_value)) = Inr (VMap [(''_bytes'', VInt 3)])"
  using received_values_are_relayed_unchanged[of "Object [(''_bytes'', Unsigned 3)]" "VMap [(''_bytes'', VInt 3)] :: nat rpc_value"]
  by (simp add: sorted_keys_def object_get_def makeInteger_def int64_max_def bytesKey_def)

end
