(* ===== verification/Rpc_Messages.thy ===== *)
theory Rpc_Messages
  imports Rpc_Values
begin

text \<open>
  The wire messages (\<open>rpc_message.{h,cpp}\<close>), their JSON form (\<open>json_mapping.cpp\<close>) and the
  payload codecs (\<open>json_codec.cpp\<close>, \<open>cbor_codec.cpp\<close>) of \<open>cpp/implementations/plain\<close>.

  The serializers of nlohmann (\<open>dump\<close>/\<open>parse\<close>, \<open>to_cbor\<close>/\<open>from_cbor\<close>) are not part of the
  repository and are parameters; so is the cast of a double to an unsigned integer, which
  the accessor of an \<open>id\<close> performs when a peer sends one.
\<close>

subsection \<open>Messages\<close>

record 'd method_metadata =
  md_name :: qstring
  md_signature :: qstring
  md_returnType :: qstring
  md_isInvokable :: bool
  md_parameters :: "'d rpc_value list"

record 'd call_message =
  call_id :: u64
  call_authToken :: qstring
  call_object :: qstring
  call_method :: qstring
  call_args :: "'d rpc_value list"
  call_caller :: qstring

record 'd result_message =
  res_id :: u64
  res_ok :: bool
  res_value :: "'d rpc_value"
  res_err :: qstring
  res_errCode :: qstring

record subscribe_message =
  sub_object :: qstring
  sub_eventName :: qstring

record unsubscribe_message =
  unsub_object :: qstring
  unsub_eventName :: qstring

record 'd event_message =
  evt_object :: qstring
  evt_eventName :: qstring
  evt_data :: "'d rpc_value list"

record token_message =
  tok_authToken :: qstring
  tok_moduleName :: qstring
  tok_token :: qstring

record methods_message =
  mreq_id :: u64
  mreq_authToken :: qstring
  mreq_object :: qstring

record 'd methods_result_message =
  mres_id :: u64
  mres_ok :: bool
  mres_methods :: "'d method_metadata list"
  mres_err :: qstring

datatype 'd any_message =
  CallMsg "'d call_message"
| ResultMsg "'d result_message"
| SubscribeMsg subscribe_message
| UnsubscribeMsg unsubscribe_message
| EventMsg "'d event_message"
| TokenMsg token_message
| MethodsMsg methods_message
| MethodsResultMsg "'d methods_result_message"

fun messageTypeOf :: "'d any_message \<Rightarrow> u8" where
  "messageTypeOf (CallMsg m) = 1"
| "messageTypeOf (ResultMsg m) = 2"
| "messageTypeOf (SubscribeMsg m) = 3"
| "messageTypeOf (UnsubscribeMsg m) = 4"
| "messageTypeOf (EventMsg m) = 5"
| "messageTypeOf (TokenMsg m) = 6"
| "messageTypeOf (MethodsMsg m) = 7"
| "messageTypeOf (MethodsResultMsg m) = 8"

subsection \<open>Encoding\<close>

definition argsToJson :: "'d rpc_value list \<Rightarrow> 'd json" where
  "argsToJson args = Array (map valueToJson args)"

definition methodToJson :: "'d method_metadata \<Rightarrow> 'd json" where
  "methodToJson m = Object (put_all
     [(''name'', Str (md_name m)), (''signature'', Str (md_signature m)),
      (''returnType'', Str (md_returnType m)), (''isInvokable'', Boolean (md_isInvokable m)),
      (''parameters'', argsToJson (md_parameters m))])"

fun messageToJson :: "'d any_message \<Rightarrow> 'd json" where
  "messageToJson (CallMsg m) = Object (put_all
     ([(''id'', Unsigned (call_id m)), (''authToken'', Str (call_authToken m)),
       (''object'', Str (call_object m)), (''method'', Str (call_method m)),
       (''args'', argsToJson (call_args m))] @
      (if call_caller m \<noteq> [] then [(''caller'', Str (call_caller m))] else [])))"
| "messageToJson (ResultMsg m) = Object (put_all
     ([(''id'', Unsigned (res_id m)), (''ok'', Boolean (res_ok m))] @
      (if res_ok m then [(''value'', valueToJson (res_value m))]
       else [(''err'', Str (res_err m)), (''errCode'', Str (res_errCode m))])))"
| "messageToJson (SubscribeMsg m) = Object (put_all
     [(''object'', Str (sub_object m)), (''event'', Str (sub_eventName m))])"
| "messageToJson (UnsubscribeMsg m) = Object (put_all
     [(''object'', Str (unsub_object m)), (''event'', Str (unsub_eventName m))])"
| "messageToJson (EventMsg m) = Object (put_all
     [(''object'', Str (evt_object m)), (''event'', Str (evt_eventName m)),
      (''data'', argsToJson (evt_data m))])"
| "messageToJson (TokenMsg m) = Object (put_all
     [(''authToken'', Str (tok_authToken m)), (''moduleName'', Str (tok_moduleName m)),
      (''token'', Str (tok_token m))])"
| "messageToJson (MethodsMsg m) = Object (put_all
     [(''id'', Unsigned (mreq_id m)), (''authToken'', Str (mreq_authToken m)),
      (''object'', Str (mreq_object m))])"
| "messageToJson (MethodsResultMsg m) = Object (put_all
     ([(''id'', Unsigned (mres_id m)), (''ok'', Boolean (mres_ok m))] @
      (if mres_ok m then [(''methods'', Array (map methodToJson (mres_methods m)))]
       else [(''err'', Str (mres_err m))])))"

subsection \<open>Decoding\<close>

text \<open>\<open>json::value(key, default)\<close>: the default when the key is absent, an error when the
  value found has another kind.\<close>

definition value_string :: "(qstring \<times> 'd json) list \<Rightarrow> qstring \<Rightarrow> decode_error + qstring" where
  "value_string fs k = (case object_get fs k of None \<Rightarrow> Inr []
     | Some (Str s) \<Rightarrow> Inr s | Some _ \<Rightarrow> Inl JsonTypeError)"

definition value_bool :: "(qstring \<times> 'd json) list \<Rightarrow> qstring \<Rightarrow> bool \<Rightarrow> decode_error + bool" where
  "value_bool fs k d = (case object_get fs k of None \<Rightarrow> Inr d
     | Some (Boolean b) \<Rightarrow> Inr b | Some _ \<Rightarrow> Inl JsonTypeError)"

definition value_u64 :: "('d \<Rightarrow> u64) \<Rightarrow> (qstring \<times> 'd json) list \<Rightarrow> qstring \<Rightarrow> decode_error + u64" where
  "value_u64 trunc fs k = (case object_get fs k of None \<Rightarrow> Inr 0
     | Some (Unsigned u) \<Rightarrow> Inr u | Some (Integer i) \<Rightarrow> Inr i | Some (Float d) \<Rightarrow> Inr (trunc d)
     | Some _ \<Rightarrow> Inl JsonTypeError)"

definition argsFromJson :: "'d json \<Rightarrow> decode_error + 'd rpc_value list" where
  "argsFromJson j = (case j of Array js \<Rightarrow> collect (map jsonToValue js) | _ \<Rightarrow> Inr [])"

definition argsAt :: "(qstring \<times> 'd json) list \<Rightarrow> qstring \<Rightarrow> decode_error + 'd rpc_value list" where
  "argsAt fs k = (case object_get fs k of None \<Rightarrow> Inr [] | Some j \<Rightarrow> argsFromJson j)"

text \<open>\<open>methodFromJson\<close> of a non-object: \<open>value\<close> throws a type error there.\<close>

definition methodFromJson :: "'d json \<Rightarrow> decode_error + 'd method_metadata" where
  "methodFromJson j = (case j of Object fs \<Rightarrow>
       and_then (value_string fs ''name'') (\<lambda>n.
       and_then (value_string fs ''signature'') (\<lambda>sg.
       and_then (value_string fs ''returnType'') (\<lambda>rt.
       and_then (value_bool fs ''isInvokable'' True) (\<lambda>inv.
       and_then (argsAt fs ''parameters'') (\<lambda>ps.
       Inr \<lparr>md_name = n, md_signature = sg, md_returnType = rt, md_isInvokable = inv, md_parameters = ps\<rparr>)))))
     | _ \<Rightarrow> Inl JsonTypeError)"

definition callFromJson :: "('d \<Rightarrow> u64) \<Rightarrow> (qstring \<times> 'd json) list \<Rightarrow> decode_error + 'd any_message" where
  "callFromJson trunc fs =
     and_then (value_u64 trunc fs ''id'') (\<lambda>i.
     and_then (value_string fs ''authToken'') (\<lambda>auth.
     and_then (value_string fs ''object'') (\<lambda>obj.
     and_then (value_string fs ''method'') (\<lambda>m.
     and_then (value_string fs ''caller'') (\<lambda>caller.
     and_then (argsAt fs ''args'') (\<lambda>args.
     Inr (CallMsg \<lparr>call_id = i, call_authToken = auth, call_object = obj, call_method = m,
                   call_args = args, call_caller = caller\<rparr>)))))))"

definition resultFromJson :: "('d \<Rightarrow> u64) \<Rightarrow> (qstring \<times> 'd json) list \<Rightarrow> decode_error + 'd any_message" where
  "resultFromJson trunc fs =
     and_then (value_u64 trunc fs ''id'') (\<lambda>i.
     and_then (value_bool fs ''ok'' False) (\<lambda>ok.
     if ok
     then and_then (case object_get fs ''value'' of None \<Rightarrow> Inr VNull | Some j \<Rightarrow> jsonToValue j) (\<lambda>v.
          Inr (ResultMsg \<lparr>res_id = i, res_ok = ok, res_value = v, res_err = [], res_errCode = []\<rparr>))
     else and_then (value_string fs ''err'') (\<lambda>e.
          and_then (value_string fs ''errCode'') (\<lambda>c.
          Inr (ResultMsg \<lparr>res_id = i, res_ok = ok, res_value = VNull, res_err = e, res_errCode = c\<rparr>)))))"

definition methodsAt :: "(qstring \<times> 'd json) list \<Rightarrow> decode_error + 'd method_metadata list" where
  "methodsAt fs = (case object_get fs ''methods'' of
       Some (Array js) \<Rightarrow> collect (map methodFromJson js) | _ \<Rightarrow> Inr [])"

definition methodsResultFromJson :: "('d \<Rightarrow> u64) \<Rightarrow> (qstring \<times> 'd json) list \<Rightarrow> decode_error + 'd any_message" where
  "methodsResultFromJson trunc fs =
     and_then (value_u64 trunc fs ''id'') (\<lambda>i.
     and_then (value_bool fs ''ok'' False) (\<lambda>ok.
     if ok
     then and_then (methodsAt fs) (\<lambda>ms.
          Inr (MethodsResultMsg \<lparr>mres_id = i, mres_ok = ok, mres_methods = ms, mres_err = []\<rparr>))
     else and_then (value_string fs ''err'') (\<lambda>e.
          Inr (MethodsResultMsg \<lparr>mres_id = i, mres_ok = ok, mres_methods = [], mres_err = e\<rparr>))))"

definition jsonToMessage :: "('d \<Rightarrow> u64) \<Rightarrow> u8 \<Rightarrow> 'd json \<Rightarrow> decode_error + 'd any_message" where
  "jsonToMessage trunc tag j = (case j of Object fs \<Rightarrow>
       if tag = 1 then callFromJson trunc fs
       else if tag = 2 then resultFromJson trunc fs
       else if tag = 3 then
         and_then (value_string fs ''object'') (\<lambda>obj. and_then (value_string fs ''event'') (\<lambda>ev.
         Inr (SubscribeMsg \<lparr>sub_object = obj, sub_eventName = ev\<rparr>)))
       else if tag = 4 then
         and_then (value_string fs ''object'') (\<lambda>obj. and_then (value_string fs ''event'') (\<lambda>ev.
         Inr (UnsubscribeMsg \<lparr>unsub_object = obj, unsub_eventName = ev\<rparr>)))
       else if tag = 5 then
         and_then (value_string fs ''object'') (\<lambda>obj. and_then (value_string fs ''event'') (\<lambda>ev.
         and_then (argsAt fs ''data'') (\<lambda>ds.
         Inr (EventMsg \<lparr>evt_object = obj, evt_eventName = ev, evt_data = ds\<rparr>))))
       else if tag = 6 then
         and_then (value_string fs ''authToken'') (\<lambda>auth. and_then (value_string fs ''moduleName'') (\<lambda>m.
         and_then (value_string fs ''token'') (\<lambda>t.
         Inr (TokenMsg \<lparr>tok_authToken = auth, tok_moduleName = m, tok_token = t\<rparr>))))
       else if tag = 7 then
         and_then (value_u64 trunc fs ''id'') (\<lambda>i. and_then (value_string fs ''authToken'') (\<lambda>auth.
         and_then (value_string fs ''object'') (\<lambda>obj.
         Inr (MethodsMsg \<lparr>mreq_id = i, mreq_authToken = auth, mreq_object = obj\<rparr>))))
       else if tag = 8 then methodsResultFromJson trunc fs
       else Inl UnknownTag
     | _ \<Rightarrow> Inl ExpectedObject)"

subsection \<open>Payload codecs\<close>

text \<open>\<open>JsonCodec\<close> and \<open>CborCodec\<close> differ in the serializer only.\<close>

definition codecEncode :: "('d json \<Rightarrow> bytes option) \<Rightarrow> 'd any_message \<Rightarrow> bytes option" where
  "codecEncode serialize m = (let j = messageToJson m in serialize j)"

definition codecDecode ::
  "('d \<Rightarrow> u64) \<Rightarrow> (bytes \<Rightarrow> 'd json option) \<Rightarrow> u8 \<Rightarrow> bytes \<Rightarrow> decode_error + 'd any_message" where
  "codecDecode trunc parse tag data = (case parse data of None \<Rightarrow> Inl ParseFailed
     | Some j \<Rightarrow> jsonToMessage trunc tag j)"

subsection \<open>Messages survive\<close>

definition canonical_method :: "'d method_metadata \<Rightarrow> bool" where
  "canonical_method m = list_all canonical (md_parameters m)"

text \<open>A reply carries either a value or an error; the fields of the other kind are at rest.\<close>

fun canonical_message :: "'d any_message \<Rightarrow> bool" where
  "canonical_message (CallMsg m) = list_all canonical (call_args m)"
| "canonical_message (ResultMsg m) = (if res_ok m then canonical (res_value m) \<and> res_err m = [] \<and> res_errCode m = []
     else res_value m = VNull)"
| "canonical_message (EventMsg m) = list_all canonical (evt_data m)"
| "canonical_message (MethodsResultMsg m) = (if mres_ok m then list_all canonical_method (mres_methods m) \<and> mres_err m = []
     else mres_methods m = [])"
| "canonical_message _ = True"

lemma object_get_put_all:
  "object_get (put_all es) k = map_of (rev es) k"
proof (induction es rule: rev_induct)
  case (snoc e es)
  then show ?case by (cases e) (simp add: put_all_def)
qed (simp add: put_all_def object_get_def)

lemma argsFromJson_argsToJson [simp]: "list_all canonical vs \<Longrightarrow> argsFromJson (argsToJson vs) = Inr vs"
  using value_round_trip_iff by (auto simp: argsFromJson_def argsToJson_def collect_Inr list_all_iff)

lemma methodFromJson_methodToJson [simp]:
  "canonical_method m \<Longrightarrow> methodFromJson (methodToJson m) = Inr m"
  by (simp add: methodFromJson_def methodToJson_def value_string_def value_bool_def argsAt_def
      object_get_put_all canonical_method_def)

lemma collect_methods [simp]:
  "\<forall>m \<in> set ms. canonical_method m \<Longrightarrow> collect (map (methodFromJson \<circ> methodToJson) ms) = Inr ms"
  by (simp add: collect_Inr)

lemma message_round_trip:
  "canonical_message m \<Longrightarrow> jsonToMessage trunc (messageTypeOf m) (messageToJson m) = Inr m"
  by (cases m)
    (auto simp: jsonToMessage_def callFromJson_def resultFromJson_def methodsResultFromJson_def
      value_string_def value_bool_def value_u64_def argsAt_def methodsAt_def object_get_put_all
      collect_Inr value_round_trip_iff[THEN iffD2] list_all_iff)

lemma value_string_respell [simp]: "value_string (map (map_prod id respell) fs) k = value_string fs k"
  by (auto simp: value_string_def object_get_respell split: option.splits json.splits)

lemma value_bool_respell [simp]: "value_bool (map (map_prod id respell) fs) k d = value_bool fs k d"
  by (auto simp: value_bool_def object_get_respell split: option.splits json.splits)

lemma value_u64_respell [simp]: "value_u64 trunc (map (map_prod id respell) fs) k = value_u64 trunc fs k"
  by (auto simp: value_u64_def object_get_respell split: option.splits json.splits)

lemma argsFromJson_respell [simp]: "argsFromJson (respell j) = argsFromJson j"
  by (cases j) (auto simp: argsFromJson_def comp_def)

lemma argsAt_respell [simp]: "argsAt (map (map_prod id respell) fs) k = argsAt fs k"
  by (simp add: argsAt_def object_get_respell split: option.splits)

lemma methodFromJson_respell [simp]: "methodFromJson (respell j) = methodFromJson j"
  by (cases j) (auto simp: methodFromJson_def)

lemma methodsAt_respell [simp]: "methodsAt (map (map_prod id respell) fs) = methodsAt fs"
  by (auto simp: methodsAt_def object_get_respell comp_def split: option.splits json.splits)

lemma jsonToMessage_respell: "jsonToMessage trunc tag (respell j) = jsonToMessage trunc tag j"
  by (cases j)
    (auto simp: jsonToMessage_def callFromJson_def resultFromJson_def methodsResultFromJson_def
      object_get_respell split: option.splits cong: if_cong)

lemma codec_round_trip:
  assumes "canonical_message m" and "codecEncode serialize m = Some bs"
    and "parse bs = Some (respell (messageToJson m))"
  shows "codecDecode trunc parse (messageTypeOf m) bs = Inr m"
  using assms by (simp add: codecDecode_def jsonToMessage_respell message_round_trip)

definition ping_message :: "nat any_message" where
  "ping_message = CallMsg \<lparr>call_id = 7, call_authToken = ''t'', call_object = ''chat'', call_method = ''send'',
     call_args = [VInt 5, VBytes [1, 2], VMap [(''a'', VNull)]], call_caller = ''{}''\<rparr>"

lemma canonical_ping: "canonical_message ping_message"
  by (simp add: ping_message_def sorted_keys_def looksTagged_def)

definition wire_keys :: "qstring list" where
  "wire_keys = [''id'', ''authToken'', ''object'', ''method'', ''args'', ''caller'', ''ok'', ''value'', ''err'',
     ''errCode'', ''event'', ''data'', ''moduleName'', ''token'', ''methods'']"

lemma value_put_other:
  assumes "k \<noteq> k'"
  shows "value_string (object_put k v fs) k' = value_string fs k'"
    and "value_bool (object_put k v fs) k' d = value_bool fs k' d"
    and "value_u64 trunc (object_put k v fs) k' = value_u64 trunc fs k'"
    and "argsAt (object_put k v fs) k' = argsAt fs k'"
  using assms by (simp_all add: value_string_def value_bool_def value_u64_def argsAt_def)

text \<open>
  A decoder reads the keys of its message and ignores the rest, so a field added by a
  newer peer does not disturb an older one; and a call without a caller document is encoded
  without that key, as it was before the field existed.
\<close>

theorem unknown_fields_are_ignored:
  assumes "k \<notin> set wire_keys"
  shows "jsonToMessage trunc tag (Object (object_put k v fs)) = jsonToMessage trunc tag (Object fs) \<and>
    (case messageToJson (CallMsg m) of Object es \<Rightarrow> object_get es ''caller'' \<noteq> None \<longleftrightarrow> call_caller m \<noteq> []
     | _ \<Rightarrow> False)"
proof -
  have ne: "k \<noteq> ''id''" "k \<noteq> ''authToken''" "k \<noteq> ''object''" "k \<noteq> ''method''" "k \<noteq> ''args''"
    "k \<noteq> ''caller''" "k \<noteq> ''ok''" "k \<noteq> ''value''" "k \<noteq> ''err''" "k \<noteq> ''errCode''" "k \<noteq> ''event''"
    "k \<noteq> ''data''" "k \<noteq> ''moduleName''" "k \<noteq> ''token''" "k \<noteq> ''methods''"
    using assms by (simp_all add: wire_keys_def)
  show ?thesis
    by (simp add: jsonToMessage_def callFromJson_def resultFromJson_def methodsResultFromJson_def
        methodsAt_def value_put_other object_get_put_all ne ne[symmetric] cong: if_cong)
qed

lemma unknown_fields_are_ignored_witness:
  "jsonToMessage (\<lambda>_. 0) 3 (Object (object_put ''zone'' Null [(''event'', Str ''e''), (''object'', Str ''o'')]) :: nat json) =
     Inr (SubscribeMsg \<lparr>sub_object = ''o'', sub_eventName = ''e''\<rparr>)"
proof -
  have "''zone'' \<notin> set wire_keys" by (simp add: wire_keys_def)
  from unknown_fields_are_ignored[OF this, of "\<lambda>_. 0" 3 Null "[(''event'', Str ''e''), (''object'', Str ''o'')]"]
  show ?thesis by (simp add: jsonToMessage_def value_string_def object_get_def)
qed

end
