(* ===== verification/Rpc_Peer.thy ===== *)
theory Rpc_Peer
  imports Rpc_Messages
begin

text \<open>
  \<open>cpp/implementations/plain/rpc_peer.{h,cpp}\<close>: the registries of one RPC conversation and the
  operations on them. Every stretch of code under \<open>m_mu\<close> is one definition (\<open>registerCall\<close>,
  \<open>claimCall\<close>, \<open>sweepPending\<close>, \<open>cancelPending\<close>, the subscription operations); the operations
  of the class compose them in the order of the code. \<open>Rpc_Peer_Threads\<close> interleaves the
  same pieces.

  Handlers, promises and callbacks are opaque values of type \<open>'h\<close>. What the peer does to
  the outside (messages for the wire, handlers invoked, calls into the incoming-call
  handler, the close) is appended to \<open>outputs\<close> in order.
\<close>

subsection \<open>State\<close>

type_synonym event_key = "qstring \<times> qstring"
type_synonym subscription_id = u64

datatype ('h, 'd) peer_output =
  Emit "'d any_message"
| Answer 'h "'d result_message"
| AnswerMethods 'h "'d methods_result_message"
| DeliverEvent 'h "'d event_message"
| Inbound "'d any_message"
| CloseTransport
| ConnectionClosed
| ReportError 'h qstring

record ('h, 'd) rpc_peer =
  hasHandler :: bool
  pendingCalls :: "(u64, 'h) qhash"
  pendingMethods :: "(u64, 'h) qhash"
  eventSubs :: "(event_key, (subscription_id \<times> 'h) list) qhash"
  subKeys :: "(subscription_id, event_key) qhash"
  nextSubId :: u64
  errorHandler :: "'h option"
  nextCallId :: u64
  stopped :: bool
  outputs :: "('h, 'd) peer_output list"

definition newPeer :: "bool \<Rightarrow> ('h, 'd) rpc_peer" where
  "newPeer h = \<lparr>hasHandler = h, pendingCalls = [], pendingMethods = [], eventSubs = [], subKeys = [],
     nextSubId = 1, errorHandler = None, nextCallId = 1, stopped = False, outputs = []\<rparr>"

definition out :: "('h, 'd) peer_output list \<Rightarrow> ('h, 'd) rpc_peer \<Rightarrow> ('h, 'd) rpc_peer" where
  "out os p = p\<lparr>outputs := outputs p @ os\<rparr>"

definition isOpen :: "('h, 'd) rpc_peer \<Rightarrow> bool" where
  "isOpen p = (\<not> stopped p)"

definition nextId :: "('h, 'd) rpc_peer \<Rightarrow> u64 \<times> ('h, 'd) rpc_peer" where
  "nextId p = (nextCallId p, p\<lparr>nextCallId := nextCallId p + 1\<rparr>)"

definition setErrorHandler :: "'h option \<Rightarrow> ('h, 'd) rpc_peer \<Rightarrow> ('h, 'd) rpc_peer" where
  "setErrorHandler h p = p\<lparr>errorHandler := h\<rparr>"

subsection \<open>The pending registries\<close>

definition pend_claim :: "u64 \<Rightarrow> (u64, 'h) qhash \<Rightarrow> 'h option \<times> (u64, 'h) qhash" where
  "pend_claim i m = (hash_find m i, hash_remove i m)"

definition registerCall :: "u64 \<Rightarrow> 'h \<Rightarrow> ('h, 'd) rpc_peer \<Rightarrow> ('h, 'd) rpc_peer" where
  "registerCall i h p = p\<lparr>pendingCalls := hash_insert i h (pendingCalls p)\<rparr>"

definition claimCall :: "u64 \<Rightarrow> ('h, 'd) rpc_peer \<Rightarrow> 'h option \<times> ('h, 'd) rpc_peer" where
  "claimCall i p = (let (h, m) = pend_claim i (pendingCalls p) in (h, p\<lparr>pendingCalls := m\<rparr>))"

definition registerMethods :: "u64 \<Rightarrow> 'h \<Rightarrow> ('h, 'd) rpc_peer \<Rightarrow> ('h, 'd) rpc_peer" where
  "registerMethods i h p = p\<lparr>pendingMethods := hash_insert i h (pendingMethods p)\<rparr>"

definition claimMethods :: "u64 \<Rightarrow> ('h, 'd) rpc_peer \<Rightarrow> 'h option \<times> ('h, 'd) rpc_peer" where
  "claimMethods i p = (let (h, m) = pend_claim i (pendingMethods p) in (h, p\<lparr>pendingMethods := m\<rparr>))"

definition cancelPending :: "u64 \<Rightarrow> ('h, 'd) rpc_peer \<Rightarrow> ('h, 'd) rpc_peer" where
  "cancelPending i p = p\<lparr>pendingCalls := hash_remove i (pendingCalls p),
     pendingMethods := hash_remove i (pendingMethods p)\<rparr>"

definition stoppedReply :: "u64 \<Rightarrow> 'd result_message" where
  "stoppedReply i = \<lparr>res_id = i, res_ok = False, res_value = VNull, res_err = ''connection stopped'',
     res_errCode = ''TRANSPORT_CLOSED''\<rparr>"

definition failReply :: "qstring \<Rightarrow> u64 \<Rightarrow> 'd result_message" where
  "failReply reason i = \<lparr>res_id = i, res_ok = False, res_value = VNull, res_err = reason,
     res_errCode = ''TRANSPORT_ERROR''\<rparr>"

definition stoppedMethodsReply :: "u64 \<Rightarrow> 'd methods_result_message" where
  "stoppedMethodsReply i = \<lparr>mres_id = i, mres_ok = False, mres_methods = [], mres_err = ''connection stopped''\<rparr>"

definition failMethodsReply :: "qstring \<Rightarrow> u64 \<Rightarrow> 'd methods_result_message" where
  "failMethodsReply reason i = \<lparr>mres_id = i, mres_ok = False, mres_methods = [], mres_err = reason\<rparr>"

subsection \<open>Calls and introspection\<close>

definition sendCallAsync :: "'d call_message \<Rightarrow> 'h option \<Rightarrow> ('h, 'd) rpc_peer \<Rightarrow> ('h, 'd) rpc_peer" where
  "sendCallAsync msg handler p = (case handler of None \<Rightarrow> p
     | Some h \<Rightarrow>
       let i = call_id msg; p1 = registerCall i h p
       in if stopped p1
          then (case claimCall i p1 of (None, p2) \<Rightarrow> p2
                | (Some mine, p2) \<Rightarrow> out [Answer mine (stoppedReply i)] p2)
          else out [Emit (CallMsg msg)] p1)"

definition sendMethods :: "methods_message \<Rightarrow> 'h \<Rightarrow> ('h, 'd) rpc_peer \<Rightarrow> ('h, 'd) rpc_peer" where
  "sendMethods msg promise p =
     (let i = mreq_id msg; p1 = registerMethods i promise p
      in if stopped p1
         then (case claimMethods i p1 of (None, p2) \<Rightarrow> p2
               | (Some mine, p2) \<Rightarrow> out [AnswerMethods mine (stoppedMethodsReply i)] p2)
         else out [Emit (MethodsMsg msg)] p1)"

subsection \<open>Subscriptions\<close>

definition subscribers :: "event_key \<Rightarrow> ('h, 'd) rpc_peer \<Rightarrow> (subscription_id \<times> 'h) list" where
  "subscribers key p = (case hash_find (eventSubs p) key of None \<Rightarrow> [] | Some subs \<Rightarrow> subs)"

definition sendSubscribe ::
  "subscribe_message \<Rightarrow> 'h \<Rightarrow> ('h, 'd) rpc_peer \<Rightarrow> subscription_id \<times> ('h, 'd) rpc_peer" where
  "sendSubscribe msg cb p =
     (let sid = nextSubId p;
          p1 = p\<lparr>nextSubId := nextSubId p + 1\<rparr>;
          key = (sub_object msg, sub_eventName msg);
          p2 = p1\<lparr>eventSubs := hash_insert key (subscribers key p1 @ [(sid, cb)]) (eventSubs p1)\<rparr>;
          p3 = p2\<lparr>subKeys := (if hash_contains (subKeys p2) sid then subKeys p2
                             else hash_insert sid key (subKeys p2))\<rparr>
      in (sid, out [Emit (SubscribeMsg msg)] p3))"

definition sendUnsubscribe :: "subscription_id \<Rightarrow> ('h, 'd) rpc_peer \<Rightarrow> ('h, 'd) rpc_peer" where
  "sendUnsubscribe sid p = (case hash_find (subKeys p) sid of None \<Rightarrow> p
     | Some key \<Rightarrow>
       let p1 = p\<lparr>subKeys := hash_remove sid (subKeys p)\<rparr>;
           wire = Emit (UnsubscribeMsg \<lparr>unsub_object = fst key, unsub_eventName = snd key\<rparr>)
       in case hash_find (eventSubs p1) key of
            None \<Rightarrow> out [wire] p1
          | Some subs \<Rightarrow>
            let subs' = filter (\<lambda>s. fst s \<noteq> sid) subs
            in if subs' \<noteq> [] then p1\<lparr>eventSubs := hash_insert key subs' (eventSubs p1)\<rparr>
               else out [wire] (p1\<lparr>eventSubs := hash_remove key (eventSubs p1)\<rparr>))"

definition sendEvent :: "'d event_message \<Rightarrow> ('h, 'd) rpc_peer \<Rightarrow> ('h, 'd) rpc_peer" where
  "sendEvent m p = out [Emit (EventMsg m)] p"

definition sendToken :: "token_message \<Rightarrow> ('h, 'd) rpc_peer \<Rightarrow> ('h, 'd) rpc_peer" where
  "sendToken m p = out [Emit (TokenMsg m)] p"

subsection \<open>Incoming messages\<close>

definition eventTargets :: "'d event_message \<Rightarrow> ('h, 'd) rpc_peer \<Rightarrow> 'h list" where
  "eventTargets m p =
     map snd (subscribers (evt_object m, evt_eventName m) p) @
     (if evt_eventName m \<noteq> [] then map snd (subscribers (evt_object m, []) p) else [])"

fun dispatchIncoming :: "'d any_message \<Rightarrow> ('h, 'd) rpc_peer \<Rightarrow> ('h, 'd) rpc_peer" where
  "dispatchIncoming (ResultMsg m) p = (case claimCall (res_id m) p of (None, p1) \<Rightarrow> p1
     | (Some h, p1) \<Rightarrow> out [Answer h m] p1)"
| "dispatchIncoming (MethodsResultMsg m) p = (case claimMethods (mres_id m) p of (None, p1) \<Rightarrow> p1
     | (Some h, p1) \<Rightarrow> out [AnswerMethods h m] p1)"
| "dispatchIncoming (EventMsg m) p = out (map (\<lambda>cb. DeliverEvent cb m) (eventTargets m p)) p"
| "dispatchIncoming m p = (if hasHandler p then out [Inbound m] p else p)"

subsection \<open>Teardown\<close>

definition sweepPending ::
  "('h, 'd) rpc_peer \<Rightarrow> (u64, 'h) qhash \<times> (u64, 'h) qhash \<times> 'h option \<times> ('h, 'd) rpc_peer" where
  "sweepPending p = (pendingCalls p, pendingMethods p, errorHandler p,
     p\<lparr>pendingCalls := [], pendingMethods := [], errorHandler := None, eventSubs := [], subKeys := []\<rparr>)"

definition fail :: "qstring \<Rightarrow> ('h, 'd) rpc_peer \<Rightarrow> ('h, 'd) rpc_peer" where
  "fail reason p =
     (if stopped p then p
      else let p1 = p\<lparr>stopped := True\<rparr>;
               (calls, methods, errCb, p2) = sweepPending p1
           in out (map (\<lambda>(i, h). Answer h (failReply reason i)) calls @
                   map (\<lambda>(i, h). AnswerMethods h (failMethodsReply reason i)) methods @
                   [CloseTransport] @
                   (if hasHandler p2 then [ConnectionClosed] else []) @
                   (case errCb of None \<Rightarrow> [] | Some h \<Rightarrow> [ReportError h reason])) p2)"

definition stop :: "qstring \<Rightarrow> ('h, 'd) rpc_peer \<Rightarrow> ('h, 'd) rpc_peer" where
  "stop reason p = fail reason p"

subsection \<open>Sequences of operations\<close>

datatype ('h, 'd) peer_op =
  OpCall "'d call_message" "'h option"
| OpMethods methods_message 'h
| OpCancel u64
| OpSubscribe subscribe_message 'h
| OpUnsubscribe subscription_id
| OpSendEvent "'d event_message"
| OpToken token_message
| OpIncoming "'d any_message"
| OpErrorHandler "'h option"
| OpStop qstring

fun peer_op_step :: "('h, 'd) peer_op \<Rightarrow> ('h, 'd) rpc_peer \<Rightarrow> ('h, 'd) rpc_peer" where
  "peer_op_step (OpCall m h) p = sendCallAsync m h p"
| "peer_op_step (OpMethods m h) p = sendMethods m h p"
| "peer_op_step (OpCancel i) p = cancelPending i p"
| "peer_op_step (OpSubscribe m cb) p = snd (sendSubscribe m cb p)"
| "peer_op_step (OpUnsubscribe sid) p = sendUnsubscribe sid p"
| "peer_op_step (OpSendEvent m) p = sendEvent m p"
| "peer_op_step (OpToken m) p = sendToken m p"
| "peer_op_step (OpIncoming m) p = dispatchIncoming m p"
| "peer_op_step (OpErrorHandler h) p = setErrorHandler h p"
| "peer_op_step (OpStop reason) p = stop reason p"

definition run_peer :: "('h, 'd) peer_op list \<Rightarrow> ('h, 'd) rpc_peer \<Rightarrow> ('h, 'd) rpc_peer" where
  "run_peer ops p = fold peer_op_step ops p"

text \<open>The host keeps one sink per event key and connection; this is its set of keys after the
  messages sent so far. It drops them all when the connection closes.\<close>

fun host_sees :: "('h, 'd) peer_output \<Rightarrow> event_key set \<Rightarrow> event_key set" where
  "host_sees (Emit (SubscribeMsg m)) ks = insert (sub_object m, sub_eventName m) ks"
| "host_sees (Emit (UnsubscribeMsg m)) ks = ks - {(unsub_object m, unsub_eventName m)}"
| "host_sees CloseTransport ks = {}"
| "host_sees _ ks = ks"

definition host_view :: "('h, 'd) rpc_peer \<Rightarrow> event_key set" where
  "host_view p = fold host_sees (outputs p) {}"

subsection \<open>The subscription registry\<close>

text \<open>
  The forward and the reverse index agree, a key that is present has a subscriber, ids are
  used once and lie below the next one, and the host is subscribed to exactly the keys that
  have a local subscriber.
\<close>

definition subs_inv :: "nat \<Rightarrow> ('h, 'd) rpc_peer \<Rightarrow> bool" where
  "subs_inv n p =
     (unat (nextSubId p) = Suc n \<and>
      (\<forall>key. distinct (map fst (subscribers key p))) \<and>
      (\<forall>key. hash_find (eventSubs p) key \<noteq> Some []) \<and>
      (\<forall>sid key. hash_find (subKeys p) sid = Some key \<longleftrightarrow> sid \<in> fst ` set (subscribers key p)) \<and>
      (\<forall>sid. hash_contains (subKeys p) sid \<longrightarrow> unat sid \<le> n) \<and>
      (\<forall>key. key \<in> host_view p \<longleftrightarrow> subscribers key p \<noteq> []))"

lemma out_fields [simp]:
  "hasHandler (out os p) = hasHandler p" "pendingCalls (out os p) = pendingCalls p"
  "pendingMethods (out os p) = pendingMethods p" "eventSubs (out os p) = eventSubs p"
  "subKeys (out os p) = subKeys p" "nextSubId (out os p) = nextSubId p"
  "errorHandler (out os p) = errorHandler p" "stopped (out os p) = stopped p"
  "outputs (out os p) = outputs p @ os"
  by (simp_all add: out_def)

lemma subscribers_eq: "eventSubs p = eventSubs q \<Longrightarrow> subscribers key p = subscribers key q"
  by (simp add: subscribers_def)

declare split_paired_All [simp del]

lemma subs_inv_new: "subs_inv 0 (newPeer h)"
  by (simp add: subs_inv_def newPeer_def subscribers_def host_view_def)

text \<open>Operations that do not touch the registry and send no subscription message.\<close>

lemma subs_inv_frame:
  assumes "subs_inv n p" and "nextSubId q = nextSubId p" and "eventSubs q = eventSubs p"
    and "subKeys q = subKeys p" and "host_view q = host_view p"
  shows "subs_inv n q"
proof -
  have "subscribers key q = subscribers key p" for key by (rule subscribers_eq) (rule assms(3))
  with assms show ?thesis by (simp add: subs_inv_def)
qed

lemma host_view_out [simp]:
  "host_view (out os p) = fold host_sees os (host_view p)"
  by (simp add: host_view_def)

lemma fold_host_sees_other:
  "(\<And>x ks. host_sees (f x) ks = ks) \<Longrightarrow> fold host_sees (map f xs) ks = ks"
  by (induction xs) auto

lemma host_view_update [simp]:
  "host_view (p\<lparr>pendingCalls := c\<rparr>) = host_view p" "host_view (p\<lparr>pendingMethods := m\<rparr>) = host_view p"
  "host_view (p\<lparr>eventSubs := e\<rparr>) = host_view p" "host_view (p\<lparr>subKeys := k\<rparr>) = host_view p"
  "host_view (p\<lparr>nextSubId := i\<rparr>) = host_view p" "host_view (p\<lparr>errorHandler := h\<rparr>) = host_view p"
  "host_view (p\<lparr>stopped := b\<rparr>) = host_view p"
  by (simp_all add: host_view_def)

lemma subs_inv_subscribe:
  assumes inv: "subs_inv n p" and n: "Suc (Suc n) < 2 ^ 64"
  shows "subs_inv (Suc n) (snd (sendSubscribe msg cb p))"
proof -
  let ?sid = "nextSubId p" and ?key = "(sub_object msg, sub_eventName msg)"
  let ?q = "snd (sendSubscribe msg cb p)"
  have succ: "unat (nextSubId p + 1) = Suc (Suc n)"
    using inv n by (simp add: subs_inv_def unat_word_ariths)
  have fresh: "\<not> hash_contains (subKeys p) ?sid"
    using inv by (auto simp: subs_inv_def)
  then have unused: "?sid \<notin> fst ` set (subscribers key p)" for key
  proof -
    from inv have "hash_find (subKeys p) ?sid = Some key \<longleftrightarrow> ?sid \<in> fst ` set (subscribers key p)"
      unfolding subs_inv_def by blast
    with fresh show ?thesis by (metis hash_contains_def option.distinct(1))
  qed
  have subs: "subscribers key ?q = (if key = ?key then subscribers ?key p @ [(?sid, cb)] else subscribers key p)" for key
    by (simp add: sendSubscribe_def Let_def subscribers_def)
  have keys: "hash_find (subKeys ?q) sid = (if sid = ?sid then Some ?key else hash_find (subKeys p) sid)" for sid
    using fresh by (simp add: sendSubscribe_def Let_def)
  have view: "host_view ?q = insert ?key (host_view p)"
    by (simp add: sendSubscribe_def Let_def)
  have never: "hash_find (eventSubs ?q) key \<noteq> Some []" for key
    using inv by (simp add: sendSubscribe_def Let_def subs_inv_def)
  have nxt: "nextSubId ?q = nextSubId p + 1" by (simp add: sendSubscribe_def Let_def)
  have bound: "hash_contains (subKeys ?q) i \<Longrightarrow> unat i \<le> Suc n" for i
  proof -
    assume "hash_contains (subKeys ?q) i"
    then have "i = ?sid \<or> hash_contains (subKeys p) i"
      unfolding hash_contains_def keys by (auto split: if_splits)
    with inv show "unat i \<le> Suc n" unfolding subs_inv_def by (auto intro: le_SucI)
  qed
  show ?thesis
    unfolding subs_inv_def nxt succ subs view
    using inv unused never bound
    by (auto simp: subs_inv_def keys split: if_splits)
qed

lemma subs_inv_unsubscribe:
  assumes inv: "subs_inv n p"
  shows "subs_inv n (sendUnsubscribe sid p)"
proof (cases "hash_find (subKeys p) sid")
  case None
  with inv show ?thesis by (simp add: sendUnsubscribe_def)
next
  case (Some key)
  let ?q = "sendUnsubscribe sid p" and ?subs' = "filter (\<lambda>s. fst s \<noteq> sid) (subscribers key p)"
  have iff: "hash_find (subKeys p) s = Some k \<longleftrightarrow> s \<in> fst ` set (subscribers k p)" for s k
    using inv unfolding subs_inv_def by blast
  from Some iff have "sid \<in> fst ` set (subscribers key p)" by blast
  then obtain subs where found: "hash_find (eventSubs p) key = Some subs" and s: "subscribers key p = subs"
    by (cases "hash_find (eventSubs p) key") (auto simp: subscribers_def)
  have other: "sid \<notin> fst ` set (subscribers k p)" if "k \<noteq> key" for k
    using iff[of sid k] Some that by simp
  have subs: "subscribers k ?q = (if k = key then ?subs' else subscribers k p)" for k
    by (simp add: sendUnsubscribe_def Some found Let_def subscribers_def)
  have keys: "hash_find (subKeys ?q) i = (if i = sid then None else hash_find (subKeys p) i)" for i
    by (simp add: sendUnsubscribe_def Some found Let_def)
  have view: "host_view ?q = (if ?subs' = [] then host_view p - {key} else host_view p)"
    by (simp add: sendUnsubscribe_def Some found Let_def s)
  have never: "hash_find (eventSubs ?q) k \<noteq> Some []" for k
    using inv by (simp add: sendUnsubscribe_def Some found Let_def subs_inv_def)
  have nxt: "nextSubId ?q = nextSubId p" by (simp add: sendUnsubscribe_def Some found Let_def)
  have iff': "hash_find (subKeys ?q) i = Some k \<longleftrightarrow> i \<in> fst ` set (subscribers k ?q)" for i k
    using iff[of i k] other[of k] by (auto simp: keys subs)
  have bound: "hash_contains (subKeys ?q) i \<Longrightarrow> unat i \<le> n" for i
    using inv by (auto simp: subs_inv_def hash_contains_def keys split: if_splits)
  show ?thesis
    unfolding subs_inv_def nxt
    using inv iff' bound never
    by (auto simp: subs_inv_def view subs distinct_map_filter)
qed

lemma fold_answers:
  "fold host_sees (map (\<lambda>(i, h). Answer h (f i)) xs) ks = ks"
  "fold host_sees (map (\<lambda>(i, h). AnswerMethods h (g i)) xs) ks = ks"
  by (induction xs) auto

lemma subs_inv_fail:
  assumes "subs_inv n p"
  shows "subs_inv n (fail reason p)"
proof (cases "stopped p")
  case False
  have "fold host_sees (errs :: ('a, 'b) peer_output list) {} = {}"
    if "errs = [] \<or> (\<exists>h. errs = [ReportError h reason])" for errs
    using that by auto
  then have "host_view (fail reason p) = {}"
    using False by (auto simp: fail_def sweepPending_def fold_answers split: option.split)
  moreover have "eventSubs (fail reason p) = []" "subKeys (fail reason p) = []"
    "nextSubId (fail reason p) = nextSubId p"
    using False by (simp_all add: fail_def sweepPending_def)
  ultimately show ?thesis
    using assms by (simp add: subs_inv_def subscribers_def)
qed (use assms in \<open>simp add: fail_def\<close>)

lemma registry_claims [simp]:
  "claimCall i p = (hash_find (pendingCalls p) i, p\<lparr>pendingCalls := hash_remove i (pendingCalls p)\<rparr>)"
  "claimMethods i p = (hash_find (pendingMethods p) i, p\<lparr>pendingMethods := hash_remove i (pendingMethods p)\<rparr>)"
  by (simp_all add: claimCall_def claimMethods_def pend_claim_def)

lemma subs_inv_step:
  assumes "subs_inv n p" and "Suc (Suc n) < 2 ^ 64"
  shows "subs_inv n (peer_op_step oper p) \<or> subs_inv (Suc n) (peer_op_step oper p)"
proof (cases oper)
  case (OpSubscribe m cb)
  then show ?thesis using subs_inv_subscribe[OF assms] by simp
next
  case (OpUnsubscribe sid)
  then show ?thesis using subs_inv_unsubscribe[OF assms(1)] by simp
next
  case (OpStop r)
  then show ?thesis using subs_inv_fail[OF assms(1)] by (simp add: stop_def)
next
  case (OpCall m h)
  have "subs_inv n (sendCallAsync m h p)"
    by (rule subs_inv_frame[OF assms(1)])
      (auto simp: sendCallAsync_def registerCall_def Let_def split: option.splits)
  with OpCall show ?thesis by simp
next
  case (OpMethods m h)
  have "subs_inv n (sendMethods m h p)"
    by (rule subs_inv_frame[OF assms(1)])
      (auto simp: sendMethods_def registerMethods_def Let_def split: option.splits)
  with OpMethods show ?thesis by simp
next
  case (OpIncoming m)
  have "subs_inv n (dispatchIncoming m p)"
    by (rule subs_inv_frame[OF assms(1)]; cases m)
      (auto simp: fold_host_sees_other split: option.splits)
  with OpIncoming show ?thesis by simp
next
  case (OpCancel i)
  have "subs_inv n (cancelPending i p)"
    by (rule subs_inv_frame[OF assms(1)]) (auto simp: cancelPending_def)
  with OpCancel show ?thesis by simp
next
  case (OpSendEvent m)
  have "subs_inv n (sendEvent m p)"
    by (rule subs_inv_frame[OF assms(1)]) (auto simp: sendEvent_def)
  with OpSendEvent show ?thesis by simp
next
  case (OpToken m)
  have "subs_inv n (sendToken m p)"
    by (rule subs_inv_frame[OF assms(1)]) (auto simp: sendToken_def)
  with OpToken show ?thesis by simp
next
  case (OpErrorHandler h)
  have "subs_inv n (setErrorHandler h p)"
    by (rule subs_inv_frame[OF assms(1)]) (auto simp: setErrorHandler_def)
  with OpErrorHandler show ?thesis by simp
qed

lemma subs_inv_run:
  "Suc (length ops) < 2 ^ 64 \<Longrightarrow> \<exists>n \<le> length ops. subs_inv n (run_peer ops (newPeer h))"
proof (induction ops rule: rev_induct)
  case Nil
  then show ?case using subs_inv_new by (auto simp: run_peer_def)
next
  case (snoc oper ops)
  then obtain n where "n \<le> length ops" "subs_inv n (run_peer ops (newPeer h))" by auto
  with subs_inv_step[of n "run_peer ops (newPeer h)" oper] snoc.prems show ?case
    by (auto simp: run_peer_def intro: exI[of _ n] exI[of _ "Suc n"])
qed

subsection \<open>What the peer guarantees\<close>


definition two_handles :: "(nat, nat) peer_op list" where
  "two_handles = [OpSubscribe \<lparr>sub_object = ''o'', sub_eventName = ''e''\<rparr> 1,
     OpSubscribe \<lparr>sub_object = ''o'', sub_eventName = ''e''\<rparr> 2, OpUnsubscribe 1]"


text \<open>
  One Event message reaches every local subscription of that event and every wildcard
  subscription of its object, in registration order, each exactly once, also when the
  event's own name is empty and its key is the wildcard key; nothing else changes.
\<close>

theorem event_reaches_each_subscriber_once:
  assumes "Suc (length ops) < 2 ^ 64" and "p = run_peer ops (newPeer h)"
    and "targets = subscribers (evt_object m, evt_eventName m) p @
       (if evt_eventName m \<noteq> [] then subscribers (evt_object m, []) p else [])"
  shows "dispatchIncoming (EventMsg m) p = out (map (\<lambda>(sid, cb). DeliverEvent cb m) targets) p \<and>
    distinct (map fst targets) \<and>
    (\<forall>sid. sid \<in> fst ` set targets \<longleftrightarrow>
       hash_find (subKeys p) sid \<in> {Some (evt_object m, evt_eventName m), Some (evt_object m, [])})"
proof -
  obtain n where inv: "subs_inv n p" using subs_inv_run[OF assms(1), of h] assms(2) by blast
  have iff: "hash_find (subKeys p) sid = Some key \<longleftrightarrow> sid \<in> fst ` set (subscribers key p)" for sid key
    using inv unfolding subs_inv_def by blast
  have dist: "distinct (map fst (subscribers key p))" for key using inv unfolding subs_inv_def by blast
  have "fst ` set (subscribers k p) \<inter> fst ` set (subscribers k' p) = {}" if "k \<noteq> k'" for k k'
    using iff[of _ k] iff[of _ k'] that by (metis disjoint_iff option.inject)
  with dist have "distinct (map fst targets)"
    by (auto simp: assms(3))
  moreover have "dispatchIncoming (EventMsg m) p = out (map (\<lambda>(sid, cb). DeliverEvent cb m) targets) p"
    by (simp add: eventTargets_def assms(3) comp_def case_prod_unfold)
  moreover have "sid \<in> fst ` set targets \<longleftrightarrow>
      hash_find (subKeys p) sid \<in> {Some (evt_object m, evt_eventName m), Some (evt_object m, [])}" for sid
    using iff by (cases "evt_eventName m = []") (auto simp: assms(3) image_Un)
  ultimately show ?thesis by blast
qed

lemma event_reaches_each_subscriber_once_witness:
  "dispatchIncoming (EventMsg \<lparr>evt_object = ''o'', evt_eventName = ''e'', evt_data = []\<rparr>)
     (run_peer two_handles (newPeer True)) =
   out [DeliverEvent 2 \<lparr>evt_object = ''o'', evt_eventName = ''e'', evt_data = []\<rparr>]
     (run_peer two_handles (newPeer True))"
proof -
  have "Suc (length two_handles) < 2 ^ 64" by (simp add: two_handles_def)
  note * = event_reaches_each_subscriber_once[OF this refl refl, where h = True
      and m = "\<lparr>evt_object = ''o'', evt_eventName = ''e'', evt_data = []\<rparr>", THEN conjunct1]
  show ?thesis
    unfolding *
    by (simp add: two_handles_def run_peer_def newPeer_def sendSubscribe_def sendUnsubscribe_def
        subscribers_def Let_def out_def)
qed

text \<open>
  The first teardown answers every pending call and every pending introspection once,
  under its own id, closes the transport, tells the incoming-call handler and reports the
  error once; nothing stays registered. A second teardown does nothing, and a call made
  afterwards is answered at once with a transport error and leaves nothing pending.
\<close>

theorem teardown_answers_everyone:
  assumes "\<not> stopped p"
  shows "pendingCalls (fail reason p) = [] \<and> pendingMethods (fail reason p) = [] \<and> stopped (fail reason p) \<and>
    outputs (fail reason p) = outputs p @
      map (\<lambda>(i, h). Answer h (failReply reason i)) (pendingCalls p) @
      map (\<lambda>(i, h). AnswerMethods h (failMethodsReply reason i)) (pendingMethods p) @
      [CloseTransport] @ (if hasHandler p then [ConnectionClosed] else []) @
      (case errorHandler p of None \<Rightarrow> [] | Some h \<Rightarrow> [ReportError h reason]) \<and>
    fail reason' (fail reason p) = fail reason p \<and>
    sendCallAsync m (Some h) (fail reason p) = out [Answer h (stoppedReply (call_id m))] (fail reason p) \<and>
    sendMethods mm h (fail reason p) = out [AnswerMethods h (stoppedMethodsReply (mreq_id mm))] (fail reason p)"
proof -
  have fields: "pendingCalls (fail reason p) = []" "pendingMethods (fail reason p) = []" "stopped (fail reason p)"
    using assms by (simp_all add: fail_def sweepPending_def)
  have noop: "q\<lparr>pendingCalls := []\<rparr> = q" if "pendingCalls q = []" for q :: "('a, 'b) rpc_peer"
    using that by (cases q) simp
  have noop': "q\<lparr>pendingMethods := []\<rparr> = q" if "pendingMethods q = []" for q :: "('a, 'b) rpc_peer"
    using that by (cases q) simp
  have "hash_remove i (hash_insert i h []) = []" for i :: u64 and h :: 'a
    by (simp add: hash_remove_def hash_insert_def)
  with fields have "sendCallAsync m (Some h) (fail reason p) = out [Answer h (stoppedReply (call_id m))] (fail reason p)"
      "sendMethods mm h (fail reason p) = out [AnswerMethods h (stoppedMethodsReply (mreq_id mm))] (fail reason p)"
    by (simp_all add: sendCallAsync_def sendMethods_def registerCall_def registerMethods_def Let_def noop noop')
  moreover have "fail reason' (fail reason p) = fail reason p"
    by (subst fail_def) (simp add: fields)
  moreover have "outputs (fail reason p) = outputs p @
      map (\<lambda>(i, h). Answer h (failReply reason i)) (pendingCalls p) @
      map (\<lambda>(i, h). AnswerMethods h (failMethodsReply reason i)) (pendingMethods p) @
      [CloseTransport] @ (if hasHandler p then [ConnectionClosed] else []) @
      (case errorHandler p of None \<Rightarrow> [] | Some h \<Rightarrow> [ReportError h reason])"
    using assms by (simp add: fail_def sweepPending_def)
  ultimately show ?thesis using fields by blast
qed

lemma teardown_answers_everyone_witness:
  "outputs (fail ''reset'' ((newPeer True :: (nat, nat) rpc_peer)\<lparr>pendingCalls := [(7, 5)]\<rparr>)) =
     [Answer 5 (failReply ''reset'' 7), CloseTransport, ConnectionClosed]"
  using teardown_answers_everyone[of "(newPeer True :: (nat, nat) rpc_peer)\<lparr>pendingCalls := [(7, 5)]\<rparr>" "''reset''"]
  by (simp add: newPeer_def)

end
