(* ===== verification/Table_Multisets.thy ===== *)
theory Table_Multisets
  imports Prelude "HOL-Library.Multiset"
begin

text \<open>
  The entries of a hash table as a multiset: what an insertion adds and a removal takes away.
  The accounts of waiting handlers, queued calls and cached handles are kept in these terms.
\<close>

lemma mset_hash_insert_new:
  "i \<notin> fst ` set m \<Longrightarrow> mset (hash_insert i h m) = add_mset (i, h) (mset m)"
  by (induction m) (auto simp: hash_insert_def)

lemma hash_remove_missing: "hash_find m i = None \<Longrightarrow> hash_remove i m = m"
  by (simp add: hash_remove_def delete_id map_of_eq_None_iff)

lemma mset_hash_remove:
  "hash_wf m \<Longrightarrow> hash_find m i = Some h \<Longrightarrow> mset m = add_mset (i, h) (mset (hash_remove i m))"
proof (induction m)
  case (Cons e m)
  show ?case
  proof (cases "fst e = i")
    case True
    with Cons.prems have "hash_find m i = None" by (simp add: hash_wf_def map_of_eq_None_iff)
    with True Cons.prems show ?thesis
      by (cases e) (simp add: hash_remove_def delete_id map_of_eq_None_iff)
  next
    case False
    with Cons have "mset m = add_mset (i, h) (mset (hash_remove i m))" by (cases e) (simp add: hash_wf_def)
    with False show ?thesis by (cases e) (simp add: hash_remove_def)
  qed
qed simp

lemma mset_hash_insert: "hash_wf m \<Longrightarrow> mset (hash_insert i v m) = add_mset (i, v) (mset (hash_remove i m))"
proof (induction m)
  case (Cons e m)
  show ?case
  proof (cases "fst e = i")
    case True
    with Cons.prems have "hash_remove i m = m"
      by (intro hash_remove_missing) (simp add: hash_wf_def map_of_eq_None_iff)
    with True Cons.prems show ?thesis by (cases e) (simp add: hash_insert_def hash_remove_def)
  next
    case False
    with Cons show ?thesis by (cases e) (simp add: hash_wf_def hash_insert_def hash_remove_def)
  qed
qed (simp add: hash_insert_def hash_remove_def)

lemma hash_remove_insert: "hash_find m i = None \<Longrightarrow> hash_remove i (hash_insert i v m) = m"
  using hash_remove_missing[of m i] by (simp add: hash_remove_def hash_insert_def delete_update_same)

lemma removed_key: "i \<notin> fst ` set (hash_remove i m)"
proof -
  have "i \<notin> set (map fst (AList.delete i m))" by (simp only: delete_keys) simp
  then show ?thesis by (simp add: hash_remove_def)
qed

end
