(* ===== verification/Rpc_Peer_Threads.thy ===== *)
theory Rpc_Peer_Threads
  imports Rpc_Peer Table_Multisets
begin

text \<open>
  The pieces of \<open>Rpc_Peer\<close> interleaved as threads interleave them: any number of calls and
  introspections being sent, replies arriving, deadlines cancelling, and one teardown
  winning the exchange on \<open>m_stopped\<close>. A step is one stretch under \<open>m_mu\<close>, one access to
  \<open>m_stopped\<close>, or one handler invocation outside the lock.

  A \<open>lane\<close> follows one of the two registries: where each sender stands in its
  register-then-re-check sequence, the handlers taken out and not invoked yet, and the
  history (issued, answered, cancelled) that the theorems speak of. Ids are fresh per
  lane, as \<open>nextId\<close> hands them out.
\<close>

subsection \<open>Lanes\<close>

datatype sender_pc = Registered | SawStopped | SawOpen

record ('h, 'r) lane =
  senders :: "(u64, sender_pc) qhash"
  issued :: "(u64 \<times> 'h) list"
  inflight :: "('h \<times> 'r) list"
  answered :: "('h \<times> 'r) list"
  cancelled :: "(u64 \<times> 'h) list"

definition newLane :: "('h, 'r) lane" where
  "newLane = \<lparr>senders = [], issued = [], inflight = [], answered = [], cancelled = []\<rparr>"

definition lane_start :: "u64 \<Rightarrow> 'h \<Rightarrow> ('h, 'r) lane \<Rightarrow> ('h, 'r) lane" where
  "lane_start i h l = l\<lparr>senders := hash_insert i Registered (senders l), issued := issued l @ [(i, h)]\<rparr>"

definition lane_check :: "bool \<Rightarrow> u64 \<Rightarrow> ('h, 'r) lane \<Rightarrow> ('h, 'r) lane" where
  "lane_check st i l = l\<lparr>senders := hash_insert i (if st then SawStopped else SawOpen) (senders l)\<rparr>"

definition lane_leave :: "u64 \<Rightarrow> ('h, 'r) lane \<Rightarrow> ('h, 'r) lane" where
  "lane_leave i l = l\<lparr>senders := hash_remove i (senders l)\<rparr>"

definition lane_take :: "'h option \<Rightarrow> 'r \<Rightarrow> ('h, 'r) lane \<Rightarrow> ('h, 'r) lane" where
  "lane_take claim r l = (case claim of None \<Rightarrow> l | Some h \<Rightarrow> l\<lparr>inflight := inflight l @ [(h, r)]\<rparr>)"

definition lane_drop :: "u64 \<Rightarrow> 'h option \<Rightarrow> ('h, 'r) lane \<Rightarrow> ('h, 'r) lane" where
  "lane_drop i claim l = (case claim of None \<Rightarrow> l | Some h \<Rightarrow> l\<lparr>cancelled := cancelled l @ [(i, h)]\<rparr>)"

definition lane_deliver :: "nat \<Rightarrow> ('h, 'r) lane \<Rightarrow> ('h, 'r) lane" where
  "lane_deliver n l = l\<lparr>inflight := take n (inflight l) @ drop (Suc n) (inflight l),
     answered := answered l @ [inflight l ! n]\<rparr>"

definition lane_sweep :: "(u64 \<Rightarrow> 'r) \<Rightarrow> (u64, 'h) qhash \<Rightarrow> ('h, 'r) lane \<Rightarrow> ('h, 'r) lane" where
  "lane_sweep reply pending l = l\<lparr>inflight := inflight l @ map (\<lambda>(i, h). (h, reply i)) pending\<rparr>"

subsection \<open>Threads\<close>

datatype fail_phase = NotFailed | Won qstring | Swept

record ('h, 'd) peer_threads =
  peer :: "('h, 'd) rpc_peer"
  calls :: "('h, 'd result_message) lane"
  methods :: "('h, 'd methods_result_message) lane"
  failPhase :: fail_phase

definition newThreads :: "bool \<Rightarrow> ('h, 'd) peer_threads" where
  "newThreads h = \<lparr>peer = newPeer h, calls = newLane, methods = newLane, failPhase = NotFailed\<rparr>"

inductive peer_step :: "('h, 'd) peer_threads \<Rightarrow> ('h, 'd) peer_threads \<Rightarrow> bool" where
  StartCall: "i \<notin> fst ` set (issued (calls w)) \<Longrightarrow>
    peer_step w (w\<lparr>peer := registerCall i h (peer w), calls := lane_start i h (calls w)\<rparr>)"
| CheckCall: "hash_find (senders (calls w)) i = Some Registered \<Longrightarrow>
    peer_step w (w\<lparr>calls := lane_check (stopped (peer w)) i (calls w)\<rparr>)"
| ReclaimCall: "hash_find (senders (calls w)) i = Some SawStopped \<Longrightarrow> claimCall i (peer w) = (c, p) \<Longrightarrow>
    peer_step w (w\<lparr>peer := p, calls := lane_leave i (lane_take c (stoppedReply i) (calls w))\<rparr>)"
| EmitCall: "hash_find (senders (calls w)) i = Some SawOpen \<Longrightarrow> call_id m = i \<Longrightarrow>
    peer_step w (w\<lparr>peer := out [Emit (CallMsg m)] (peer w), calls := lane_leave i (calls w)\<rparr>)"
| ResultArrives: "claimCall (res_id r) (peer w) = (c, p) \<Longrightarrow>
    peer_step w (w\<lparr>peer := p, calls := lane_take c r (calls w)\<rparr>)"
| DeliverResult: "n < length (inflight (calls w)) \<Longrightarrow>
    peer_step w (w\<lparr>peer := out [Answer (fst (inflight (calls w) ! n)) (snd (inflight (calls w) ! n))] (peer w),
                   calls := lane_deliver n (calls w)\<rparr>)"
| StartMethods: "i \<notin> fst ` set (issued (methods w)) \<Longrightarrow>
    peer_step w (w\<lparr>peer := registerMethods i h (peer w), methods := lane_start i h (methods w)\<rparr>)"
| CheckMethods: "hash_find (senders (methods w)) i = Some Registered \<Longrightarrow>
    peer_step w (w\<lparr>methods := lane_check (stopped (peer w)) i (methods w)\<rparr>)"
| ReclaimMethods: "hash_find (senders (methods w)) i = Some SawStopped \<Longrightarrow> claimMethods i (peer w) = (c, p) \<Longrightarrow>
    peer_step w (w\<lparr>peer := p, methods := lane_leave i (lane_take c (stoppedMethodsReply i) (methods w))\<rparr>)"
| EmitMethods: "hash_find (senders (methods w)) i = Some SawOpen \<Longrightarrow> mreq_id mm = i \<Longrightarrow>
    peer_step w (w\<lparr>peer := out [Emit (MethodsMsg mm)] (peer w), methods := lane_leave i (methods w)\<rparr>)"
| MethodsResultArrives: "claimMethods (mres_id mr) (peer w) = (c, p) \<Longrightarrow>
    peer_step w (w\<lparr>peer := p, methods := lane_take c mr (methods w)\<rparr>)"
| DeliverMethods: "n < length (inflight (methods w)) \<Longrightarrow>
    peer_step w (w\<lparr>peer := out [AnswerMethods (fst (inflight (methods w) ! n)) (snd (inflight (methods w) ! n))] (peer w),
                   methods := lane_deliver n (methods w)\<rparr>)"
| Cancel: "peer_step w (w\<lparr>peer := cancelPending i (peer w),
    calls := lane_drop i (hash_find (pendingCalls (peer w)) i) (calls w),
    methods := lane_drop i (hash_find (pendingMethods (peer w)) i) (methods w)\<rparr>)"
| FailWins: "\<not> stopped (peer w) \<Longrightarrow>
    peer_step w (w\<lparr>peer := (peer w)\<lparr>stopped := True\<rparr>, failPhase := Won reason\<rparr>)"
| FailSweeps: "failPhase w = Won reason \<Longrightarrow> sweepPending (peer w) = (cs, ms, e, p) \<Longrightarrow>
    peer_step w (w\<lparr>peer := p, calls := lane_sweep (failReply reason) cs (calls w),
                   methods := lane_sweep (failMethodsReply reason) ms (methods w), failPhase := Swept\<rparr>)"

inductive peer_reach :: "bool \<Rightarrow> ('h, 'd) peer_threads \<Rightarrow> bool" for h where
  start: "peer_reach h (newThreads h)"
| step: "peer_reach h w \<Longrightarrow> peer_step w w' \<Longrightarrow> peer_reach h w'"

subsection \<open>Accounting\<close>

text \<open>
  Every call issued is in exactly one place: still registered, taken out and about to be
  answered, answered, or cancelled. Once the teardown has swept, a call can only be
  registered while its own sender has yet to look at \<open>m_stopped\<close> or to reclaim it.
\<close>

definition by_id :: "('r \<Rightarrow> u64) \<Rightarrow> ('h \<times> 'r) list \<Rightarrow> (u64 \<times> 'h) multiset" where
  "by_id rid xs = mset (map (\<lambda>(h, r). (rid r, h)) xs)"

definition lane_ok :: "('r \<Rightarrow> u64) \<Rightarrow> (u64 \<times> 'h) multiset \<Rightarrow> bool \<Rightarrow> ('h, 'r) lane \<Rightarrow> bool" where
  "lane_ok rid E swept l =
     (distinct (map fst (issued l)) \<and>
      E + by_id rid (inflight l) + by_id rid (answered l) + mset (cancelled l) = mset (issued l) \<and>
      (swept \<longrightarrow> (\<forall>i \<in> fst ` set_mset E. hash_find (senders l) i \<in> {Some Registered, Some SawStopped})))"

lemma by_id_simps [simp]:
  "by_id rid [] = {#}" "by_id rid (xs @ ys) = by_id rid xs + by_id rid ys"
  "by_id rid (x # xs) = add_mset (rid (snd x), fst x) (by_id rid xs)"
  by (simp_all add: by_id_def split_beta)

lemma lane_ok_new: "lane_ok rid {#} swept newLane"
  by (simp add: lane_ok_def newLane_def)

lemma lane_ok_entries_issued: "lane_ok rid E sw l \<Longrightarrow> e \<in># E \<Longrightarrow> e \<in> set (issued l)"
  by (metis lane_ok_def set_mset_mset union_iff)

lemma lane_ok_check:
  assumes "lane_ok rid E sw l" and "sw \<longrightarrow> st"
  shows "lane_ok rid E sw (lane_check st i l)"
  using assms by (auto simp: lane_ok_def lane_check_def)

lemma lane_ok_emit:
  assumes "lane_ok rid E sw l" and "hash_find (senders l) i = Some SawOpen"
  shows "lane_ok rid E sw (lane_leave i l)"
  using assms by (fastforce simp: lane_ok_def lane_leave_def)

lemma by_id_deliver:
  assumes "n < length xs"
  shows "by_id rid (take n xs @ drop (Suc n) xs) + by_id rid [xs ! n] = by_id rid xs"
proof -
  have "by_id rid xs = by_id rid (take n xs @ [xs ! n] @ drop (Suc n) xs)"
    using assms by (simp add: id_take_nth_drop[symmetric])
  then show ?thesis by (simp add: ac_simps)
qed

lemma lane_ok_deliver:
  assumes "lane_ok rid E sw l" and "n < length (inflight l)"
  shows "lane_ok rid E sw (lane_deliver n l)"
  using assms(1) unfolding lane_ok_def by_id_deliver[OF assms(2), of rid, symmetric]
  by (auto simp: lane_deliver_def ac_simps)

lemma lane_ok_sweep:
  assumes "lane_ok rid (mset pending) sw l" and "\<And>i. rid (reply i) = i"
  shows "lane_ok rid {#} sw' (lane_sweep reply pending l)"
proof -
  have "by_id rid (map (\<lambda>(i, h). (h, reply i)) pending) = mset pending"
    by (simp add: by_id_def comp_def split_beta assms(2))
  with assms(1) show ?thesis by (auto simp: lane_ok_def lane_sweep_def ac_simps)
qed

subsection \<open>The contract of a pending registry\<close>

text \<open>
  What a lane needs of the registry behind it: registering adds one entry, and claiming by
  id takes out the entry of that id or finds none. It is proved here that under this contract
  sending, replying, cancelling and reclaiming keep the accounts.
\<close>

locale pending_registry =
  fixes reg :: "u64 \<Rightarrow> 'h \<Rightarrow> 'm \<Rightarrow> 'm"
    and claim :: "u64 \<Rightarrow> 'm \<Rightarrow> 'h option \<times> 'm"
    and entries :: "'m \<Rightarrow> (u64 \<times> 'h) multiset"
    and wf :: "'m \<Rightarrow> bool"
  assumes reg_adds: "wf m \<Longrightarrow> i \<notin> fst ` set_mset (entries m) \<Longrightarrow>
      wf (reg i h m) \<and> entries (reg i h m) = add_mset (i, h) (entries m)"
    and claim_takes: "wf m \<Longrightarrow> claim i m = (Some h, m') \<Longrightarrow>
      wf m' \<and> entries m = add_mset (i, h) (entries m') \<and> i \<notin> fst ` set_mset (entries m')"
    and claim_misses: "wf m \<Longrightarrow> claim i m = (None, m') \<Longrightarrow>
      wf m' \<and> entries m' = entries m \<and> i \<notin> fst ` set_mset (entries m)"
begin

lemma claim_gone:
  assumes "wf m" and "claim i m = (c, m')"
  shows "i \<notin> fst ` set_mset (entries m')"
proof (cases c)
  case None
  with assms claim_misses[of m i m'] show ?thesis by simp
next
  case (Some h)
  with assms claim_takes[of m i h m'] show ?thesis by simp
qed

lemma start_ok:
  assumes "wf m" and "lane_ok rid (entries m) sw l" and "i \<notin> fst ` set (issued l)"
  shows "wf (reg i h m) \<and> lane_ok rid (entries (reg i h m)) sw (lane_start i h l)"
proof -
  have "i \<notin> fst ` set_mset (entries m)"
    using assms(3) lane_ok_entries_issued[OF assms(2)] by force
  from reg_adds[OF assms(1) this] assms(2,3) show ?thesis
    by (auto simp: lane_ok_def lane_start_def)
qed

lemma arrive_ok:
  assumes "wf m" and "lane_ok rid (entries m) sw l" and "claim (rid r) m = (c, m')"
  shows "wf m' \<and> lane_ok rid (entries m') sw (lane_take c r l)"
proof (cases c)
  case None
  with assms claim_misses show ?thesis by (simp add: lane_take_def)
next
  case (Some h)
  with assms claim_takes[of m "rid r" h m'] show ?thesis
    by (auto simp: lane_ok_def lane_take_def)
qed

lemma reclaim_ok:
  assumes "wf m" and "lane_ok rid (entries m) sw l" and "claim i m = (c, m')" and "rid r = i"
  shows "wf m' \<and> lane_ok rid (entries m') sw (lane_leave i (lane_take c r l))"
proof -
  have gone: "i \<notin> fst ` set_mset (entries m')"
    using claim_gone assms(1,3) .
  have "wf m' \<and> lane_ok rid (entries m') sw (lane_take c r l)"
    using arrive_ok[of m rid sw l r c m'] assms by simp
  with gone show ?thesis by (auto simp: lane_ok_def lane_leave_def)
qed

lemma cancel_ok:
  assumes "wf m" and "lane_ok rid (entries m) sw l" and "claim i m = (c, m')"
  shows "wf m' \<and> lane_ok rid (entries m') sw (lane_drop i c l)"
proof (cases c)
  case None
  with assms claim_misses show ?thesis by (simp add: lane_drop_def)
next
  case (Some h)
  with assms claim_takes[of m i h m'] show ?thesis
    by (auto simp: lane_ok_def lane_drop_def)
qed

end

subsection \<open>The peer's two registries keep it\<close>

text \<open>The three laws, for one registry given as a table.\<close>

lemma table_claim_takes:
  assumes "hash_wf m" and "hash_find m i = Some h"
  shows "hash_wf (hash_remove i m) \<and> mset m = add_mset (i, h) (mset (hash_remove i m)) \<and>
    i \<notin> fst ` set_mset (mset (hash_remove i m))"
  using mset_hash_remove[OF assms] assms(1) removed_key[of i m] by simp

lemma table_claim_misses:
  assumes "hash_wf m" and "hash_find m i = None"
  shows "hash_wf (hash_remove i m) \<and> mset (hash_remove i m) = mset m \<and> i \<notin> fst ` set_mset (mset m)"
  using assms by (simp add: hash_remove_missing map_of_eq_None_iff)

interpretation callRegistry: pending_registry registerCall claimCall "\<lambda>p. mset (pendingCalls p)"
  "\<lambda>p. hash_wf (pendingCalls p)"
proof unfold_locales
  fix m m' :: "('h, 'd) rpc_peer" and i h
  show "hash_wf (pendingCalls (registerCall i h m)) \<and>
      mset (pendingCalls (registerCall i h m)) = add_mset (i, h) (mset (pendingCalls m))"
    if "hash_wf (pendingCalls m)" "i \<notin> fst ` set_mset (mset (pendingCalls m))"
    using that by (simp add: registerCall_def mset_hash_insert_new)
  show "hash_wf (pendingCalls m') \<and> mset (pendingCalls m) = add_mset (i, h) (mset (pendingCalls m')) \<and>
      i \<notin> fst ` set_mset (mset (pendingCalls m'))"
    if "hash_wf (pendingCalls m)" "claimCall i m = (Some h, m')"
    using that table_claim_takes[of "pendingCalls m" i h] by auto
  show "hash_wf (pendingCalls m') \<and> mset (pendingCalls m') = mset (pendingCalls m) \<and>
      i \<notin> fst ` set_mset (mset (pendingCalls m))"
    if "hash_wf (pendingCalls m)" "claimCall i m = (None, m')"
    using that table_claim_misses[of "pendingCalls m" i] by auto
qed

interpretation methodsRegistry: pending_registry registerMethods claimMethods "\<lambda>p. mset (pendingMethods p)"
  "\<lambda>p. hash_wf (pendingMethods p)"
proof unfold_locales
  fix m m' :: "('h, 'd) rpc_peer" and i h
  show "hash_wf (pendingMethods (registerMethods i h m)) \<and>
      mset (pendingMethods (registerMethods i h m)) = add_mset (i, h) (mset (pendingMethods m))"
    if "hash_wf (pendingMethods m)" "i \<notin> fst ` set_mset (mset (pendingMethods m))"
    using that by (simp add: registerMethods_def mset_hash_insert_new)
  show "hash_wf (pendingMethods m') \<and> mset (pendingMethods m) = add_mset (i, h) (mset (pendingMethods m')) \<and>
      i \<notin> fst ` set_mset (mset (pendingMethods m'))"
    if "hash_wf (pendingMethods m)" "claimMethods i m = (Some h, m')"
    using that table_claim_takes[of "pendingMethods m" i h] by auto
  show "hash_wf (pendingMethods m') \<and> mset (pendingMethods m') = mset (pendingMethods m) \<and>
      i \<notin> fst ` set_mset (mset (pendingMethods m))"
    if "hash_wf (pendingMethods m)" "claimMethods i m = (None, m')"
    using that table_claim_misses[of "pendingMethods m" i] by auto
qed

subsection \<open>The invariant\<close>

definition threads_ok :: "('h, 'd) peer_threads \<Rightarrow> bool" where
  "threads_ok w =
     (hash_wf (pendingCalls (peer w)) \<and> hash_wf (pendingMethods (peer w)) \<and>
      (stopped (peer w) \<longleftrightarrow> failPhase w \<noteq> NotFailed) \<and>
      lane_ok res_id (mset (pendingCalls (peer w))) (failPhase w = Swept) (calls w) \<and>
      lane_ok mres_id (mset (pendingMethods (peer w))) (failPhase w = Swept) (methods w))"

lemma threads_ok_new: "threads_ok (newThreads h)"
  by (simp add: threads_ok_def newThreads_def newPeer_def lane_ok_new)

lemma reply_ids [simp]:
  "res_id (stoppedReply i) = i" "res_id (failReply reason i) = i"
  "mres_id (stoppedMethodsReply i) = i" "mres_id (failMethodsReply reason i) = i"
  by (simp_all add: stoppedReply_def failReply_def stoppedMethodsReply_def failMethodsReply_def)

lemma register_fields [simp]:
  "pendingMethods (registerCall i h p) = pendingMethods p" "stopped (registerCall i h p) = stopped p"
  "pendingCalls (registerMethods i h p) = pendingCalls p" "stopped (registerMethods i h p) = stopped p"
  by (simp_all add: registerCall_def registerMethods_def)

lemma claim_fields:
  "claimCall i p = (c, q) \<Longrightarrow> pendingMethods q = pendingMethods p \<and> stopped q = stopped p"
  "claimMethods i p = (c, q) \<Longrightarrow> pendingCalls q = pendingCalls p \<and> stopped q = stopped p"
  by auto

lemma cancel_lanes:
  assumes "hash_wf (pendingCalls p)" and "lane_ok res_id (mset (pendingCalls p)) sw l"
  shows "lane_ok res_id (mset (pendingCalls (cancelPending i p))) sw (lane_drop i (hash_find (pendingCalls p) i) l)"
  using callRegistry.cancel_ok[OF assms, of i] by (simp add: cancelPending_def)

lemma cancel_lanes_methods:
  assumes "hash_wf (pendingMethods p)" and "lane_ok mres_id (mset (pendingMethods p)) sw l"
  shows "lane_ok mres_id (mset (pendingMethods (cancelPending i p))) sw (lane_drop i (hash_find (pendingMethods p) i) l)"
  using methodsRegistry.cancel_ok[OF assms, of i] by (simp add: cancelPending_def)

lemma threads_ok_step: "peer_step w w' \<Longrightarrow> threads_ok w \<Longrightarrow> threads_ok w'"
proof (induction rule: peer_step.induct)
  case (StartCall i w h)
  then show ?case using callRegistry.start_ok[of "peer w" res_id _ "calls w" i h] by (auto simp: threads_ok_def)
next
  case (CheckCall w i)
  then show ?case by (auto simp: threads_ok_def intro: lane_ok_check)
next
  case (ReclaimCall w i c p)
  then show ?case
    using callRegistry.reclaim_ok[of "peer w" res_id _ "calls w" i c p "stoppedReply i"] claim_fields(1)[of i "peer w" c p]
    by (auto simp: threads_ok_def)
next
  case (EmitCall w i m)
  then show ?case by (auto simp: threads_ok_def intro: lane_ok_emit)
next
  case (ResultArrives r w c p)
  then show ?case
    using callRegistry.arrive_ok[of "peer w" res_id _ "calls w" r c p] claim_fields(1)[of "res_id r" "peer w" c p]
    by (auto simp: threads_ok_def)
next
  case (DeliverResult n w)
  then show ?case by (auto simp: threads_ok_def intro: lane_ok_deliver)
next
  case (StartMethods i w h)
  then show ?case using methodsRegistry.start_ok[of "peer w" mres_id _ "methods w" i h] by (auto simp: threads_ok_def)
next
  case (CheckMethods w i)
  then show ?case by (auto simp: threads_ok_def intro: lane_ok_check)
next
  case (ReclaimMethods w i c p)
  then show ?case
    using methodsRegistry.reclaim_ok[of "peer w" mres_id _ "methods w" i c p "stoppedMethodsReply i"] claim_fields(2)[of i "peer w" c p]
    by (auto simp: threads_ok_def)
next
  case (EmitMethods w i mm)
  then show ?case by (auto simp: threads_ok_def intro: lane_ok_emit)
next
  case (MethodsResultArrives mr w c p)
  then show ?case
    using methodsRegistry.arrive_ok[of "peer w" mres_id _ "methods w" mr c p] claim_fields(2)[of "mres_id mr" "peer w" c p]
    by (auto simp: threads_ok_def)
next
  case (DeliverMethods n w)
  then show ?case by (auto simp: threads_ok_def intro: lane_ok_deliver)
next
  case (Cancel w i)
  then show ?case
    using cancel_lanes[of "peer w" _ "calls w" i] cancel_lanes_methods[of "peer w" _ "methods w" i]
    by (auto simp: threads_ok_def) (auto simp: cancelPending_def)
next
  case (FailWins w reason)
  then show ?case by (auto simp: threads_ok_def lane_ok_def)
next
  case (FailSweeps w reason cs ms e p)
  then show ?case
    by (auto simp: threads_ok_def sweepPending_def intro!: lane_ok_sweep[where sw = False, simplified])
qed

lemma threads_ok_reach: "peer_reach h w \<Longrightarrow> threads_ok w"
  by (induction rule: peer_reach.induct) (simp_all add: threads_ok_new threads_ok_step)

subsection \<open>What the interleavings guarantee\<close>

lemma distinct_if_subset_mset:
  assumes "mset xs \<subseteq># mset ys" and "distinct ys"
  shows "distinct xs"
proof -
  obtain zs where "mset ys = mset (xs @ zs)"
    using assms(1) by (metis ex_mset mset_append mset_subset_eq_exists_conv)
  with assms(2) have "distinct (xs @ zs)" using mset_eq_imp_distinct_iff by blast
  then show ?thesis by simp
qed

lemma lane_ok_distinct:
  assumes "lane_ok rid E sw l"
  shows "distinct (map (\<lambda>(h, r). rid r) (answered l) @ map fst (cancelled l)) \<and>
    (\<forall>(h, r) \<in> set (answered l). (rid r, h) \<in> set (issued l))"
proof -
  let ?A = "map (\<lambda>(h, r). (rid r, h)) (answered l) @ cancelled l"
  have sub: "mset ?A \<subseteq># mset (issued l)"
    using assms unfolding lane_ok_def by_id_def
    by (metis (no_types, lifting) mset_append mset_subset_eq_add_right union_assoc union_commute)
  have "mset (map fst ?A) \<subseteq># mset (map fst (issued l))"
    unfolding mset_map[of fst] using sub by (rule image_mset_subseteq_mono)
  then have "distinct (map fst ?A)"
    by (rule distinct_if_subset_mset) (use assms in \<open>simp add: lane_ok_def\<close>)
  moreover have "set ?A \<subseteq> set (issued l)"
    using set_mset_mono[OF sub] by simp
  ultimately show ?thesis by (auto simp: comp_def case_prod_unfold)
qed

text \<open>
  C4: However sends, replies, cancellations and the teardown interleave, no call is answered
  twice, a call that was cancelled before it was taken out is not answered at all, and an
  answer goes to the handler that was registered under its id. The same holds of the
  introspection requests.
\<close>

theorem each_call_answered_at_most_once:
  assumes "peer_reach h w"
  shows "distinct (map (\<lambda>(h, r). res_id r) (answered (calls w)) @ map fst (cancelled (calls w))) \<and>
    (\<forall>(h, r) \<in> set (answered (calls w)). (res_id r, h) \<in> set (issued (calls w))) \<and>
    distinct (map (\<lambda>(h, r). mres_id r) (answered (methods w)) @ map fst (cancelled (methods w))) \<and>
    (\<forall>(h, r) \<in> set (answered (methods w)). (mres_id r, h) \<in> set (issued (methods w)))"
proof -
  have ok: "lane_ok res_id (mset (pendingCalls (peer w))) (failPhase w = Swept) (calls w)"
    "lane_ok mres_id (mset (pendingMethods (peer w))) (failPhase w = Swept) (methods w)"
    using threads_ok_reach[OF assms] by (simp_all add: threads_ok_def)
  show ?thesis using lane_ok_distinct[OF ok(1)] lane_ok_distinct[OF ok(2)] by blast
qed

text \<open>A run in which the teardown falls between a registration and its re-check.\<close>

definition raced_start :: "(nat, nat) peer_threads" where
  "raced_start = newThreads True"

definition raced_registered :: "(nat, nat) peer_threads" where
  "raced_registered = raced_start\<lparr>peer := registerCall 1 9 (peer raced_start), calls := lane_start 1 9 (calls raced_start)\<rparr>"

definition raced_won :: "(nat, nat) peer_threads" where
  "raced_won = raced_registered\<lparr>peer := (peer raced_registered)\<lparr>stopped := True\<rparr>, failPhase := Won ''eof''\<rparr>"

lemma raced_won_reach: "peer_reach True raced_won"
proof -
  have "peer_reach True raced_start" unfolding raced_start_def by (rule peer_reach.start)
  moreover have "peer_step raced_start raced_registered"
    unfolding raced_registered_def by (rule StartCall) (simp add: raced_start_def newThreads_def newLane_def)
  moreover have "peer_step raced_registered raced_won"
    unfolding raced_won_def
    by (rule FailWins) (simp add: raced_registered_def raced_start_def newThreads_def newPeer_def)
  ultimately show ?thesis by (meson peer_reach.step)
qed

definition raced_swept :: "(nat, nat) peer_threads" where
  "raced_swept = raced_won\<lparr>peer := snd (snd (snd (sweepPending (peer raced_won)))),
     calls := lane_sweep (failReply ''eof'') (pendingCalls (peer raced_won)) (calls raced_won),
     methods := lane_sweep (failMethodsReply ''eof'') (pendingMethods (peer raced_won)) (methods raced_won),
     failPhase := Swept\<rparr>"

definition raced_answered :: "(nat, nat) peer_threads" where
  "raced_answered = raced_swept\<lparr>peer := out [Answer 9 (failReply ''eof'' 1)] (peer raced_swept),
     calls := lane_deliver 0 (calls raced_swept)\<rparr>"

lemmas raced_defs = raced_answered_def raced_swept_def raced_won_def raced_registered_def raced_start_def
  newThreads_def newLane_def newPeer_def lane_start_def lane_sweep_def lane_deliver_def lane_check_def
  lane_leave_def lane_take_def sweepPending_def registerCall_def hash_insert_def

lemma raced_answered_reach: "peer_reach True raced_answered"
proof -
  have "peer_step raced_won raced_swept"
    unfolding raced_swept_def
    by (rule FailSweeps[where e = "errorHandler (peer raced_won)"])
      (simp_all add: raced_won_def sweepPending_def)
  moreover have "peer_step raced_swept raced_answered"
  proof -
    have i: "inflight (calls raced_swept) = [(9, failReply ''eof'' 1)]" by (simp add: raced_defs)
    show ?thesis
      using DeliverResult[of 0 raced_swept] by (simp add: i raced_answered_def)
  qed
  ultimately show ?thesis using raced_won_reach by (meson peer_reach.step)
qed

lemma each_call_answered_at_most_once_witness:
  "(1, 9) \<in> set (issued (calls raced_answered)) \<and> answered (calls raced_answered) = [(9, failReply ''eof'' 1)]"
proof -
  have "answered (calls raced_answered) = [(9, failReply ''eof'' 1)]" by (simp add: raced_defs)
  with each_call_answered_at_most_once[OF raced_answered_reach] show ?thesis by simp
qed

lemma lane_ok_quiet:
  assumes "lane_ok rid E True l" and "inflight l = []" and "senders l = []"
  shows "E = {#}" and "mset (map (\<lambda>(h, r). (rid r, h)) (answered l) @ cancelled l) = mset (issued l)"
proof -
  show E: "E = {#}" using assms by (auto simp: lane_ok_def intro: multiset_nonemptyE)
  show "mset (map (\<lambda>(h, r). (rid r, h)) (answered l) @ cancelled l) = mset (issued l)"
    using assms E by (simp add: lane_ok_def by_id_def)
qed

text \<open>
  C3: No call is stranded by a teardown. Once the teardown has swept, a call can only still be
  registered while its own sender stands between registering and reclaiming it; and when
  every sender has returned and every handler taken out has run, each call issued was
  answered or cancelled, exactly once, and nothing is left registered. The same holds of the
  introspection requests.
\<close>

theorem no_call_is_stranded:
  assumes "peer_reach h w" and "failPhase w = Swept"
  shows "(\<forall>i. hash_contains (pendingCalls (peer w)) i \<longrightarrow>
      hash_find (senders (calls w)) i \<in> {Some Registered, Some SawStopped}) \<and>
    (inflight (calls w) = [] \<longrightarrow> senders (calls w) = [] \<longrightarrow> pendingCalls (peer w) = [] \<and>
      mset (map (\<lambda>(h, r). (res_id r, h)) (answered (calls w)) @ cancelled (calls w)) = mset (issued (calls w))) \<and>
    (inflight (methods w) = [] \<longrightarrow> senders (methods w) = [] \<longrightarrow> pendingMethods (peer w) = [] \<and>
      mset (map (\<lambda>(h, r). (mres_id r, h)) (answered (methods w)) @ cancelled (methods w)) = mset (issued (methods w)))"
proof -
  from threads_ok_reach[OF assms(1)] assms(2)
  have c: "lane_ok res_id (mset (pendingCalls (peer w))) True (calls w)"
    and m: "lane_ok mres_id (mset (pendingMethods (peer w))) True (methods w)"
    by (simp_all add: threads_ok_def)
  have "\<forall>i. hash_contains (pendingCalls (peer w)) i \<longrightarrow>
      hash_find (senders (calls w)) i \<in> {Some Registered, Some SawStopped}"
  proof (intro allI impI)
    fix i assume "hash_contains (pendingCalls (peer w)) i"
    then have "i \<in> fst ` set_mset (mset (pendingCalls (peer w)))"
      by (simp add: hash_contains_def map_of_eq_None_iff)
    with c show "hash_find (senders (calls w)) i \<in> {Some Registered, Some SawStopped}"
      unfolding lane_ok_def by blast
  qed
  with lane_ok_quiet[OF c] lane_ok_quiet[OF m] show ?thesis by (simp only: mset_zero_iff) blast
qed

text \<open>The sender of a call registered after the sweep reclaims it.\<close>

definition late_call :: "(nat, nat) peer_threads" where
  "late_call = raced_answered\<lparr>peer := registerCall 2 8 (peer raced_answered), calls := lane_start 2 8 (calls raced_answered)\<rparr>"

lemma no_call_is_stranded_witness:
  "hash_find (senders (calls late_call)) 2 \<in> {Some Registered, Some SawStopped}"
proof -
  have "peer_step raced_answered late_call"
    unfolding late_call_def by (rule StartCall) (simp add: raced_defs)
  with raced_answered_reach have r: "peer_reach True late_call" by (rule peer_reach.step)
  have "failPhase late_call = Swept" by (simp add: late_call_def raced_defs)
  from no_call_is_stranded[OF r this] show ?thesis
    by (auto simp: late_call_def raced_defs hash_contains_def)
qed

end
