(* ===== verification/Rpc_Connection.thy ===== *)
theory Rpc_Connection
  imports Rpc_Peer Framing "HOL-Library.Sublist"
begin

text \<open>
  \<open>cpp/implementations/plain/rpc_connection.h\<close>: the socket side of a peer. The read side
  cuts the bytes of each completed read into frames, decodes and dispatches them; the write
  side serializes frames through a strand and keeps one write outstanding. Boost.Asio is not
  part of the repository: its completions and its strand are operations that the environment
  invokes, in the order the strand runs them.
\<close>

subsection \<open>Emitting\<close>

datatype emit_error = SerializeFailed | FrameRefused framing_error

definition encodeMessage :: "('d json \<Rightarrow> bytes option) \<Rightarrow> 'd any_message \<Rightarrow> emit_error + bytes" where
  "encodeMessage serialize m = (case codecEncode serialize m of None \<Rightarrow> Inl SerializeFailed
     | Some payload \<Rightarrow> (case encodeFrame (messageTypeOf m) payload of Inl e \<Rightarrow> Inl (FrameRefused e) | Inr w \<Rightarrow> Inr w))"

subsection \<open>The read side\<close>

record ('h, 'd) connection =
  rpeer :: "('h, 'd) rpc_peer"
  reader :: bytes

definition handleFrame ::
  "('d \<Rightarrow> u64) \<Rightarrow> (bytes \<Rightarrow> 'd json option) \<Rightarrow> (decode_error \<Rightarrow> qstring) \<Rightarrow> frame \<Rightarrow>
   ('h, 'd) rpc_peer \<Rightarrow> ('h, 'd) rpc_peer" where
  "handleFrame trunc parse what f p = (case codecDecode trunc parse (fst f) (snd f) of
       Inl e \<Rightarrow> fail (''decode error: '' @ what e) p
     | Inr m \<Rightarrow> dispatchIncoming m p)"

text \<open>The completion of a read with \<open>n\<close> bytes. The answer says whether another read is started.\<close>

definition onRead ::
  "('d \<Rightarrow> u64) \<Rightarrow> (bytes \<Rightarrow> 'd json option) \<Rightarrow> (decode_error \<Rightarrow> qstring) \<Rightarrow> (framing_error \<Rightarrow> qstring) \<Rightarrow> bytes \<Rightarrow>
   ('h, 'd) connection \<Rightarrow> bool \<times> ('h, 'd) connection" where
  "onRead trunc parse what fwhat data c =
     (if stopped (rpeer c) then (False, c)
      else let (fs, r) = drainFrames (appendBytes data (reader c));
               p = fold (handleFrame trunc parse what) fs (rpeer c)
           in case r of
                Inl e \<Rightarrow> (False, c\<lparr>rpeer := fail (''frame error: '' @ fwhat e) p\<rparr>)
              | Inr buf \<Rightarrow> (True, c\<lparr>rpeer := p, reader := buf\<rparr>))"

definition onReadError :: "qstring \<Rightarrow> ('h, 'd) connection \<Rightarrow> bool \<times> ('h, 'd) connection" where
  "onReadError msg c = (False, c\<lparr>rpeer := fail msg (rpeer c)\<rparr>)"

text \<open>Reads completing one after the other, as long as the code starts the next one.\<close>

fun readAll ::
  "('d \<Rightarrow> u64) \<Rightarrow> (bytes \<Rightarrow> 'd json option) \<Rightarrow> (decode_error \<Rightarrow> qstring) \<Rightarrow> (framing_error \<Rightarrow> qstring) \<Rightarrow> bytes list \<Rightarrow>
   ('h, 'd) connection \<Rightarrow> ('h, 'd) connection" where
  "readAll trunc parse what fwhat [] c = c"
| "readAll trunc parse what fwhat (d # ds) c =
     (let (again, c') = onRead trunc parse what fwhat d c
      in if again then readAll trunc parse what fwhat ds c' else c')"

lemma dispatchIncoming_stopped [simp]: "stopped (dispatchIncoming m p) = stopped p"
  by (cases m) (auto split: option.splits)

lemma fold_dispatch_stopped [simp]: "stopped (fold dispatchIncoming ms p) = stopped p"
  by (induction ms arbitrary: p) auto

lemma fold_handleFrame_decoded:
  "list_all2 (\<lambda>f m. codecDecode trunc parse (fst f) (snd f) = Inr m) fs ms \<Longrightarrow>
   fold (handleFrame trunc parse what) fs p = fold dispatchIncoming ms p"
  by (induction arbitrary: p rule: list_all2_induct) (simp_all add: handleFrame_def)

lemma readChunk_fresh: "readChunk ([], Inr buf) d = drainFrames (buf @ d)"
  by (simp add: readChunk_def appendBytes_def split_beta)

text \<open>Reading chunk by chunk hands over the messages of the frames the reader cuts off.\<close>

lemma readAll_frames:
  assumes "\<not> stopped p" and "foldl readChunk ([], Inr buf) chunks = (fs, Inr rest)"
    and "list_all2 (\<lambda>f m. codecDecode trunc parse (fst f) (snd f) = Inr m) fs ms"
  shows "readAll trunc parse what fwhat chunks \<lparr>rpeer = p, reader = buf\<rparr> =
    \<lparr>rpeer = fold dispatchIncoming ms p, reader = rest\<rparr>"
  using assms
proof (induction chunks arbitrary: p buf fs ms)
  case (Cons d ds)
  have prefix: "foldl readChunk (pre @ ps, r) cs = (pre @ fst (foldl readChunk (ps, r) cs), snd (foldl readChunk (ps, r) cs))"
    for pre ps r cs
    by (induction cs arbitrary: ps r) (auto simp: readChunk_def split_beta Let_def split: sum.splits)
  obtain gs r where d: "drainFrames (buf @ d) = (gs, r)" by fastforce
  have stuck: "foldl readChunk (gs, Inl e) ds = (gs, Inl e)" for e
    by (induction ds) (auto simp: readChunk_def)
  from d Cons.prems(2) have run: "foldl readChunk (gs, r) ds = (fs, Inr rest)"
    by (simp add: readChunk_fresh)
  with stuck obtain buf' where r: "r = Inr buf'" by (cases r) auto
  obtain hs where hs: "foldl readChunk ([], Inr buf') ds = (hs, Inr rest)" and fs: "fs = gs @ hs"
    using run prefix[of gs "[]" r ds] r by (cases "foldl readChunk ([], Inr buf') ds") auto
  obtain us vs where ms: "ms = us @ vs" and us: "list_all2 (\<lambda>f m. codecDecode trunc parse (fst f) (snd f) = Inr m) gs us"
    and vs: "list_all2 (\<lambda>f m. codecDecode trunc parse (fst f) (snd f) = Inr m) hs vs"
    using Cons.prems(3) fs by (auto simp: list_all2_append1)
  have "onRead trunc parse what fwhat d \<lparr>rpeer = p, reader = buf\<rparr> =
      (True, \<lparr>rpeer = fold dispatchIncoming us p, reader = buf'\<rparr>)"
    using Cons.prems(1) d r fold_handleFrame_decoded[OF us] by (simp add: onRead_def appendBytes_def)
  with Cons.IH[OF _ hs vs, of "fold dispatchIncoming us p"] Cons.prems(1) ms show ?case by simp
qed simp

lemma encoded_messages_are_frames:
  assumes "list_all2 (\<lambda>m w. canonical_message m \<and> encodeMessage serialize m = Inr w) ms ws"
    and "\<forall>m \<in> set ms. \<forall>bs. codecEncode serialize m = Some bs \<longrightarrow> parse bs = Some (respell (messageToJson m))"
  shows "\<exists>fs. list_all2 (\<lambda>f w. encodeFrame (fst f) (snd f) = Inr w) fs ws \<and>
    list_all2 (\<lambda>f m. codecDecode trunc parse (fst f) (snd f) = Inr m) fs ms"
  using assms
proof (induction ms ws rule: list_all2_induct)
  case (Cons m ms w ws)
  then obtain fs where fs: "list_all2 (\<lambda>f w. encodeFrame (fst f) (snd f) = Inr w) fs ws"
    "list_all2 (\<lambda>f m. codecDecode trunc parse (fst f) (snd f) = Inr m) fs ms" by auto
  from Cons.hyps obtain payload where p: "codecEncode serialize m = Some payload"
    and w: "encodeFrame (messageTypeOf m) payload = Inr w"
    by (auto simp: encodeMessage_def split: option.splits sum.splits)
  have "codecDecode trunc parse (messageTypeOf m) payload = Inr m"
    by (rule codec_round_trip[OF _ p]) (use Cons.hyps Cons.prems p in auto)
  with fs w show ?case by (intro exI[of _ "(messageTypeOf m, payload) # fs"]) simp
qed simp

text \<open>
  C15: Messages arrive. Canonical messages, serialized, framed and sent one after the other,
  cut into any reads on the way, are dispatched by the receiving peer as those messages, in
  that order, and no byte is left over. Of the serializer this asks only that it parses what
  it wrote, up to the kind in which it reads non-negative integers.
\<close>

theorem wire_delivers_messages:
  assumes "list_all2 (\<lambda>m w. canonical_message m \<and> encodeMessage serialize m = Inr w) ms ws"
    and "\<forall>m \<in> set ms. \<forall>bs. codecEncode serialize m = Some bs \<longrightarrow> parse bs = Some (respell (messageToJson m))"
    and "concat chunks = concat ws" and "chunks \<noteq> []" and "\<not> stopped p"
  shows "readAll trunc parse what fwhat chunks \<lparr>rpeer = p, reader = []\<rparr> =
    \<lparr>rpeer = fold dispatchIncoming ms p, reader = []\<rparr>"
proof -
  obtain fs where enc: "list_all2 (\<lambda>f w. encodeFrame (fst f) (snd f) = Inr w) fs ws"
    and dec: "list_all2 (\<lambda>f m. codecDecode trunc parse (fst f) (snd f) = Inr m) fs ms"
    using encoded_messages_are_frames[OF assms(1,2)] by blast
  from frames.stream_decoded[OF enc assms(3,4)] dec assms(5) show ?thesis
    by (rule readAll_frames[rotated])
qed

lemma wire_delivers_messages_witness:
  "readAll (\<lambda>_. 0) (\<lambda>bs. if bs = [42] then Some (respell (messageToJson ping_message)) else None)
     (\<lambda>_. []) (\<lambda>_. []) [[0, 0, 0], [2, 1, 42]] \<lparr>rpeer = (newPeer True :: (nat, nat) rpc_peer), reader = []\<rparr> =
   \<lparr>rpeer = out [Inbound ping_message] (newPeer True), reader = []\<rparr>"
proof -
  let ?ser = "\<lambda>j. if j = messageToJson ping_message then Some [42] else None"
  let ?parse = "\<lambda>bs. if bs = [42] then Some (respell (messageToJson ping_message)) else None"
  have "encodeFrame 1 [42] = Inr [0, 0, 0, 2, 1, 42]"
    by (simp add: encodeFrame_def kMaxFrameLength_def writeBe32_def Let_def)
  then have enc: "list_all2 (\<lambda>m w. canonical_message m \<and> encodeMessage ?ser m = Inr w) [ping_message] [[0, 0, 0, 2, 1, 42]]"
    using canonical_ping by (simp add: encodeMessage_def codecEncode_def ping_message_def del: messageToJson.simps)
  have ser: "\<forall>m \<in> set [ping_message]. \<forall>bs. codecEncode ?ser m = Some bs \<longrightarrow> ?parse bs = Some (respell (messageToJson m))"
    by (simp add: codecEncode_def)
  have d: "dispatchIncoming ping_message (newPeer True) = out [Inbound ping_message] (newPeer True :: (nat, nat) rpc_peer)"
    by (simp add: ping_message_def newPeer_def)
  have "\<not> stopped (newPeer True :: (nat, nat) rpc_peer)" by (simp add: newPeer_def)
  then show ?thesis
    using wire_delivers_messages[OF enc ser, where chunks = "[[0, 0, 0], [2, 1, 42]]" and p = "newPeer True :: (nat, nat) rpc_peer"
        and trunc = "\<lambda>_. 0" and what = "\<lambda>_. []" and fwhat = "\<lambda>_. []"]
    by (simp add: d del: readAll.simps)
qed

lemma onRead_behind_bad_frame:
  assumes "\<not> stopped (rpeer c)" and "drainFrames (reader c @ data) = (f # fs, Inr buf)"
    and "codecDecode trunc parse (fst f) (snd f) = Inl e"
    and "list_all2 (\<lambda>f m. codecDecode trunc parse (fst f) (snd f) = Inr m) fs ms"
  shows "onRead trunc parse what fwhat data c =
    (True, c\<lparr>rpeer := fold dispatchIncoming ms (fail (''decode error: '' @ what e) (rpeer c)), reader := buf\<rparr>)"
proof -
  have "handleFrame trunc parse what f (rpeer c) = fail (''decode error: '' @ what e) (rpeer c)"
    by (simp add: handleFrame_def assms(3))
  then have "fold (handleFrame trunc parse what) (f # fs) (rpeer c) =
      fold dispatchIncoming ms (fail (''decode error: '' @ what e) (rpeer c))"
    by (simp only: fold_simps fold_handleFrame_decoded[OF assms(4)])
  then show ?thesis
    unfolding onRead_def appendBytes_def assms(2) by (simp only: assms(1) if_False Let_def prod.case sum.case)
qed

text \<open>
  A frame that does not decode tears the connection down, but the frames behind it in the
  same read are dispatched all the same, after the peer has been closed and its owner has
  been told, and another read is started: the stopped flag is looked at once per read.
\<close>

theorem frames_behind_a_bad_one_are_dispatched:
  assumes "\<not> stopped (rpeer c)" and "drainFrames (reader c @ data) = (f # fs, Inr buf)"
    and "codecDecode trunc parse (fst f) (snd f) = Inl e"
    and "list_all2 (\<lambda>f m. codecDecode trunc parse (fst f) (snd f) = Inr m) fs ms"
  shows "onRead trunc parse what fwhat data c =
    (True, c\<lparr>rpeer := fold dispatchIncoming ms (fail (''decode error: '' @ what e) (rpeer c)), reader := buf\<rparr>)"
  using assms by (rule onRead_behind_bad_frame)

text \<open>A frame of an unknown tag followed by a Subscribe, in one read.\<close>

lemma frames_behind_a_bad_one_are_dispatched_witness:
  "outputs (rpeer (snd (onRead (\<lambda>_. 0) (\<lambda>bs. Some (Object [])) (\<lambda>_. []) (\<lambda>_. []) [0, 0, 0, 1, 99, 0, 0, 0, 1, 3]
     \<lparr>rpeer = (newPeer True :: (nat, nat) rpc_peer), reader = []\<rparr>))) =
   [CloseTransport, ConnectionClosed, Inbound (SubscribeMsg \<lparr>sub_object = [], sub_eventName = []\<rparr>)]"
proof -
  have "list_all2 (\<lambda>f w. encodeFrame (fst f) (snd f) = Inr w) [(99, []), (3, [])] [[0, 0, 0, 1, 99], [0, 0, 0, 1, 3]]"
    by (simp add: encodeFrame_def kMaxFrameLength_def writeBe32_def Let_def)
  from frames.drain_encoded[OF this]
  have drain: "drainFrames [0, 0, 0, 1, 99, 0, 0, 0, 1, 3] = ([(99, []), (3, [])], Inr [])" by simp
  show ?thesis
    using frames_behind_a_bad_one_are_dispatched[of "\<lparr>rpeer = (newPeer True :: (nat, nat) rpc_peer), reader = []\<rparr>"
        "[0, 0, 0, 1, 99, 0, 0, 0, 1, 3]" "(99, [])" "[(3, [])]" "[]" "\<lambda>_. 0" "\<lambda>bs. Some (Object [])" UnknownTag
        "[SubscribeMsg \<lparr>sub_object = [], sub_eventName = []\<rparr>]" "\<lambda>_. []" "\<lambda>_. []"]
    by (simp add: drain newPeer_def codecDecode_def jsonToMessage_def value_string_def object_get_def
        fail_def sweepPending_def)
qed

subsection \<open>The write side\<close>

text \<open>
  \<open>posted\<close> are the tasks on the strand, \<open>writeQueue\<close> and \<open>writing\<close> the members of the class,
  \<open>outstanding\<close> the writes Asio has not completed. \<open>started\<close> and \<open>accepted\<close> are the history:
  the frames whose write was started, and those \<open>writeFrame\<close> did not drop. \<open>frontOfEmpty\<close>
  records a call of \<open>front\<close> on an empty queue.
\<close>

record writer =
  wstopped :: bool
  posted :: "bytes list"
  writeQueue :: "bytes list"
  writing :: bool
  outstanding :: nat
  started :: "bytes list"
  accepted :: "bytes list"
  frontOfEmpty :: bool

definition newWriter :: writer where
  "newWriter = \<lparr>wstopped = False, posted = [], writeQueue = [], writing = False, outstanding = 0,
     started = [], accepted = [], frontOfEmpty = False\<rparr>"

definition writeFrame :: "bytes \<Rightarrow> writer \<Rightarrow> writer" where
  "writeFrame f w = (if wstopped w then w else w\<lparr>posted := posted w @ [f], accepted := accepted w @ [f]\<rparr>)"

definition doWrite :: "writer \<Rightarrow> writer" where
  "doWrite w =
     (if wstopped w then w\<lparr>writing := False\<rparr>
      else case writeQueue w of
             [] \<Rightarrow> w\<lparr>frontOfEmpty := True\<rparr>
           | f # fs \<Rightarrow> w\<lparr>started := started w @ [f], outstanding := outstanding w + 1\<rparr>)"

definition strandTurn :: "writer \<Rightarrow> writer" where
  "strandTurn w = (case posted w of [] \<Rightarrow> w
     | f # fs \<Rightarrow>
       let w1 = w\<lparr>posted := fs\<rparr>
       in if wstopped w1 then w1
          else let w2 = w1\<lparr>writeQueue := writeQueue w1 @ [f]\<rparr>
               in if \<not> writing w2 then doWrite (w2\<lparr>writing := True\<rparr>) else w2)"

definition writeDone :: "bool \<Rightarrow> writer \<Rightarrow> writer" where
  "writeDone ok w =
     (if outstanding w = 0 then w
      else let w1 = w\<lparr>outstanding := outstanding w - 1\<rparr>
           in if \<not> ok then w1\<lparr>wstopped := True\<rparr>
              else let w2 = w1\<lparr>writeQueue := tl (writeQueue w1)\<rparr>
                   in if writeQueue w2 = [] then w2\<lparr>writing := False\<rparr> else doWrite w2)"

definition stopWriter :: "writer \<Rightarrow> writer" where
  "stopWriter w = w\<lparr>wstopped := True\<rparr>"

datatype writer_event = WWrite bytes | WTurn | WDone bool | WStop

fun writer_step :: "writer_event \<Rightarrow> writer \<Rightarrow> writer" where
  "writer_step (WWrite f) w = writeFrame f w"
| "writer_step WTurn w = strandTurn w"
| "writer_step (WDone ok) w = writeDone ok w"
| "writer_step WStop w = stopWriter w"

text \<open>
  While open, the frames accepted are those completed, those queued (the first of which is
  the one being written) and those still on the strand, in this order.
\<close>

definition writer_ok :: "writer \<Rightarrow> bool" where
  "writer_ok w =
     (\<not> frontOfEmpty w \<and> outstanding w \<le> 1 \<and> (wstopped w \<longrightarrow> outstanding w = 1 \<longrightarrow> writeQueue w \<noteq> []) \<and>
      prefix (started w) (accepted w) \<and>
      (\<not> wstopped w \<longrightarrow> (writing w \<longleftrightarrow> writeQueue w \<noteq> []) \<and> (outstanding w = 1 \<longleftrightarrow> writeQueue w \<noteq> []) \<and>
         accepted w = started w @ tl (writeQueue w) @ posted w))"

lemma writer_ok_new: "writer_ok newWriter"
  by (simp add: writer_ok_def newWriter_def)

lemma writer_ok_write: "writer_ok w \<Longrightarrow> writer_ok (writeFrame f w)"
  by (simp add: writer_ok_def writeFrame_def prefix_prefix)

lemma writer_ok_turn: "writer_ok w \<Longrightarrow> writer_ok (strandTurn w)"
  by (cases "posted w"; cases "writeQueue w")
    (auto simp: writer_ok_def strandTurn_def Let_def doWrite_def)

lemma writer_ok_done: "writer_ok w \<Longrightarrow> writer_ok (writeDone ok w)"
proof -
  assume w: "writer_ok w"
  show ?thesis
  proof (cases "outstanding w = 0")
    case False
    then have one: "outstanding w = 1" and "writeQueue w \<noteq> []" using w by (auto simp: writer_ok_def)
    then obtain f q where q: "writeQueue w = f # q" by (cases "writeQueue w") auto
    show ?thesis
    proof (cases q)
      case Nil
      with w one q show ?thesis by (simp add: writer_ok_def writeDone_def Let_def)
    next
      case (Cons g q')
      with w one q show ?thesis
        by (cases "wstopped w") (simp_all add: writer_ok_def writeDone_def Let_def doWrite_def)
    qed
  qed (use w in \<open>simp add: writeDone_def\<close>)
qed

lemma writer_ok_stop: "writer_ok w \<Longrightarrow> writer_ok (stopWriter w)"
  by (cases "wstopped w") (auto simp: writer_ok_def stopWriter_def)

lemma writer_ok_step: "writer_ok w \<Longrightarrow> writer_ok (writer_step e w)"
  by (cases e) (simp_all add: writer_ok_write writer_ok_turn writer_ok_done writer_ok_stop)

lemma writer_ok_run: "writer_ok w \<Longrightarrow> writer_ok (fold writer_step es w)"
  by (induction es arbitrary: w) (auto simp: writer_ok_step)

text \<open>
  Whatever the order in which frames are posted, the strand runs, writes complete or fail
  and the connection is torn down, there is never a second write on the socket while one is
  outstanding, the queue is never read when empty, and the frames whose write was started
  are the first of those posted, in the order they were posted, none skipped or repeated.
  The writer does not stall: on an open connection with an idle strand and no write
  outstanding, every frame posted has been written.
\<close>

theorem one_write_at_a_time_in_order:
  assumes "w = fold writer_step es newWriter"
  shows "outstanding w \<le> 1 \<and> \<not> frontOfEmpty w \<and> prefix (started w) (accepted w) \<and>
    (\<not> wstopped w \<and> outstanding w = 0 \<and> posted w = [] \<longrightarrow> started w = accepted w)"
  using writer_ok_run[OF writer_ok_new, of es] by (auto simp: writer_ok_def assms)

lemma one_write_at_a_time_in_order_witness:
  "started (fold writer_step [WWrite [1], WWrite [2], WTurn, WTurn, WDone True, WDone True] newWriter) = [[1], [2]]"
proof -
  let ?w = "fold writer_step [WWrite [1], WWrite [2], WTurn, WTurn, WDone True, WDone True] newWriter"
  have "\<not> wstopped ?w \<and> outstanding ?w = 0 \<and> posted ?w = []" "accepted ?w = [[1], [2]]"
    by (simp_all add: newWriter_def writeFrame_def strandTurn_def writeDone_def doWrite_def Let_def)
  with one_write_at_a_time_in_order[OF refl, of "[WWrite [1], WWrite [2], WTurn, WTurn, WDone True, WDone True]"]
  show ?thesis by (simp only: simp_thms)
qed

end
