(* ===== verification/Subscription_Registry.thy ===== *)
theory Subscription_Registry
  imports Table_Multisets
begin

text \<open>
  \<open>LogosPendingSubscriptions\<close> of \<open>cpp/logos_api_consumer.cpp\<close>: subscriptions whose target is
  not reachable yet, armed when it becomes reachable, revived or held when it goes away.

  The transport and its object handles are the environment of an operation: an \<open>env\<close> says
  what the transport answers and which handles are valid while the operation runs, and what
  the clock shows. A handle is a number. A deferred acquisition reports back through the
  separate operation \<open>acquired\<close>. Callbacks do not re-enter the registry in the model: they
  are recorded, in order, in \<open>rlog\<close>. The code moves entries between vectors; an entry it has
  moved out of and left in place keeps its plain fields and has empty strings and functions
  (\<open>moved_from\<close>). Hash iteration order is the order of the lists.
\<close>

subsection \<open>State\<close>

type_synonym handle = nat
type_synonym msec = int

datatype restart_policy = Automatic | Manual
datatype subscription_state = Unknown | Pending | Armed | Held
datatype subscription_event = EvArmed | EvHeld | EvLost | EvAbandoned
datatype acquire_kind = Deferred | Declined | Unsupported

record 'c entry =
  eid :: u64
  objectName :: qstring
  eventName :: qstring
  callback :: "'c option"
  onArmed :: "'c option"
  everArmed :: bool
  since :: msec
  warnLevel :: nat
  readinessOnly :: bool

record 'c target =
  restart :: restart_policy
  generation_of :: u64
  onStatus :: "'c option"

definition defaultTarget :: "'c target" where
  "defaultTarget = \<lparr>restart = Automatic, generation_of = 0, onStatus = None\<rparr>"

datatype 'c reg_output =
  Attach handle qstring "'c option"
| ArmedCallback 'c bool
| StatusCallback 'c subscription_event u64 qstring
| ReleaseHandle handle

record env =
  supportsAsync :: bool
  tryAcquireNow :: "qstring \<Rightarrow> handle option"
  requestWhenAvailable :: "qstring \<Rightarrow> bool"
  requestObject :: "qstring \<Rightarrow> handle option"
  handleValid :: "handle \<Rightarrow> bool"
  now :: msec

record 'c registry =
  entries :: "'c entry list"
  armed :: "'c entry list"
  held :: "'c entry list"
  acquiring :: "qstring list"
  targets :: "(qstring, 'c target) qhash"
  handles :: "(qstring, handle) qhash"
  hasTimer :: bool
  timerOn :: bool
  intervalMs :: nat
  nextEntryId :: u64
  rlog :: "'c reg_output list"

definition newRegistry :: "'c registry" where
  "newRegistry = \<lparr>entries = [], armed = [], held = [], acquiring = [], targets = [], handles = [],
     hasTimer = False, timerOn = False, intervalMs = 250, nextEntryId = 1, rlog = []\<rparr>"

definition target_of :: "qstring \<Rightarrow> 'c registry \<Rightarrow> 'c target" where
  "target_of name s = hash_value (targets s) name defaultTarget"

definition moved_from :: "'c entry \<Rightarrow> 'c entry" where
  "moved_from e = e\<lparr>objectName := [], eventName := [], callback := None, onArmed := None\<rparr>"

definition emit :: "'c reg_output list \<Rightarrow> 'c registry \<Rightarrow> 'c registry" where
  "emit os s = s\<lparr>rlog := rlog s @ os\<rparr>"

definition forObject :: "qstring \<Rightarrow> 'c entry list \<Rightarrow> 'c entry list" where
  "forObject name es = filter (\<lambda>e. objectName e = name) es"

definition notFor :: "qstring \<Rightarrow> 'c entry list \<Rightarrow> 'c entry list" where
  "notFor name es = filter (\<lambda>e. objectName e \<noteq> name) es"

definition hasPendingFor :: "qstring \<Rightarrow> 'c registry \<Rightarrow> bool" where
  "hasPendingFor name s = (\<exists>e \<in> set (entries s). objectName e = name)"

definition hasArmedFor :: "qstring \<Rightarrow> 'c registry \<Rightarrow> bool" where
  "hasArmedFor name s = (\<exists>e \<in> set (armed s). objectName e = name)"

definition hasHeldFor :: "qstring \<Rightarrow> 'c registry \<Rightarrow> bool" where
  "hasHeldFor name s = (\<exists>e \<in> set (held s). objectName e = name)"

definition liveHandle :: "env \<Rightarrow> qstring \<Rightarrow> 'c registry \<Rightarrow> handle option" where
  "liveHandle v name s = (case hash_find (handles s) name of None \<Rightarrow> None
     | Some h \<Rightarrow> if handleValid v h then Some h else None)"

subsection \<open>The timer\<close>

definition timerNeeded :: "'c registry \<Rightarrow> bool" where
  "timerNeeded s = (entries s \<noteq> [] \<or> armed s \<noteq> [])"

definition ensureTimer :: "'c registry \<Rightarrow> 'c registry" where
  "ensureTimer s = (if \<not> timerNeeded s then s
     else s\<lparr>hasTimer := True, intervalMs := 250, timerOn := True\<rparr>)"

definition stopTimerIfIdle :: "'c registry \<Rightarrow> 'c registry" where
  "stopTimerIfIdle s = (if hasTimer s \<and> \<not> timerNeeded s then s\<lparr>timerOn := False\<rparr> else s)"

definition kLivenessIntervalMs :: nat where
  "kLivenessIntervalMs = 1000"

definition needsTicks :: "'c registry \<Rightarrow> 'c entry \<Rightarrow> bool" where
  "needsTicks s e = (objectName e \<notin> set (acquiring s) \<or> warnLevel e < 2)"

definition rescheduleOrStop :: "'c registry \<Rightarrow> 'c registry" where
  "rescheduleOrStop s =
     (if \<not> hasTimer s then s
      else if \<not> timerNeeded s then s\<lparr>timerOn := False\<rparr>
      else if entries s = [] then s\<lparr>intervalMs := kLivenessIntervalMs, timerOn := True\<rparr>
      else if \<exists>e \<in> set (entries s). needsTicks s e
      then (if intervalMs s < 5000
            then s\<lparr>intervalMs := min 5000 (intervalMs s * 2), timerOn := True\<rparr> else s)
      else if armed s \<noteq> [] then s\<lparr>intervalMs := kLivenessIntervalMs, timerOn := True\<rparr>
      else s\<lparr>timerOn := False\<rparr>)"

definition warnStep :: "env \<Rightarrow> 'c entry \<Rightarrow> 'c entry" where
  "warnStep v e =
     (let ms = now v - since e
      in if warnLevel e = 0 \<and> 3000 \<le> ms then e\<lparr>warnLevel := 1\<rparr>
         else if warnLevel e = 1 \<and> 60000 \<le> ms then e\<lparr>warnLevel := 2\<rparr>
         else e)"

definition reportStillPending :: "env \<Rightarrow> 'c registry \<Rightarrow> 'c registry" where
  "reportStillPending v s = s\<lparr>entries := map (warnStep v) (entries s)\<rparr>"

subsection \<open>Arming\<close>

definition reportTarget :: "qstring \<Rightarrow> subscription_event \<Rightarrow> qstring \<Rightarrow> 'c registry \<Rightarrow> 'c registry" where
  "reportTarget name ev reason s = (case hash_find (targets s) name of None \<Rightarrow> s
     | Some t \<Rightarrow> (case onStatus t of None \<Rightarrow> s
         | Some fn \<Rightarrow> emit [StatusCallback fn ev (generation_of t) reason] s))"

definition takeMatching :: "qstring \<Rightarrow> 'c registry \<Rightarrow> 'c entry list \<times> 'c registry" where
  "takeMatching name s =
     (let matched = forObject name (entries s);
          s1 = s\<lparr>entries := notFor name (entries s)\<rparr>
      in (matched, if \<not> timerNeeded s1 \<and> hasTimer s1 then s1\<lparr>timerOn := False\<rparr> else s1))"

definition reviveArmed :: "env \<Rightarrow> qstring \<Rightarrow> 'c registry \<Rightarrow> 'c registry" where
  "reviveArmed v name s = s\<lparr>
     entries := entries s @ map (\<lambda>e. e\<lparr>since := now v\<rparr>) (forObject name (armed s)),
     armed := notFor name (armed s)\<rparr>"

definition armEntry :: "handle \<Rightarrow> 'c entry \<Rightarrow> 'c registry \<Rightarrow> 'c registry" where
  "armEntry h e s =
     (let answer = (case onArmed e of None \<Rightarrow> [] | Some f \<Rightarrow> [ArmedCallback f True])
      in if readinessOnly e then emit answer s
         else (emit ([Attach h (eventName e) (callback e)] @ answer) s)
              \<lparr>armed := armed s @ [e\<lparr>everArmed := True\<rparr>]\<rparr>)"

definition nextGeneration :: "qstring \<Rightarrow> 'c registry \<Rightarrow> 'c registry" where
  "nextGeneration name s = (let t = target_of name s
     in s\<lparr>targets := hash_insert name (t\<lparr>generation_of := generation_of t + 1\<rparr>) (targets s)\<rparr>)"

definition chooseHandle :: "env \<Rightarrow> qstring \<Rightarrow> handle \<Rightarrow> 'c registry \<Rightarrow> handle \<times> 'c registry" where
  "chooseHandle v name obj s =
     (let (current, s1) =
        (case hash_find (handles s) name of
           None \<Rightarrow> (None, s)
         | Some h \<Rightarrow> if h \<noteq> obj \<and> \<not> handleValid v h
                   then (None, emit [ReleaseHandle h] (reviveArmed v name s))
                   else (Some h, s))
      in case current of
           None \<Rightarrow> (obj, s1\<lparr>handles := hash_insert name obj (handles s1)\<rparr>)
         | Some h \<Rightarrow> if h \<noteq> obj then (h, emit [ReleaseHandle obj] s1) else (h, s1))"

definition armAgainst :: "env \<Rightarrow> qstring \<Rightarrow> handle \<Rightarrow> 'c registry \<Rightarrow> 'c registry" where
  "armAgainst v name obj s =
     (let (h, s1) = chooseHandle v name obj s;
          (matched, s2) = takeMatching name s1;
          anyReal = (\<exists>e \<in> set matched. \<not> readinessOnly e);
          s3 = (if anyReal then nextGeneration name s2 else s2);
          s4 = fold (armEntry h) matched s3;
          s5 = (if anyReal then reportTarget name EvArmed [] s4 else s4)
      in ensureTimer s5)"

definition abandon :: "qstring \<Rightarrow> 'c registry \<Rightarrow> 'c registry" where
  "abandon name s =
     (let (matched, s1) = takeMatching name s;
          s2 = emit (concat (map (\<lambda>e. case onArmed e of None \<Rightarrow> [] | Some f \<Rightarrow> [ArmedCallback f False]) matched)) s1
      in if matched \<noteq> [] then reportTarget name EvAbandoned ''object_unreachable'' s2 else s2)"

subsection \<open>Acquiring\<close>

definition startAcquire :: "env \<Rightarrow> qstring \<Rightarrow> 'c registry \<Rightarrow> acquire_kind \<times> 'c registry" where
  "startAcquire v name s =
     (if \<not> supportsAsync v then (Unsupported, s)
      else if name \<in> set (acquiring s) then (Deferred, s)
      else if \<not> requestWhenAvailable v name then (Declined, s)
      else (Deferred, s\<lparr>acquiring := List.insert name (acquiring s)\<rparr>))"

definition beginAcquire :: "env \<Rightarrow> qstring \<Rightarrow> 'c registry \<Rightarrow> bool \<times> 'c registry" where
  "beginAcquire v name s =
     (case (if supportsAsync v \<and> name \<notin> set (acquiring s) then tryAcquireNow v name else None) of
        Some h \<Rightarrow> (True, armAgainst v name h s)
      | None \<Rightarrow>
        let (kind, s1) = startAcquire v name s
        in if kind \<noteq> Unsupported then (False, s1)
           else case requestObject v name of
                  None \<Rightarrow> (False, s1)
                | Some h \<Rightarrow> (True, armAgainst v name h s1))"

text \<open>The callback of a deferred acquisition.\<close>

definition acquired :: "env \<Rightarrow> qstring \<Rightarrow> handle option \<Rightarrow> 'c registry \<Rightarrow> 'c registry" where
  "acquired v name h s =
     (let s1 = s\<lparr>acquiring := removeAll name (acquiring s)\<rparr>
      in case h of Some h \<Rightarrow> armAgainst v name h s1 | None \<Rightarrow> abandon name s1)"

subsection \<open>Operations of the consumer\<close>

definition addSubscription ::
  "env \<Rightarrow> qstring \<Rightarrow> qstring \<Rightarrow> 'c option \<Rightarrow> 'c option \<Rightarrow> bool \<Rightarrow> 'c registry \<Rightarrow> u64 \<times> 'c registry" where
  "addSubscription v name ev cb onArm readiness s =
     (let i = nextEntryId s;
          e = \<lparr>eid = i, objectName = name, eventName = ev, callback = cb, onArmed = onArm,
               everArmed = False, since = now v, warnLevel = 0, readinessOnly = readiness\<rparr>;
          s1 = s\<lparr>nextEntryId := nextEntryId s + 1, entries := entries s @ [e]\<rparr>
      in case liveHandle v name s1 of
           Some h \<Rightarrow> (i, armAgainst v name h s1)
         | None \<Rightarrow>
           let (armedNow, s2) = beginAcquire v name s1
           in if armedNow then (i, s2) else (i, ensureTimer s2))"

definition firstId :: "u64 \<Rightarrow> 'c entry list \<Rightarrow> bool" where
  "firstId i es = (\<exists>e \<in> set es. eid e = i)"

definition removeFirstId :: "u64 \<Rightarrow> 'c entry list \<Rightarrow> 'c entry list" where
  "removeFirstId i es = takeWhile (\<lambda>e. eid e \<noteq> i) es @ tl (dropWhile (\<lambda>e. eid e \<noteq> i) es)"

definition cancelSubscription :: "u64 \<Rightarrow> 'c registry \<Rightarrow> bool \<times> 'c registry" where
  "cancelSubscription i s =
     (if firstId i (entries s) then (True, stopTimerIfIdle (s\<lparr>entries := removeFirstId i (entries s)\<rparr>))
      else if firstId i (armed s) then (True, s\<lparr>armed := removeFirstId i (armed s)\<rparr>)
      else if firstId i (held s) then (True, s\<lparr>held := removeFirstId i (held s)\<rparr>)
      else (False, s))"

definition stateOf :: "u64 \<Rightarrow> 'c registry \<Rightarrow> subscription_state" where
  "stateOf i s =
     (if firstId i (entries s) then Pending
      else if firstId i (armed s) then Armed
      else if firstId i (held s) then Held
      else Unknown)"

definition generation :: "qstring \<Rightarrow> 'c registry \<Rightarrow> u64" where
  "generation name s = generation_of (target_of name s)"

definition setStatusCallback :: "qstring \<Rightarrow> 'c option \<Rightarrow> 'c registry \<Rightarrow> 'c registry" where
  "setStatusCallback name cb s =
     (let t = target_of name s;
          s1 = s\<lparr>targets := hash_insert name (t\<lparr>onStatus := cb\<rparr>) (targets s)\<rparr>
      in case cb of
           None \<Rightarrow> s1
         | Some fn \<Rightarrow>
           if hasArmedFor name s1 then emit [StatusCallback fn EvArmed (generation_of t) []] s1
           else if hasHeldFor name s1
           then emit [StatusCallback fn EvHeld (generation_of t) ''provider_unavailable''] s1
           else s1)"

definition setRestartPolicy :: "qstring \<Rightarrow> restart_policy \<Rightarrow> 'c registry \<Rightarrow> 'c registry" where
  "setRestartPolicy name policy s = s\<lparr>targets :=
     hash_insert name ((target_of name s)\<lparr>restart := policy\<rparr>) (targets s)\<rparr>"

text \<open>
  \<open>rearm\<close> moves every held entry out of its vector, into the pending set or into \<open>keep\<close>, and
  puts \<open>keep\<close> back only when some entry matched.
\<close>

definition rearm :: "env \<Rightarrow> qstring \<Rightarrow> 'c registry \<Rightarrow> bool \<times> 'c registry" where
  "rearm v name s =
     (let keep = notFor name (held s);
          wake = map (\<lambda>e. e\<lparr>since := now v, warnLevel := 0\<rparr>) (forObject name (held s));
          s1 = s\<lparr>entries := entries s @ wake, held := map moved_from (held s)\<rparr>
      in if wake = [] then (False, s1)
         else let s2 = s1\<lparr>held := keep\<rparr>;
                  s3 = (case liveHandle v name s2 of
                          Some h \<Rightarrow> armAgainst v name h s2
                        | None \<Rightarrow> snd (beginAcquire v name s2))
              in (True, ensureTimer s3))"

definition pendingList :: "'c registry \<Rightarrow> qstring list" where
  "pendingList s = map (\<lambda>e. objectName e @ ''::'' @
     (if readinessOnly e then ''(readiness)'' else if eventName e = [] then ''(any)'' else eventName e)) (entries s)"

subsection \<open>Loss\<close>

definition holdArmed :: "qstring \<Rightarrow> 'c registry \<Rightarrow> 'c registry" where
  "holdArmed name s =
     (if restart (target_of name s) \<noteq> Manual then s
      else s\<lparr>held := held s @ forObject name (armed s), armed := notFor name (armed s)\<rparr>)"

definition loseObject :: "env \<Rightarrow> qstring \<Rightarrow> 'c registry \<Rightarrow> 'c registry" where
  "loseObject v name s =
     (let isHeld = (restart (target_of name s) = Manual);
          wasArmed = hasArmedFor name s;
          s1 = (case hash_find (handles s) name of None \<Rightarrow> s
                | Some h \<Rightarrow> emit [ReleaseHandle h] (s\<lparr>handles := hash_remove name (handles s)\<rparr>));
          s2 = s1\<lparr>acquiring := removeAll name (acquiring s1)\<rparr>;
          s3 = reviveArmed v name (holdArmed name s2);
          s4 = (if wasArmed then reportTarget name (if isHeld then EvHeld else EvLost) ''provider_unavailable'' s3
                else s3)
      in if hasPendingFor name s4 then snd (beginAcquire v name s4) else s4)"

definition deadNames :: "env \<Rightarrow> 'c registry \<Rightarrow> qstring list" where
  "deadNames v s = map fst (filter (\<lambda>(name, h). \<not> handleValid v h) (handles s))"

definition checkLiveness :: "env \<Rightarrow> 'c registry \<Rightarrow> 'c registry" where
  "checkLiveness v s =
     (if armed s = [] then s
      else if deadNames v s = [] then s
      else ensureTimer (fold (loseObject v) (deadNames v s) s))"

definition wantedNames :: "'c registry \<Rightarrow> qstring list" where
  "wantedNames s = remdups (map objectName (filter (\<lambda>e. objectName e \<notin> set (acquiring s)) (entries s)))"

definition tick :: "env \<Rightarrow> 'c registry \<Rightarrow> 'c registry" where
  "tick v s =
     (let s1 = checkLiveness v s;
          s2 = fold (\<lambda>name s. snd (beginAcquire v name s)) (wantedNames s1) s1
      in rescheduleOrStop (reportStillPending v s2))"

text \<open>The first half of \<open>reconnected\<close>: every handle is released, every armed entry is held or revived.\<close>

definition dropHandles :: "'c registry \<Rightarrow> 'c registry" where
  "dropHandles s = (emit (map (\<lambda>(name, h). ReleaseHandle h) (handles s)) s)\<lparr>handles := [], acquiring := []\<rparr>"

definition isManual :: "'c registry \<Rightarrow> 'c entry \<Rightarrow> bool" where
  "isManual s e = (restart (target_of (objectName e) s) = Manual)"

definition disarmAll :: "env \<Rightarrow> 'c registry \<Rightarrow> 'c registry" where
  "disarmAll v s = s\<lparr>armed := [], held := held s @ filter (isManual s) (armed s),
     entries := entries s @ map (\<lambda>e. e\<lparr>since := now v, warnLevel := 0\<rparr>) (filter (\<lambda>e. \<not> isManual s e) (armed s))\<rparr>"

definition reconnected :: "env \<Rightarrow> 'c registry \<Rightarrow> 'c registry" where
  "reconnected v s =
     (let s1 = dropHandles s;
          toHold = filter (isManual s1) (armed s1);
          toChase = filter (\<lambda>e. \<not> isManual s1 e) (armed s1);
          s2 = disarmAll v s1;
          s3 = fold (\<lambda>name s. reportTarget name EvHeld ''connection_reset'' s) (remdups (map objectName toHold)) s2;
          s4 = fold (\<lambda>name s. snd (beginAcquire v name s)) (remdups (map objectName toChase)) s3
      in ensureTimer s4)"

subsection \<open>Sequences of operations\<close>

text \<open>Every operation runs in an environment of its own; a tick only runs while the timer does.\<close>

datatype 'c reg_op =
  OpAdd qstring qstring "'c option" "'c option" bool
| OpCancelSub u64
| OpAcquired qstring "handle option"
| OpTick
| OpReconnected
| OpRearm qstring
| OpPolicy qstring restart_policy
| OpStatus qstring "'c option"

fun reg_op_step :: "'c reg_op \<times> env \<Rightarrow> 'c registry \<Rightarrow> 'c registry" where
  "reg_op_step (OpAdd name ev cb a ro, v) s = snd (addSubscription v name ev cb a ro s)"
| "reg_op_step (OpCancelSub i, v) s = snd (cancelSubscription i s)"
| "reg_op_step (OpAcquired name h, v) s = acquired v name h s"
| "reg_op_step (OpTick, v) s = (if timerOn s then tick v s else s)"
| "reg_op_step (OpReconnected, v) s = reconnected v s"
| "reg_op_step (OpRearm name, v) s = snd (rearm v name s)"
| "reg_op_step (OpPolicy name p, v) s = setRestartPolicy name p s"
| "reg_op_step (OpStatus name cb, v) s = setStatusCallback name cb s"

definition run_registry :: "('c reg_op \<times> env) list \<Rightarrow> 'c registry \<Rightarrow> 'c registry" where
  "run_registry ops s = fold reg_op_step ops s"

subsection \<open>What the internal steps keep\<close>

definition ids :: "'c registry \<Rightarrow> u64 multiset" where
  "ids s = image_mset eid (mset (entries s) + mset (armed s) + mset (held s))"

text \<open>An armed entry is a real subscription and its object has a handle.\<close>

definition armed_ok :: "'c registry \<Rightarrow> bool" where
  "armed_ok s = (\<forall>e \<in> set (armed s). \<not> readinessOnly e \<and> hash_contains (handles s) (objectName e))"

definition keeps :: "'c registry \<Rightarrow> 'c registry \<Rightarrow> bool" where
  "keeps s s' = (ids s' \<subseteq># ids s \<and> held s' = held s \<and> nextEntryId s' = nextEntryId s \<and>
     (armed_ok s \<longrightarrow> armed_ok s') \<and> (hasTimer s \<longrightarrow> hasTimer s') \<and>
     ((timerOn s \<longrightarrow> hasTimer s) \<longrightarrow> timerOn s' \<longrightarrow> hasTimer s'))"

lemma keeps_refl [simp]: "keeps s s"
  by (simp add: keeps_def)

lemma keeps_trans: "keeps s t \<Longrightarrow> keeps t u \<Longrightarrow> keeps s u"
  by (auto simp: keeps_def)

lemma keeps_fold: "(\<And>x s. keeps s (f x s)) \<Longrightarrow> keeps s (fold f xs s)"
  by (induction xs arbitrary: s) (auto intro: keeps_trans)

lemma emit_fields [simp]:
  "entries (emit os s) = entries s" "armed (emit os s) = armed s" "held (emit os s) = held s"
  "acquiring (emit os s) = acquiring s" "targets (emit os s) = targets s" "handles (emit os s) = handles s"
  "hasTimer (emit os s) = hasTimer s" "timerOn (emit os s) = timerOn s" "intervalMs (emit os s) = intervalMs s"
  "nextEntryId (emit os s) = nextEntryId s" "rlog (emit os s) = rlog s @ os"
  by (simp_all add: emit_def)

lemma reportTarget_fields [simp]:
  "entries (reportTarget n e r s) = entries s" "armed (reportTarget n e r s) = armed s"
  "held (reportTarget n e r s) = held s" "acquiring (reportTarget n e r s) = acquiring s"
  "targets (reportTarget n e r s) = targets s" "handles (reportTarget n e r s) = handles s"
  "hasTimer (reportTarget n e r s) = hasTimer s" "timerOn (reportTarget n e r s) = timerOn s"
  "nextEntryId (reportTarget n e r s) = nextEntryId s"
  by (simp_all add: reportTarget_def split: option.splits)

lemma nextGeneration_fields [simp]:
  "entries (nextGeneration n s) = entries s" "armed (nextGeneration n s) = armed s"
  "held (nextGeneration n s) = held s" "acquiring (nextGeneration n s) = acquiring s"
  "handles (nextGeneration n s) = handles s" "hasTimer (nextGeneration n s) = hasTimer s"
  "timerOn (nextGeneration n s) = timerOn s" "nextEntryId (nextGeneration n s) = nextEntryId s"
  by (simp_all add: nextGeneration_def Let_def)

lemma ensureTimer_fields [simp]:
  "entries (ensureTimer s) = entries s" "armed (ensureTimer s) = armed s" "held (ensureTimer s) = held s"
  "acquiring (ensureTimer s) = acquiring s" "targets (ensureTimer s) = targets s"
  "handles (ensureTimer s) = handles s" "nextEntryId (ensureTimer s) = nextEntryId s" "rlog (ensureTimer s) = rlog s"
  by (simp_all add: ensureTimer_def)

lemma mset_split_object: "mset (forObject n es) + mset (notFor n es) = mset es"
  by (simp add: forObject_def notFor_def multiset_partition[symmetric])

lemma eids_split_object:
  "image_mset eid (mset (forObject n es)) + image_mset eid (mset (notFor n es)) = image_mset eid (mset es)"
  by (simp add: mset_split_object flip: image_mset_union)

lemma mset_since: "image_mset eid (mset (map (\<lambda>e. e\<lparr>since := t\<rparr>) es)) = image_mset eid (mset es)"
  by (simp add: image_mset.compositionality comp_def)

lemma ids_reviveArmed [simp]: "ids (reviveArmed v n s) = ids s"
proof -
  have "image_mset eid (mset (armed s)) =
      image_mset eid (mset (forObject n (armed s))) + image_mset eid (mset (notFor n (armed s)))"
    by (simp add: eids_split_object)
  then show ?thesis by (simp add: ids_def reviveArmed_def mset_since del: mset_map)
qed

lemma keeps_reviveArmed: "keeps s (reviveArmed v n s)"
  by (simp add: keeps_def) (auto simp: armed_ok_def reviveArmed_def notFor_def)

lemma keeps_emit: "keeps s (emit os s)"
  by (simp add: keeps_def ids_def armed_ok_def)

lemma keeps_chooseHandle: "keeps s (snd (chooseHandle v n obj s))"
proof -
  have here: "keeps t (t\<lparr>handles := hash_insert n obj (handles t)\<rparr>)" for t :: "'a registry"
    by (simp add: keeps_def ids_def armed_ok_def)
  have insert: "keeps s (t\<lparr>handles := hash_insert n obj g\<rparr>)" if "keeps s t" "g = handles t"
    for t :: "'a registry" and g
    using keeps_trans[OF that(1) here] that(2) by simp
  show ?thesis
    unfolding chooseHandle_def Let_def
    by (auto split: option.split intro: keeps_emit insert keeps_trans[OF keeps_reviveArmed keeps_emit])
qed

lemma chooseHandle_contains: "hash_contains (handles (snd (chooseHandle v n obj s))) n"
  by (auto simp: chooseHandle_def Let_def hash_contains_def split: option.split)

lemma takeMatching_fst: "fst (takeMatching n s) = forObject n (entries s)"
  by (simp add: takeMatching_def Let_def)

lemma takeMatching_fields [simp]:
  "entries (snd (takeMatching n s)) = notFor n (entries s)" "armed (snd (takeMatching n s)) = armed s"
  "held (snd (takeMatching n s)) = held s" "handles (snd (takeMatching n s)) = handles s"
  "acquiring (snd (takeMatching n s)) = acquiring s" "nextEntryId (snd (takeMatching n s)) = nextEntryId s"
  "targets (snd (takeMatching n s)) = targets s" "hasTimer (snd (takeMatching n s)) = hasTimer s"
  "rlog (snd (takeMatching n s)) = rlog s"
  by (simp_all add: takeMatching_def Let_def)

lemma takeMatching_timerOn: "timerOn (snd (takeMatching n s)) \<Longrightarrow> timerOn s"
  by (auto simp: takeMatching_def Let_def split: if_splits)

text \<open>Arming a list of entries adds the real ones to the armed set, in order.\<close>

lemma armEntry_fold:
  "armed (fold (armEntry h) es s) = armed s @ map (\<lambda>e. e\<lparr>everArmed := True\<rparr>) (filter (\<lambda>e. \<not> readinessOnly e) es)"
  "entries (fold (armEntry h) es s) = entries s" "held (fold (armEntry h) es s) = held s"
  "handles (fold (armEntry h) es s) = handles s" "acquiring (fold (armEntry h) es s) = acquiring s"
  "targets (fold (armEntry h) es s) = targets s" "nextEntryId (fold (armEntry h) es s) = nextEntryId s"
  "hasTimer (fold (armEntry h) es s) = hasTimer s" "timerOn (fold (armEntry h) es s) = timerOn s"
  by (induction es arbitrary: s) (auto simp: armEntry_def Let_def)

lemma eids_real_subset:
  "image_mset eid (mset (map (\<lambda>e. e\<lparr>everArmed := True\<rparr>) (filter P es))) \<subseteq># image_mset eid (mset es)"
proof -
  have "image_mset eid (mset (map (\<lambda>e. e\<lparr>everArmed := True\<rparr>) (filter P es))) = image_mset eid (mset (filter P es))"
    by (simp add: image_mset.compositionality comp_def)
  moreover have "mset (filter P es) \<subseteq># mset es" by simp
  ultimately show ?thesis by (simp add: image_mset_subseteq_mono)
qed

lemma keeps_ensureTimer: "keeps s (ensureTimer s)"
  by (auto simp: keeps_def ids_def armed_ok_def ensureTimer_def)

lemma keeps_reportTarget: "keeps s (reportTarget n e r s)"
  by (simp add: keeps_def ids_def armed_ok_def)

lemma keeps_armAgainst: "keeps s (armAgainst v n obj s)"
proof -
  obtain h s1 where c: "chooseHandle v n obj s = (h, s1)" by fastforce
  obtain m s2 where t: "takeMatching n s1 = (m, s2)" by fastforce
  let ?real = "\<exists>e \<in> set m. \<not> readinessOnly e"
  let ?s3 = "if ?real then nextGeneration n s2 else s2"
  let ?s4 = "fold (armEntry h) m ?s3"
  let ?s5 = "if ?real then reportTarget n EvArmed [] ?s4 else ?s4"
  have eq: "armAgainst v n obj s = ensureTimer ?s5" by (simp add: armAgainst_def c t Let_def)
  have s1: "keeps s s1" using keeps_chooseHandle[of s v n obj] c by simp
  have cont: "hash_contains (handles s1) n" using chooseHandle_contains[of v n obj s] c by simp
  have m: "m = forObject n (entries s1)" using takeMatching_fst[of n s1] t by simp
  have s2: "entries s2 = notFor n (entries s1)" "armed s2 = armed s1" "held s2 = held s1"
      "handles s2 = handles s1" "nextEntryId s2 = nextEntryId s1" "hasTimer s2 = hasTimer s1" "timerOn s2 \<Longrightarrow> timerOn s1"
    using takeMatching_fields[of n s1] takeMatching_timerOn[of n s1] by (simp_all add: t)
  have "ids ?s4 \<subseteq># ids s1"
  proof -
    have "image_mset eid (mset (entries s1)) = image_mset eid (mset m) + image_mset eid (mset (notFor n (entries s1)))"
      by (simp add: m eids_split_object)
    then show ?thesis
      using eids_real_subset[of "\<lambda>e. \<not> readinessOnly e" m]
      by (simp add: ids_def armEntry_fold s2 del: mset_map)
  qed
  moreover have "armed_ok ?s4" if "armed_ok s1"
    using that cont by (auto simp: armed_ok_def armEntry_fold s2 m forObject_def)
  moreover have "held ?s4 = held s1" "nextEntryId ?s4 = nextEntryId s1" "hasTimer ?s4 = hasTimer s1"
    "timerOn ?s4 \<Longrightarrow> timerOn s1"
    using s2 by (auto simp: armEntry_fold split: if_splits)
  ultimately have "keeps s1 ?s4" unfolding keeps_def by blast
  moreover have "keeps ?s4 ?s5" by (cases ?real) (simp_all only: if_True if_False keeps_reportTarget keeps_refl)
  ultimately have "keeps s1 ?s5" by (rule keeps_trans)
  from keeps_trans[OF keeps_trans[OF s1 this] keeps_ensureTimer] show ?thesis unfolding eq .
qed

lemma keeps_acquiring: "keeps s (s\<lparr>acquiring := a\<rparr>)"
  by (simp add: keeps_def ids_def armed_ok_def)

lemma keeps_startAcquire: "keeps s (snd (startAcquire v n s))"
  unfolding startAcquire_def using keeps_acquiring by auto

lemma keeps_beginAcquire: "keeps s (snd (beginAcquire v n s))"
proof (cases "if supportsAsync v \<and> n \<notin> set (acquiring s) then tryAcquireNow v n else None")
  case None
  obtain k s1 where a: "startAcquire v n s = (k, s1)" by fastforce
  have s1: "keeps s s1" using keeps_startAcquire[of s v n] a by simp
  then have "keeps s (armAgainst v n h s1)" for h by (blast intro: keeps_trans keeps_armAgainst)
  with None a s1 show ?thesis by (auto simp: beginAcquire_def split: option.split)
next
  case (Some h)
  then show ?thesis by (simp add: beginAcquire_def keeps_armAgainst)
qed

lemma keeps_abandon: "keeps s (abandon n s)"
proof -
  obtain m s1 where t: "takeMatching n s = (m, s1)" by fastforce
  have "mset (notFor n (entries s)) \<subseteq># mset (entries s)" by (simp add: notFor_def)
  then have "keeps s s1"
    using takeMatching_fields[of n s] takeMatching_timerOn[of n s] t
    by (auto simp: keeps_def ids_def armed_ok_def image_mset_subseteq_mono)
  from keeps_trans[OF this keeps_emit] have e: "keeps s (emit os s1)" for os .
  from keeps_trans[OF e keeps_reportTarget] e show ?thesis
    unfolding abandon_def t Let_def prod.case by (simp split: if_split)
qed

text \<open>The part of the invariant that also survives when subscriptions are held.\<close>

definition sound :: "'c registry \<Rightarrow> bool" where
  "sound s = (armed_ok s \<and> (\<forall>e \<in> set (held s). \<not> readinessOnly e) \<and> (timerOn s \<longrightarrow> hasTimer s))"

definition evolves :: "'c registry \<Rightarrow> 'c registry \<Rightarrow> bool" where
  "evolves s s' = (ids s' \<subseteq># ids s \<and> nextEntryId s' = nextEntryId s \<and> (sound s \<longrightarrow> sound s') \<and>
     (hasTimer s \<longrightarrow> hasTimer s'))"

lemma evolves_trans: "evolves s t \<Longrightarrow> evolves t u \<Longrightarrow> evolves s u"
  by (auto simp: evolves_def)

lemma keeps_evolves: "keeps s t \<Longrightarrow> evolves s t"
  by (auto simp: evolves_def keeps_def sound_def)

lemma evolves_fold: "(\<And>x s. evolves s (f x s)) \<Longrightarrow> evolves s (fold f xs s)"
proof (induction xs arbitrary: s)
  case Nil
  show ?case by (simp add: evolves_def)
next
  case (Cons x xs)
  from Cons.prems[of s x] Cons.IH[OF Cons.prems, of "f x s"] show ?case
    by (simp add: evolves_trans)
qed

lemma evolves_holdArmed: "evolves s (holdArmed n s)"
proof -
  have "image_mset eid (mset (armed s)) =
      image_mset eid (mset (forObject n (armed s))) + image_mset eid (mset (notFor n (armed s)))"
    by (simp add: eids_split_object)
  then have "ids (holdArmed n s) = ids s" by (simp add: ids_def holdArmed_def)
  then show ?thesis
    by (auto simp: evolves_def sound_def armed_ok_def holdArmed_def forObject_def notFor_def)
qed

text \<open>Losing an object: its handle goes only together with everything armed on it.\<close>

lemma evolves_loseObject: "evolves s (loseObject v n s)"
proof -
  let ?s1 = "case hash_find (handles s) n of None \<Rightarrow> s
      | Some h \<Rightarrow> emit [ReleaseHandle h] (s\<lparr>handles := hash_remove n (handles s)\<rparr>)"
  let ?s2 = "?s1\<lparr>acquiring := removeAll n (acquiring ?s1)\<rparr>"
  let ?s3 = "reviveArmed v n (holdArmed n ?s2)"
  let ?k = "reviveArmed v n (holdArmed n s)"
  have k: "evolves s ?k"
    using evolves_holdArmed keeps_evolves[OF keeps_reviveArmed] by (rule evolves_trans)
  have fields: "entries ?s2 = entries s" "armed ?s2 = armed s" "held ?s2 = held s" "targets ?s2 = targets s"
    "nextEntryId ?s2 = nextEntryId s" "hasTimer ?s2 = hasTimer s" "timerOn ?s2 = timerOn s"
    by (simp_all split: option.split)
  have same: "entries ?s3 = entries ?k" "armed ?s3 = armed ?k" "held ?s3 = held ?k" "nextEntryId ?s3 = nextEntryId ?k"
    "hasTimer ?s3 = hasTimer ?k" "timerOn ?s3 = timerOn ?k"
    using fields by (simp_all add: reviveArmed_def holdArmed_def target_of_def)
  have gone: "\<forall>e \<in> set (armed ?k). objectName e \<noteq> n" by (auto simp: reviveArmed_def notFor_def)
  have "hash_contains (handles ?s3) m = hash_contains (handles s) m" if "m \<noteq> n" for m
    using that by (simp add: reviveArmed_def holdArmed_def split: option.split)
  moreover have "handles ?k = handles s" by (simp add: reviveArmed_def holdArmed_def)
  ultimately have "sound ?k \<longrightarrow> sound ?s3" using gone same by (auto simp: sound_def armed_ok_def)
  with k same have s3: "evolves s ?s3" by (simp add: evolves_def ids_def)
  define s4 where "s4 = (if hasArmedFor n s
    then reportTarget n (if restart (target_of n s) = Manual then EvHeld else EvLost) ''provider_unavailable'' ?s3 else ?s3)"
  have "evolves s s4"
    unfolding s4_def using s3 evolves_trans[OF s3 keeps_evolves[OF keeps_reportTarget]] by (simp only: split: if_split) blast
  moreover from evolves_trans[OF this keeps_evolves[OF keeps_beginAcquire]]
  have "evolves s (snd (beginAcquire v n s4))" .
  moreover have "loseObject v n s = (if hasPendingFor n s4 then snd (beginAcquire v n s4) else s4)"
    by (simp only: loseObject_def Let_def s4_def)
  ultimately show ?thesis by simp
qed

subsection \<open>The watchdog\<close>

text \<open>Somebody needs the timer: an armed subscription must be watched, and a pending one that no
  acquisition is under way for must be retried.\<close>

definition awake :: "'c registry \<Rightarrow> bool" where
  "awake s = (armed s \<noteq> [] \<or> (\<exists>e \<in> set (entries s). objectName e \<notin> set (acquiring s)) \<longrightarrow> timerOn s)"

definition ticking :: "'c registry \<Rightarrow> bool" where
  "ticking s = (timerNeeded s \<longrightarrow> timerOn s)"

lemma ticking_awake: "ticking s \<Longrightarrow> awake s"
  by (auto simp: ticking_def awake_def timerNeeded_def)

lemma ticking_ensureTimer [simp]: "ticking (ensureTimer s)"
  by (simp add: ticking_def timerNeeded_def ensureTimer_def)

lemma ticking_armAgainst [simp]: "ticking (armAgainst v n h s)"
  by (simp add: armAgainst_def split_beta Let_def)

lemma ticking_acquiring [simp]: "ticking (s\<lparr>acquiring := a\<rparr>) = ticking s"
  by (simp add: ticking_def timerNeeded_def)

lemma ticking_startAcquire: "ticking (snd (startAcquire v n s)) = ticking s"
  by (simp add: startAcquire_def)

lemma ticking_beginAcquire: "fst (beginAcquire v n s) \<or> ticking s \<Longrightarrow> ticking (snd (beginAcquire v n s))"
proof (cases "if supportsAsync v \<and> n \<notin> set (acquiring s) then tryAcquireNow v n else None")
  case None
  assume *: "fst (beginAcquire v n s) \<or> ticking s"
  obtain k s1 where a: "startAcquire v n s = (k, s1)" by fastforce
  with ticking_startAcquire[of v n s] have "ticking s1 = ticking s" by simp
  with * None a show ?thesis
    by (cases "requestObject v n"; cases "k = Unsupported") (simp_all add: beginAcquire_def)
qed (simp add: beginAcquire_def)

lemma ticking_fold_beginAcquire: "ticking s \<Longrightarrow> ticking (fold (\<lambda>n s. snd (beginAcquire v n s)) ns s)"
  by (induction ns arbitrary: s) (simp_all add: ticking_beginAcquire)

lemma ticking_checkLiveness: "ticking s \<Longrightarrow> ticking (checkLiveness v s)"
  by (simp add: checkLiveness_def)

lemma rescheduleOrStop_fields [simp]:
  "entries (rescheduleOrStop s) = entries s" "armed (rescheduleOrStop s) = armed s"
  "held (rescheduleOrStop s) = held s" "acquiring (rescheduleOrStop s) = acquiring s"
  "handles (rescheduleOrStop s) = handles s" "nextEntryId (rescheduleOrStop s) = nextEntryId s"
  "hasTimer (rescheduleOrStop s) = hasTimer s" "targets (rescheduleOrStop s) = targets s"
  by (simp_all add: rescheduleOrStop_def)

lemma rescheduleOrStop_timerOn:
  assumes "timerOn s" and "hasTimer s" and "timerNeeded s"
    and "armed s \<noteq> [] \<or> (\<exists>e \<in> set (entries s). needsTicks s e)"
  shows "timerOn (rescheduleOrStop s)"
proof (cases "entries s = []")
  case True
  with assms(2,3) show ?thesis by (simp add: rescheduleOrStop_def)
next
  case e: False
  show ?thesis
  proof (cases "\<exists>e \<in> set (entries s). needsTicks s e")
    case True
    with e assms(1-3) show ?thesis by (simp add: rescheduleOrStop_def)
  next
    case False
    with assms(4) have "armed s \<noteq> []" by blast
    with e False assms(2,3) show ?thesis by (simp add: rescheduleOrStop_def)
  qed
qed

lemma awake_rescheduleOrStop:
  assumes "ticking s" and "timerNeeded s \<Longrightarrow> hasTimer s"
  shows "awake (rescheduleOrStop s)"
  unfolding awake_def rescheduleOrStop_fields
proof
  assume who: "armed s \<noteq> [] \<or> (\<exists>e \<in> set (entries s). objectName e \<notin> set (acquiring s))"
  then have need: "timerNeeded s" by (auto simp: timerNeeded_def)
  with assms have "timerOn s" "hasTimer s" by (simp_all add: ticking_def)
  with need who show "timerOn (rescheduleOrStop s)"
    by (intro rescheduleOrStop_timerOn) (auto simp: needsTicks_def)
qed

lemma ticking_reportStillPending: "ticking (reportStillPending v s) = ticking s"
  by (simp add: ticking_def timerNeeded_def reportStillPending_def)

lemma warnStep_fields [simp]:
  "eid (warnStep v e) = eid e" "objectName (warnStep v e) = objectName e" "eventName (warnStep v e) = eventName e"
  "readinessOnly (warnStep v e) = readinessOnly e"
  by (simp_all add: warnStep_def Let_def)

lemma abandon_fields [simp]:
  "entries (abandon n s) = notFor n (entries s)" "armed (abandon n s) = armed s" "held (abandon n s) = held s"
  "acquiring (abandon n s) = acquiring s"
  by (simp_all add: abandon_def split_beta Let_def)

lemma abandon_timerOn: "timerOn s \<Longrightarrow> timerNeeded (abandon n s) \<Longrightarrow> timerOn (abandon n s)"
proof -
  assume on: "timerOn s" and need: "timerNeeded (abandon n s)"
  have "timerNeeded (s\<lparr>entries := notFor n (entries s)\<rparr>)" using need by (simp add: timerNeeded_def)
  with on have "timerOn (snd (takeMatching n s))" by (simp add: takeMatching_def Let_def)
  then show ?thesis by (simp add: abandon_def split_beta Let_def)
qed

lemma awake_abandon:
  assumes "awake s"
  shows "awake (abandon n (s\<lparr>acquiring := removeAll n (acquiring s)\<rparr>))"
  unfolding awake_def
proof
  let ?s = "s\<lparr>acquiring := removeAll n (acquiring s)\<rparr>"
  assume who: "armed (abandon n ?s) \<noteq> [] \<or>
    (\<exists>e \<in> set (entries (abandon n ?s)). objectName e \<notin> set (acquiring (abandon n ?s)))"
  then have "armed s \<noteq> [] \<or> (\<exists>e \<in> set (entries s). objectName e \<notin> set (acquiring s))"
    by (auto simp: notFor_def)
  with assms have "timerOn ?s" by (simp add: awake_def)
  moreover have "timerNeeded (abandon n ?s)" using who by (auto simp: timerNeeded_def)
  ultimately show "timerOn (abandon n ?s)" by (rule abandon_timerOn)
qed

lemma removeFirstId_subset: "mset (removeFirstId i (es :: 'a entry list)) \<subseteq># mset es"
proof -
  have "mset (tl ys) \<subseteq># mset ys" for ys :: "'a entry list"
    by (cases ys) auto
  then have "mset (removeFirstId i es) \<subseteq># mset (takeWhile (\<lambda>e. eid e \<noteq> i) es) + mset (dropWhile (\<lambda>e. eid e \<noteq> i) es)"
    by (simp add: removeFirstId_def)
  also have "\<dots> = mset es" by (simp flip: mset_append)
  finally show ?thesis .
qed

lemma awake_cancel: "awake s \<Longrightarrow> awake (snd (cancelSubscription i s))"
proof -
  assume a: "awake s"
  have sub: "set (removeFirstId i es) \<subseteq> set es" for es :: "'a entry list"
    using set_mset_mono[OF removeFirstId_subset[of i es]] by simp
  have "awake (stopTimerIfIdle t)" if "awake t" for t :: "'a registry"
    using that by (cases "timerNeeded t") (auto simp: awake_def stopTimerIfIdle_def timerNeeded_def)
  moreover have "awake (s\<lparr>entries := removeFirstId i (entries s)\<rparr>)"
    using a sub[of "entries s"] by (auto simp: awake_def)
  moreover have "awake (s\<lparr>armed := removeFirstId i (armed s)\<rparr>)"
    using a sub[of "armed s"] by (auto simp: awake_def)
  moreover have "awake (s\<lparr>held := h\<rparr>)" for h using a by (simp add: awake_def)
  ultimately show ?thesis using a by (simp add: cancelSubscription_def)
qed

subsection \<open>The invariant over sequences of operations\<close>

definition registry_base :: "nat \<Rightarrow> 'c registry \<Rightarrow> bool" where
  "registry_base n s =
     (unat (nextEntryId s) = Suc n \<and> (\<forall>i. count (ids s) i \<le> 1) \<and> (\<forall>i \<in># ids s. unat i \<le> n) \<and> sound s)"

definition registry_inv :: "nat \<Rightarrow> 'c registry \<Rightarrow> bool" where
  "registry_inv n s = (registry_base n s \<and> awake s)"

lemma registry_base_evolves:
  assumes "registry_base n s" and "evolves s t"
  shows "registry_base n t"
proof -
  have "count (ids t) i \<le> 1" for i
    using assms mset_subset_eq_count[of "ids t" "ids s" i] le_trans
    unfolding registry_base_def evolves_def by blast
  moreover have "unat i \<le> n" if "i \<in># ids t" for i
    using assms that mset_subset_eqD[of "ids t" "ids s" i] by (auto simp: registry_base_def evolves_def)
  ultimately show ?thesis using assms by (auto simp: registry_base_def evolves_def)
qed

lemma registry_inv_new: "registry_inv 0 newRegistry"
  by (simp add: registry_inv_def registry_base_def newRegistry_def ids_def sound_def armed_ok_def awake_def)

lemma evolves_refl [simp]: "evolves s s"
  by (simp add: evolves_def)

lemma evolves_ensureTimer: "evolves s (ensureTimer s)"
  by (rule keeps_evolves) (rule keeps_ensureTimer)

lemma evolves_rescheduleOrStop: "evolves s (rescheduleOrStop s)"
proof -
  have "timerOn (rescheduleOrStop s) \<longrightarrow> timerOn s \<or> hasTimer s"
    by (simp add: rescheduleOrStop_def)
  then show ?thesis by (auto simp: evolves_def sound_def armed_ok_def ids_def)
qed

lemma evolves_reportStillPending: "evolves s (reportStillPending v s)"
  by (simp add: evolves_def sound_def armed_ok_def ids_def reportStillPending_def image_mset.compositionality comp_def)

lemma evolves_checkLiveness: "evolves s (checkLiveness v s)"
proof -
  have "evolves s (fold (loseObject v) ns s)" for ns by (rule evolves_fold) (rule evolves_loseObject)
  from evolves_trans[OF this evolves_ensureTimer] show ?thesis unfolding checkLiveness_def by simp
qed

lemma evolves_beginAcquire: "evolves s (snd (beginAcquire v n s))"
  by (rule keeps_evolves) (rule keeps_beginAcquire)

lemma evolves_tick: "evolves s (tick v s)"
proof -
  let ?s1 = "checkLiveness v s"
  let ?s2 = "fold (\<lambda>n s. snd (beginAcquire v n s)) (wantedNames ?s1) ?s1"
  have "evolves s ?s2" by (rule evolves_trans[OF evolves_checkLiveness evolves_fold[OF evolves_beginAcquire]])
  then show ?thesis
    unfolding tick_def Let_def
    using evolves_trans evolves_reportStillPending evolves_rescheduleOrStop by blast
qed

lemma awake_tick:
  assumes "timerOn s" and "timerOn s \<longrightarrow> hasTimer s"
  shows "awake (tick v s)"
proof -
  let ?s1 = "checkLiveness v s"
  let ?s2 = "fold (\<lambda>n s. snd (beginAcquire v n s)) (wantedNames ?s1) ?s1"
  have "evolves s ?s2" by (rule evolves_trans[OF evolves_checkLiveness evolves_fold[OF evolves_beginAcquire]])
  then have "hasTimer ?s2" using assms by (auto simp: evolves_def)
  moreover have "ticking ?s2"
    by (intro ticking_fold_beginAcquire ticking_checkLiveness) (simp add: ticking_def assms(1))
  ultimately show ?thesis
    unfolding tick_def Let_def
    by (intro awake_rescheduleOrStop) (simp_all add: ticking_reportStillPending, simp add: reportStillPending_def)
qed

lemma evolves_disarm: "evolves s (disarmAll v (dropHandles s))"
proof -
  let ?s = "dropHandles s"
  have part: "image_mset eid (filter_mset (isManual ?s) (mset (armed s))) +
      image_mset eid (filter_mset (\<lambda>e. \<not> isManual ?s e) (mset (armed s))) = image_mset eid (mset (armed s))"
    by (metis image_mset_union multiset_partition)
  have fields: "entries ?s = entries s" "armed ?s = armed s" "held ?s = held s" "nextEntryId ?s = nextEntryId s"
    "hasTimer ?s = hasTimer s" "timerOn ?s = timerOn s"
    by (simp_all add: dropHandles_def)
  have "ids (disarmAll v ?s) = ids s"
    by (simp add: ids_def disarmAll_def fields image_mset.compositionality comp_def)
      (simp add: part[symmetric] ac_simps)
  moreover have "sound s \<longrightarrow> sound (disarmAll v ?s)"
    by (auto simp: sound_def armed_ok_def disarmAll_def fields)
  ultimately show ?thesis by (simp add: evolves_def disarmAll_def fields)
qed

lemma evolves_reconnected: "evolves s (reconnected v s)"
proof -
  have report: "evolves t (fold (\<lambda>n s. reportTarget n e r s) ns t)" for t :: "'a registry" and e r ns
    by (rule evolves_fold) (rule keeps_evolves, rule keeps_reportTarget)
  have chase: "evolves t (fold (\<lambda>n s. snd (beginAcquire v n s)) ns t)" for t :: "'a registry" and ns
    by (rule evolves_fold) (rule evolves_beginAcquire)
  show ?thesis
    unfolding reconnected_def Let_def
    by (rule evolves_trans[OF evolves_trans[OF evolves_trans[OF evolves_disarm report] chase] evolves_ensureTimer])
qed

lemma registry_inv_add:
  assumes inv: "registry_inv n s" and n: "Suc (Suc n) < 2 ^ 64"
  shows "registry_inv (Suc n) (snd (addSubscription v name ev cb a ro s))"
proof -
  define e where "e = \<lparr>eid = nextEntryId s, objectName = name, eventName = ev, callback = cb, onArmed = a,
    everArmed = False, since = now v, warnLevel = 0, readinessOnly = ro\<rparr>"
  define s1 where "s1 = s\<lparr>nextEntryId := nextEntryId s + 1, entries := entries s @ [e]\<rparr>"
  have succ: "unat (nextEntryId s + 1) = Suc (Suc n)"
    using inv n by (simp add: registry_inv_def registry_base_def unat_word_ariths)
  have s1_fields: "nextEntryId s1 = nextEntryId s + 1" "armed s1 = armed s" "held s1 = held s"
    "handles s1 = handles s" "hasTimer s1 = hasTimer s" "timerOn s1 = timerOn s"
    by (simp_all add: s1_def)
  have ids: "ids s1 = add_mset (nextEntryId s) (ids s)"
    by (simp add: ids_def s1_def e_def)
  have fresh: "count (ids s) (nextEntryId s) = 0"
    using inv by (auto simp: registry_inv_def registry_base_def count_eq_zero_iff)
  have s1: "registry_base (Suc n) s1"
    using inv fresh succ
    by (auto simp: registry_inv_def registry_base_def s1_fields ids sound_def armed_ok_def intro: le_SucI)
  have result: "evolves s1 (snd (addSubscription v name ev cb a ro s)) \<and>
      ticking (snd (addSubscription v name ev cb a ro s))"
  proof (cases "liveHandle v name s1")
    case (Some h)
    then show ?thesis
      by (simp add: addSubscription_def Let_def keeps_evolves[OF keeps_armAgainst] flip: e_def s1_def)
  next
    case None
    obtain b s2 where b: "beginAcquire v name s1 = (b, s2)" by fastforce
    have "evolves s1 s2" "b \<Longrightarrow> ticking s2"
      using evolves_beginAcquire[of s1 v name] ticking_beginAcquire[of v name s1] b by simp_all
    with None b show ?thesis
      by (auto simp: addSubscription_def Let_def simp flip: e_def s1_def intro: evolves_trans evolves_ensureTimer)
  qed
  with registry_base_evolves[OF s1] show ?thesis
    by (simp add: registry_inv_def ticking_awake)
qed

lemma evolves_cancel: "evolves s (snd (cancelSubscription i s))"
proof -
  have sub: "image_mset eid (mset (removeFirstId i es)) \<subseteq># image_mset eid (mset es)"
    "set (removeFirstId i es) \<subseteq> set es" for es :: "'a entry list"
    using image_mset_subseteq_mono[OF removeFirstId_subset[of i es]] set_mset_mono[OF removeFirstId_subset[of i es]] by simp_all
  have "evolves t (stopTimerIfIdle t)" for t :: "'a registry"
    by (auto simp: evolves_def stopTimerIfIdle_def ids_def sound_def armed_ok_def)
  moreover have "evolves s (s\<lparr>entries := removeFirstId i (entries s)\<rparr>)"
    using sub[of "entries s"] by (simp add: evolves_def ids_def sound_def armed_ok_def)
  moreover have "evolves s (s\<lparr>armed := removeFirstId i (armed s)\<rparr>)"
    using sub[of "armed s"] by (auto simp: evolves_def ids_def sound_def armed_ok_def)
  moreover have "evolves s (s\<lparr>held := removeFirstId i (held s)\<rparr>)"
    using sub[of "held s"] by (auto simp: evolves_def ids_def sound_def armed_ok_def)
  ultimately show ?thesis
    unfolding cancelSubscription_def by (auto intro: evolves_trans)
qed

lemma evolves_rearm: "evolves s (snd (rearm v name s))" and awake_rearm: "awake s \<Longrightarrow> awake (snd (rearm v name s))"
proof -
  let ?wake = "map (\<lambda>e. e\<lparr>since := now v, warnLevel := 0\<rparr>) (forObject name (held s))"
  define s1 where "s1 = s\<lparr>entries := entries s @ ?wake, held := map moved_from (held s)\<rparr>"
  define s2 where "s2 = s1\<lparr>held := notFor name (held s)\<rparr>"
  have eids: "image_mset eid (mset (held s)) =
      image_mset eid (mset (forObject name (held s))) + image_mset eid (mset (notFor name (held s)))"
    by (simp add: eids_split_object)
  have "ids s2 = ids s"
    by (simp add: ids_def s1_def s2_def image_mset.compositionality comp_def) (simp add: eids ac_simps)
  then have s2: "evolves s s2"
    by (auto simp: evolves_def sound_def armed_ok_def s1_def s2_def notFor_def)
  have none: "evolves s s1" "awake s \<Longrightarrow> awake s1" if "?wake = []"
    using that
    by (auto simp: evolves_def sound_def armed_ok_def s1_def ids_def moved_from_def awake_def
        image_mset.compositionality comp_def)
  have split: "snd (rearm v name s) = (if ?wake = [] then s1
      else ensureTimer (case liveHandle v name s2 of Some h \<Rightarrow> armAgainst v name h s2
        | None \<Rightarrow> snd (beginAcquire v name s2)))"
    by (simp only: rearm_def Let_def s1_def s2_def snd_conv if_distrib[of snd])
  have "evolves s2 (case liveHandle v name s2 of Some h \<Rightarrow> armAgainst v name h s2 | None \<Rightarrow> snd (beginAcquire v name s2))"
    by (simp add: keeps_evolves[OF keeps_armAgainst] evolves_beginAcquire split: option.split)
  from evolves_trans[OF evolves_trans[OF s2 this] evolves_ensureTimer] none
  show "evolves s (snd (rearm v name s))" unfolding split by (simp split: if_split)
  show "awake (snd (rearm v name s))" if "awake s"
    unfolding split using none(2)[OF _ that] by (simp add: ticking_awake split: if_split)
qed

lemma registry_inv_step:
  assumes "registry_inv n s" and "Suc (Suc n) < 2 ^ 64"
  shows "registry_inv n (reg_op_step opv s) \<or> registry_inv (Suc n) (reg_op_step opv s)"
proof -
  have stays: "registry_inv n t" if "evolves s t" "awake t" for t
    using assms(1) that registry_base_evolves by (auto simp: registry_inv_def)
  have s: "sound s" "awake s" using assms(1) by (simp_all add: registry_inv_def registry_base_def)
  obtain oper v where o: "opv = (oper, v)" by fastforce
  show ?thesis
  proof (cases oper)
    case (OpAdd name ev cb a ro)
    with registry_inv_add[OF assms] show ?thesis by (simp add: o)
  next
    case (OpCancelSub i)
    with stays[OF evolves_cancel awake_cancel[OF s(2)]] show ?thesis by (simp add: o)
  next
    case (OpAcquired name h)
    have e: "evolves s (s\<lparr>acquiring := a\<rparr>)" for a by (rule keeps_evolves) (rule keeps_acquiring)
    have "evolves s (acquired v name h s) \<and> awake (acquired v name h s)"
      using evolves_trans[OF e keeps_evolves[OF keeps_armAgainst]] evolves_trans[OF e keeps_evolves[OF keeps_abandon]]
        awake_abandon[OF s(2)]
      by (simp add: acquired_def Let_def ticking_awake split: option.split)
    with stays OpAcquired show ?thesis by (simp add: o)
  next
    case OpTick
    with stays[OF evolves_tick awake_tick] stays[of s] s show ?thesis by (simp add: o sound_def)
  next
    case OpReconnected
    have "awake (reconnected v s)" by (simp add: reconnected_def Let_def ticking_awake)
    with stays[OF evolves_reconnected] OpReconnected show ?thesis by (simp add: o)
  next
    case (OpRearm name)
    with stays[OF evolves_rearm awake_rearm[OF s(2)]] show ?thesis by (simp add: o)
  next
    case (OpPolicy name p)
    have "evolves s (setRestartPolicy name p s)" "awake (setRestartPolicy name p s)"
      using s by (simp_all add: setRestartPolicy_def evolves_def ids_def sound_def armed_ok_def awake_def)
    with stays OpPolicy show ?thesis by (simp add: o)
  next
    case (OpStatus name cb)
    have fields: "entries (setStatusCallback name cb s) = entries s" "armed (setStatusCallback name cb s) = armed s"
      "held (setStatusCallback name cb s) = held s" "handles (setStatusCallback name cb s) = handles s"
      "acquiring (setStatusCallback name cb s) = acquiring s" "timerOn (setStatusCallback name cb s) = timerOn s"
      "hasTimer (setStatusCallback name cb s) = hasTimer s" "nextEntryId (setStatusCallback name cb s) = nextEntryId s"
      by (simp_all add: setStatusCallback_def Let_def split: option.split)
    have "evolves s (setStatusCallback name cb s)" "awake (setStatusCallback name cb s)"
      using s by (simp_all add: evolves_def ids_def sound_def armed_ok_def awake_def fields)
    with stays OpStatus show ?thesis by (simp add: o)
  qed
qed

lemma registry_inv_run:
  "Suc (length ops) < 2 ^ 64 \<Longrightarrow> \<exists>n \<le> length ops. registry_inv n (run_registry ops newRegistry)"
proof (induction ops rule: rev_induct)
  case Nil
  then show ?case using registry_inv_new by (auto simp: run_registry_def)
next
  case (snoc opv ops)
  then obtain n where n: "n \<le> length ops" "registry_inv n (run_registry ops newRegistry)" by auto
  with snoc.prems have "Suc (Suc n) < 2 ^ 64" by simp
  from registry_inv_step[OF n(2) this, of opv] n(1) show ?case
    by (auto simp: run_registry_def intro: exI[of _ n] exI[of _ "Suc n"])
qed

subsection \<open>What the registry guarantees\<close>

lemma distinct_ids: "(\<forall>i. count (ids s) i \<le> 1) \<Longrightarrow> distinct (map eid (entries s @ armed s @ held s))"
proof -
  assume le: "\<forall>i. count (ids s) i \<le> 1"
  have m: "mset (map eid (entries s @ armed s @ held s)) = ids s" by (simp add: ids_def)
  show ?thesis
    unfolding distinct_count_atmost_1
  proof
    fix i
    have "count (mset (map eid (entries s @ armed s @ held s))) i \<le> 1" unfolding m using le by blast
    then show "count (mset (map eid (entries s @ armed s @ held s))) i =
        (if i \<in> set (map eid (entries s @ armed s @ held s)) then 1 else 0)"
      by (metis One_nat_def count_greater_zero_iff count_eq_zero_iff le_SucE less_one not_gr_zero le_zero_eq set_mset_mset)
  qed
qed


definition no_module :: env where
  "no_module = \<lparr>supportsAsync = False, tryAcquireNow = (\<lambda>_. None), requestWhenAvailable = (\<lambda>_. False),
     requestObject = (\<lambda>_. None), handleValid = (\<lambda>_. True), now = 0\<rparr>"

definition module_up :: env where
  "module_up = no_module\<lparr>requestObject := (\<lambda>_. Some 7), now := 300\<rparr>"

definition module_gone :: env where
  "module_gone = no_module\<lparr>handleValid := (\<lambda>_. False), now := 900\<rparr>"

definition subscribe_then_up :: "(nat reg_op \<times> env) list" where
  "subscribe_then_up = [(OpAdd ''chat'' ''msg'' (Some 1) (Some 2) False, no_module), (OpTick, module_up)]"

lemmas registry_run_defs = run_registry_def newRegistry_def addSubscription_def liveHandle_def
  beginAcquire_def startAcquire_def ensureTimer_def timerNeeded_def tick_def checkLiveness_def wantedNames_def
  armAgainst_def chooseHandle_def takeMatching_def forObject_def notFor_def nextGeneration_def target_of_def
  defaultTarget_def armEntry_def reportTarget_def rescheduleOrStop_def reportStillPending_def emit_def
  kLivenessIntervalMs_def hash_insert_def hash_remove_def hash_value_def

lemma subscribe_then_up_run:
  "armed (run_registry subscribe_then_up newRegistry) =
     [\<lparr>eid = 1, objectName = ''chat'', eventName = ''msg'', callback = Some 1, onArmed = Some 2,
       everArmed = True, since = 0, warnLevel = 0, readinessOnly = False\<rparr>]"
  by (simp add: subscribe_then_up_def registry_run_defs no_module_def module_up_def)




text \<open>What arming an entry does to the outside.\<close>

definition armOutput :: "handle \<Rightarrow> 'c entry \<Rightarrow> 'c reg_output list" where
  "armOutput h e = (if readinessOnly e then [] else [Attach h (eventName e) (callback e)]) @
     (case onArmed e of None \<Rightarrow> [] | Some f \<Rightarrow> [ArmedCallback f True])"

lemma armEntry_fold_log: "rlog (fold (armEntry h) es s) = rlog s @ concat (map (armOutput h) es)"
  by (induction es arbitrary: s) (auto simp: armEntry_def armOutput_def Let_def)

lemma reportTarget_log: "rlog (reportTarget n ev r s) = rlog s @
   (case onStatus (target_of n s) of None \<Rightarrow> [] | Some fn \<Rightarrow> [StatusCallback fn ev (generation n s) r])"
  by (auto simp: reportTarget_def target_of_def generation_def hash_value_def defaultTarget_def split: option.split)

text \<open>
  When a handle for an object arrives and none is held, every pending subscription of that
  object is attached to it and moves to the armed set, in order, its arming reported; readiness
  probes are answered and forgotten. The object's generation advances by one, however many
  subscriptions there are, and not at all for probes alone; its watcher hears of the arming
  once, last, with the new generation. Other objects and held subscriptions are untouched.
\<close>

theorem arming_is_one_transition_per_object:
  assumes "hash_find (handles s) n = None"
    and "real = filter (\<lambda>e. \<not> readinessOnly e) (forObject n (entries s))" and "s' = armAgainst v n h s"
  shows "entries s' = notFor n (entries s) \<and> held s' = held s \<and>
    armed s' = armed s @ map (\<lambda>e. e\<lparr>everArmed := True\<rparr>) real \<and> hash_find (handles s') n = Some h \<and>
    (\<forall>m. generation m s' = generation m s + (if m = n \<and> real \<noteq> [] then 1 else 0)) \<and>
    rlog s' = rlog s @ concat (map (armOutput h) (forObject n (entries s))) @
      (case onStatus (target_of n s) of None \<Rightarrow> []
       | Some fn \<Rightarrow> if real \<noteq> [] then [StatusCallback fn EvArmed (generation n s + 1) []] else [])"
proof -
  let ?m = "forObject n (entries s)"
  define s1 where "s1 = s\<lparr>handles := hash_insert n h (handles s)\<rparr>"
  define s2 where "s2 = snd (takeMatching n s1)"
  have c: "chooseHandle v n h s = (h, s1)" by (simp add: chooseHandle_def assms(1) s1_def)
  have t: "takeMatching n s1 = (?m, s2)"
    using takeMatching_fst[of n s1] by (cases "takeMatching n s1") (simp add: s1_def s2_def)
  have s2: "entries s2 = notFor n (entries s)" "armed s2 = armed s" "held s2 = held s" "targets s2 = targets s"
    "handles s2 = hash_insert n h (handles s)" "rlog s2 = rlog s"
    by (simp_all add: s2_def) (simp_all add: s1_def)
  have anyReal: "(\<exists>e \<in> set ?m. \<not> readinessOnly e) \<longleftrightarrow> real \<noteq> []" by (auto simp: assms(2) filter_empty_conv)
  have log2: "rlog (nextGeneration n s2) = rlog s" "onStatus (target_of n (nextGeneration n s2)) = onStatus (target_of n s)"
    "generation m (nextGeneration n s2) = generation m s + (if m = n then 1 else 0)" "generation m s2 = generation m s" for m
    using s2 by (simp_all add: nextGeneration_def Let_def target_of_def generation_def)
  have same: "target_of m (fold (armEntry h) es t) = target_of m t" "generation m (fold (armEntry h) es t) = generation m t"
    "generation m (reportTarget k e r t) = generation m t" "generation m (ensureTimer t) = generation m t"
    for m es t k e r
    by (simp_all add: target_of_def generation_def armEntry_fold)
  show ?thesis
    unfolding assms(3) armAgainst_def c t Let_def prod.case anyReal
    by (cases "real = []")
      (auto simp: armEntry_fold s2 same armEntry_fold_log reportTarget_log log2 assms(2) split: option.split)
qed

lemma arming_is_one_transition_per_object_witness:
  "generation ''chat'' (armAgainst no_module ''chat'' 7
     (snd (addSubscription no_module ''chat'' ''msg'' (Some (1::nat)) None False newRegistry))) = 1"
proof -
  let ?s = "snd (addSubscription no_module ''chat'' ''msg'' (Some (1::nat)) None False newRegistry)"
  have "hash_find (handles ?s) ''chat'' = None" "generation ''chat'' ?s = 0"
    "filter (\<lambda>e. \<not> readinessOnly e) (forObject ''chat'' (entries ?s)) \<noteq> []"
    by (simp_all add: registry_run_defs no_module_def generation_def)
  with arming_is_one_transition_per_object[of ?s "''chat''", OF _ refl refl, of no_module 7] show ?thesis by simp
qed

lemma held_keeps: "keeps s t \<Longrightarrow> held t = held s"
  by (simp add: keeps_def)

lemma held_fold: "(\<And>x s. set (held s) \<subseteq> set (held (f x s))) \<Longrightarrow> set (held s) \<subseteq> set (held (fold f xs s))"
proof (induction xs arbitrary: s)
  case (Cons x xs)
  from Cons.prems[of s x] Cons.IH[OF Cons.prems, of "f x s"] show ?case by simp
qed simp

lemma held_loseObject: "set (held s) \<subseteq> set (held (loseObject v n s))"
  unfolding loseObject_def Let_def
  by (simp add: held_keeps[OF keeps_beginAcquire] reviveArmed_def holdArmed_def split: option.split)

lemma held_tick: "set (held s) \<subseteq> set (held (tick v s))"
proof -
  have "set (held s) \<subseteq> set (held (checkLiveness v s))"
  proof -
    have "set (held s) \<subseteq> set (held (fold (loseObject v) (deadNames v s) s))"
      by (rule held_fold) (rule held_loseObject)
    then show ?thesis by (simp add: checkLiveness_def)
  qed
  also have "\<dots> \<subseteq> set (held (fold (\<lambda>n s. snd (beginAcquire v n s)) ns (checkLiveness v s)))" for ns
    by (rule held_fold) (simp add: held_keeps[OF keeps_beginAcquire])
  finally show ?thesis by (simp add: tick_def Let_def reportStillPending_def)
qed

lemma held_reconnected: "set (held s) \<subseteq> set (held (reconnected v s))"
proof -
  let ?s2 = "disarmAll v (dropHandles s)"
  have "set (held s) \<subseteq> set (held ?s2)" by (simp add: disarmAll_def dropHandles_def)
  also have "\<dots> \<subseteq> set (held (fold (\<lambda>n s. reportTarget n EvHeld r s) ns ?s2))" for ns r
    by (rule held_fold) simp
  also have "\<dots> ns r \<subseteq> set (held (fold (\<lambda>n s. snd (beginAcquire v n s)) ms (fold (\<lambda>n s. reportTarget n EvHeld r s) ns ?s2)))" for ns r ms
    by (rule held_fold) (simp add: held_keeps[OF keeps_beginAcquire])
  finally show ?thesis by (simp add: reconnected_def Let_def)
qed

lemma held_add: "held (snd (addSubscription v name ev cb a ro s)) = held s"
  by (simp add: addSubscription_def Let_def split_beta held_keeps[OF keeps_armAgainst] held_keeps[OF keeps_beginAcquire]
      split: option.split)

lemma held_acquired: "held (acquired v name h s) = held s"
  by (simp add: acquired_def Let_def held_keeps[OF keeps_armAgainst] split: option.split)

text \<open>
  A held subscription stays held, unchanged, whatever arrives, ticks, reconnects or is
  subscribed, armed or reconfigured on its own object or another; only re-arming or
  cancelling touches it. Losing a provider under the manual policy adds to the held set all
  that was armed on the object.
\<close>

theorem held_until_rearmed_or_cancelled:
  assumes "\<forall>name. oper \<noteq> OpRearm name" and "\<forall>i. oper \<noteq> OpCancelSub i"
  shows "set (held s) \<subseteq> set (held (reg_op_step (oper, v) s)) \<and>
    (restart (target_of n s) = Manual \<longrightarrow> set (forObject n (armed s)) \<subseteq> set (held (loseObject v n s)))"
proof
  show "set (held s) \<subseteq> set (held (reg_op_step (oper, v) s))"
    using assms held_tick[of s v] held_reconnected[of s v]
    by (cases oper) (auto simp: held_add held_acquired setRestartPolicy_def setStatusCallback_def Let_def split: option.split)
  show "restart (target_of n s) = Manual \<longrightarrow> set (forObject n (armed s)) \<subseteq> set (held (loseObject v n s))"
    unfolding loseObject_def Let_def
    by (auto simp: held_keeps[OF keeps_beginAcquire] reviveArmed_def holdArmed_def target_of_def split: option.split)
qed

definition hold_chat :: "(nat reg_op \<times> env) list" where
  "hold_chat = (OpPolicy ''chat'' Manual, no_module) # subscribe_then_up @ [(OpTick, module_gone)]"

lemma hold_chat_run:
  "held (run_registry hold_chat newRegistry) =
     [\<lparr>eid = 1, objectName = ''chat'', eventName = ''msg'', callback = Some 1, onArmed = Some 2,
       everArmed = True, since = 0, warnLevel = 0, readinessOnly = False\<rparr>]"
  by (simp add: hold_chat_def subscribe_then_up_def registry_run_defs no_module_def module_up_def module_gone_def
      setRestartPolicy_def deadNames_def loseObject_def hasArmedFor_def holdArmed_def reviveArmed_def hasPendingFor_def
      warnStep_def)

lemma held_until_rearmed_or_cancelled_witness:
  "held (reg_op_step (OpTick, module_up) (run_registry hold_chat newRegistry)) \<noteq> []"
  using held_until_rearmed_or_cancelled[of "OpTick :: nat reg_op" "run_registry hold_chat newRegistry" module_up "''chat''"]
  by (auto simp: hold_chat_run simp del: reg_op_step.simps)

text \<open>
  Re-arming an object that has nothing held answers false, but it does not leave the held
  subscriptions of the other objects alone: it has moved them out of the held set and returns
  before putting them back. They are still reported as held, their ids and number unchanged,
  yet their object, event and callbacks are gone, and no later re-arm of a named object finds
  any of them.
\<close>

theorem rearm_of_another_object_strands_held:
  assumes "\<forall>e \<in> set (held s). objectName e \<noteq> name"
  shows "rearm v name s = (False, s\<lparr>held := map moved_from (held s)\<rparr>) \<and>
    stateOf i (snd (rearm v name s)) = stateOf i s \<and>
    (\<forall>e \<in> set (held (snd (rearm v name s))). objectName e = [] \<and> callback e = None) \<and>
    (\<forall>other v'. other \<noteq> [] \<longrightarrow> \<not> fst (rearm v' other (snd (rearm v name s))))"
proof -
  have none: "forObject name (held s) = []" using assms by (auto simp: forObject_def filter_empty_conv)
  have r: "rearm v name s = (False, s\<lparr>held := map moved_from (held s)\<rparr>)"
    by (simp add: rearm_def none)
  have "forObject other (map moved_from (held s)) = []" if "other \<noteq> []" for other
    using that by (auto simp: forObject_def moved_from_def filter_empty_conv)
  then have "\<not> fst (rearm v' other (s\<lparr>held := map moved_from (held s)\<rparr>))" if "other \<noteq> []" for other v'
    using that by (simp add: rearm_def)
  moreover have "stateOf i (s\<lparr>held := map moved_from (held s)\<rparr>) = stateOf i s"
    by (simp add: stateOf_def firstId_def moved_from_def)
  ultimately show ?thesis unfolding r by (auto simp: moved_from_def)
qed

lemma rearm_of_another_object_strands_held_witness:
  "let s = run_registry hold_chat newRegistry; s' = snd (rearm no_module ''wallet'' s)
   in stateOf 1 s' = Held \<and> \<not> fst (rearm module_up ''chat'' s')"
proof -
  let ?s = "run_registry hold_chat newRegistry"
  have "stateOf 1 ?s = Held"
    by (simp add: hold_chat_def subscribe_then_up_def registry_run_defs no_module_def module_up_def module_gone_def
      setRestartPolicy_def deadNames_def loseObject_def hasArmedFor_def holdArmed_def reviveArmed_def hasPendingFor_def
      warnStep_def stateOf_def firstId_def)
  moreover have "\<forall>e \<in> set (held ?s). objectName e \<noteq> ''wallet''" by (simp add: hold_chat_run)
  note stranded = rearm_of_another_object_strands_held[OF this, of no_module 1]
  ultimately show ?thesis
    unfolding Let_def using stranded by (simp only: list.distinct simp_thms)
qed

end
