(* ===== verification/Api_Consumer.thy ===== *)
theory Api_Consumer
  imports Subscription_Registry Qt_Values
begin

text \<open>
  \<open>LogosAPIConsumer\<close> of \<open>cpp/logos_api_consumer.cpp\<close>, around the registry of
  \<open>Subscription_Registry\<close>: the connect loop of its constructor, the cache of object handles,
  the calls it makes on them, and token delivery with its two surfaces.

  The transport is the environment of an operation: \<open>cenv\<close> extends the \<open>env\<close> of the registry
  by what a request within a timeout answers, what a handle answers to a call or to a token,
  and how much time a request took. A handle is a number, fresh for each acquisition.
  Everything the consumer does with a handle is recorded in \<open>clog\<close>.
\<close>

subsection \<open>The connect loop\<close>

text \<open>
  \<open>tries n\<close> is the answer of the n-th \<open>connectToHost\<close>, \<open>clock n\<close> the time read after it failed.
  The value is the number of the attempt the loop ends with, None if it never ends.
\<close>

partial_function (option) connectLoop :: "(nat \<Rightarrow> bool) \<Rightarrow> (nat \<Rightarrow> int) \<Rightarrow> int \<Rightarrow> nat \<Rightarrow> nat option" where
  "connectLoop tries clock deadline n =
     (if tries n then Some n else if deadline \<le> clock n then Some n
      else connectLoop tries clock deadline (Suc n))"

definition connectBudgetMs :: int where
  "connectBudgetMs = 5000"

definition connectConsumer :: "(nat \<Rightarrow> bool) \<Rightarrow> (nat \<Rightarrow> int) \<Rightarrow> int \<Rightarrow> nat option" where
  "connectConsumer tries clock start = connectLoop tries clock (start + connectBudgetMs) 0"

subsection \<open>State\<close>

datatype ('v, 'c) consumer_output =
  Acquired handle
| Released handle
| GivenAway handle
| Called handle qstring qstring "'v qvariant list" int
| Informed handle qstring qstring qstring int
| CallStarted handle qstring qstring "'v qvariant list" int 'c
| EventOn handle qstring 'c
| AnswerLater 'c call_error
| ArmAnswer 'c bool

record 'v cenv = env +
  connected :: bool
  requestWithin :: "qstring \<Rightarrow> int \<Rightarrow> handle option"
  invokeOn :: "handle \<Rightarrow> qstring \<Rightarrow> qstring \<Rightarrow> 'v qvariant list \<Rightarrow> int \<Rightarrow> 'v qvariant \<times> call_error option"
  informOn :: "handle \<Rightarrow> qstring \<Rightarrow> qstring \<Rightarrow> qstring \<Rightarrow> int \<Rightarrow> bool"
  reconnectOk :: bool
  spentMs :: int

record ('v, 'c) consumer =
  objectCache :: "(qstring, handle) qhash"
  noHandshakeSurface :: "qstring list"
  pendingSubs :: "'c registry option"
  clog :: "('v, 'c) consumer_output list"

definition newConsumer :: "('v, 'c) consumer" where
  "newConsumer = \<lparr>objectCache = [], noHandshakeSurface = [], pendingSubs = None, clog = []\<rparr>"

definition jot :: "('v, 'c) consumer_output list \<Rightarrow> ('v, 'c) consumer \<Rightarrow> ('v, 'c) consumer" where
  "jot os s = s\<lparr>clog := clog s @ os\<rparr>"

subsection \<open>The handle cache\<close>

definition acquireFresh :: "'v cenv \<Rightarrow> qstring \<Rightarrow> int \<Rightarrow> ('v, 'c) consumer \<Rightarrow> handle option \<times> ('v, 'c) consumer" where
  "acquireFresh v name t s = (case requestWithin v name t of
       None \<Rightarrow> (None, s)
     | Some h \<Rightarrow> (Some h, jot [Acquired h] (s\<lparr>objectCache := hash_insert name h (objectCache s)\<rparr>)))"

definition acquireCachedObject ::
  "'v cenv \<Rightarrow> qstring \<Rightarrow> int \<Rightarrow> ('v, 'c) consumer \<Rightarrow> handle option \<times> ('v, 'c) consumer" where
  "acquireCachedObject v name t s = (case hash_find (objectCache s) name of
       None \<Rightarrow> acquireFresh v name t s
     | Some h \<Rightarrow> if handleValid v h then (Some h, s)
               else acquireFresh v name t (jot [Released h] (s\<lparr>objectCache := hash_remove name (objectCache s)\<rparr>)))"

definition ensureTargetAcquirable ::
  "'v cenv \<Rightarrow> qstring \<Rightarrow> int \<Rightarrow> ('v, 'c) consumer \<Rightarrow> bool \<times> ('v, 'c) consumer" where
  "ensureTargetAcquirable v name t s =
     (if name = [] then (False, s)
      else let (h, s1) = acquireCachedObject v name t s in (h \<noteq> None, s1))"

definition clearObjectCache :: "('v, 'c) consumer \<Rightarrow> ('v, 'c) consumer" where
  "clearObjectCache s = (jot (map (\<lambda>(n, h). Released h) (objectCache s)) s)
     \<lparr>objectCache := [], noHandshakeSurface := []\<rparr>"

definition requestObjectOf ::
  "'v cenv \<Rightarrow> qstring \<Rightarrow> int \<Rightarrow> ('v, 'c) consumer \<Rightarrow> handle option \<times> ('v, 'c) consumer" where
  "requestObjectOf v name t s =
     (if name = [] then (None, s)
      else if \<not> connected v then (None, s)
      else case requestWithin v name t of
             None \<Rightarrow> (None, s)
           | Some h \<Rightarrow> (Some h, jot [Acquired h, GivenAway h] s))"

definition reconnectConsumer :: "'v cenv \<Rightarrow> ('v, 'c) consumer \<Rightarrow> bool \<times> ('v, 'c) consumer" where
  "reconnectConsumer v s =
     (let s1 = clearObjectCache s
      in (reconnectOk v, s1\<lparr>pendingSubs := map_option (reconnected (env.truncate v)) (pendingSubs s1)\<rparr>))"

text \<open>The destructor: the registry releases its own handles, then the cache is cleared.\<close>

definition destroyConsumer :: "('v, 'c) consumer \<Rightarrow> ('v, 'c) consumer" where
  "destroyConsumer s = clearObjectCache (s\<lparr>pendingSubs := None\<rparr>)"

subsection \<open>Calls\<close>

definition unavailableError :: "qstring \<Rightarrow> call_error" where
  "unavailableError name =
     \<lparr>code = ''object_unavailable'',
      message = ''failed to acquire remote object '' @ [CHR 0x27] @ name @ [CHR 0x27] @
        '' (module not loaded, not published, or transport failure)'',
      origin = name\<rparr>"

text \<open>
  A transport with an error channel reports the error of a call, one without leaves it as
  cleared.
\<close>

definition consumerInvoke ::
  "'v cenv \<Rightarrow> qstring \<Rightarrow> qstring \<Rightarrow> qstring \<Rightarrow> 'v qvariant list \<Rightarrow> int \<Rightarrow> ('v, 'c) consumer \<Rightarrow>
   ('v qvariant \<times> call_error) \<times> ('v, 'c) consumer" where
  "consumerInvoke v token name m args t s =
     (case acquireCachedObject v name t s of
        (None, s1) \<Rightarrow> ((QInvalid, unavailableError name), s1)
      | (Some h, s1) \<Rightarrow>
          (case invokeOn v h token m args t of (r, e) \<Rightarrow>
             ((r, case e of Some e \<Rightarrow> e | None \<Rightarrow> no_error), jot [Called h token m args t] s1)))"

definition consumerInvokeAsync ::
  "'v cenv \<Rightarrow> qstring \<Rightarrow> qstring \<Rightarrow> qstring \<Rightarrow> 'v qvariant list \<Rightarrow> 'c option \<Rightarrow> int \<Rightarrow> ('v, 'c) consumer \<Rightarrow>
   ('v, 'c) consumer" where
  "consumerInvokeAsync v token name m args cb t s =
     (case cb of None \<Rightarrow> s
      | Some k \<Rightarrow> (case acquireCachedObject v name t s of
            (None, s1) \<Rightarrow> jot [AnswerLater k (unavailableError name)] s1
          | (Some h, s1) \<Rightarrow> jot [CallStarted h token m args t k] s1))"

definition onEventOf :: "handle option \<Rightarrow> qstring \<Rightarrow> 'c \<Rightarrow> ('v, 'c) consumer \<Rightarrow> ('v, 'c) consumer" where
  "onEventOf h ev k s = (case h of None \<Rightarrow> s | Some h \<Rightarrow> jot [EventOn h ev k] s)"

subsection \<open>Token delivery\<close>

definition capabilityName :: qstring where
  "capabilityName = ''capability_module''"

definition handshakeObjectName :: "qstring \<Rightarrow> qstring" where
  "handshakeObjectName name = name @ ''__handshake''"

definition kHandshakeProbeTimeoutMs :: int where
  "kHandshakeProbeTimeoutMs = 250"

definition informModuleTokenOf ::
  "'v cenv \<Rightarrow> qstring \<Rightarrow> qstring \<Rightarrow> qstring \<Rightarrow> ('v, 'c) consumer \<Rightarrow> bool \<times> ('v, 'c) consumer" where
  "informModuleTokenOf v auth name token s =
     (case requestWithin v capabilityName 20000 of
        None \<Rightarrow> (False, s)
      | Some h \<Rightarrow> (informOn v h auth name token 20000,
                  jot [Acquired h, Informed h auth name token 20000, Released h] s))"

text \<open>The delivery, and whether the business object could be acquired.\<close>

definition informViaBusinessObject ::
  "'v cenv \<Rightarrow> qstring \<Rightarrow> qstring \<Rightarrow> qstring \<Rightarrow> qstring \<Rightarrow> int \<Rightarrow> ('v, 'c) consumer \<Rightarrow>
   (bool \<times> bool) \<times> ('v, 'c) consumer" where
  "informViaBusinessObject v auth target_name name token t s =
     (case acquireCachedObject v target_name t s of
        (None, s1) \<Rightarrow> ((False, False), s1)
      | (Some h, s1) \<Rightarrow> ((informOn v h auth name token t, True), jot [Informed h auth name token t] s1))"

definition informModuleToken_module ::
  "'v cenv \<Rightarrow> qstring \<Rightarrow> qstring \<Rightarrow> qstring \<Rightarrow> qstring \<Rightarrow> int \<Rightarrow> ('v, 'c) consumer \<Rightarrow> bool \<times> ('v, 'c) consumer" where
  "informModuleToken_module v auth target_name name token t0 s =
     (let t = (if t0 \<le> 0 then 20000 else t0);
          handshake = handshakeObjectName target_name
      in if handshake \<in> set (noHandshakeSurface s)
         then (case informViaBusinessObject v auth target_name name token t s of ((ok, reached), s1) \<Rightarrow> (ok, s1))
         else case acquireCachedObject v handshake kHandshakeProbeTimeoutMs s of
           (Some h, s1) \<Rightarrow>
             let s2 = jot [Informed h auth name token t] s1
             in if informOn v h auth name token t then (True, s2)
                else (case informViaBusinessObject v auth target_name name token t s2 of ((ok, reached), s3) \<Rightarrow> (ok, s3))
         | (None, s1) \<Rightarrow>
             (case informViaBusinessObject v auth target_name name token t s1 of
                ((ok, reached), s2) \<Rightarrow>
                  (ok, if reached then s2\<lparr>noHandshakeSurface := List.insert handshake (noHandshakeSurface s2)\<rparr> else s2)))"

text \<open>
  The exchange with the capability module: one deadline for the acquisition and the call, of
  which the call gets what is left, and never a zero that would read as no deadline.
\<close>

definition requestModule ::
  "('v qvariant \<Rightarrow> qstring) \<Rightarrow> 'v cenv \<Rightarrow> qstring \<Rightarrow> qstring \<Rightarrow> qstring \<Rightarrow> int \<Rightarrow> ('v, 'c) consumer \<Rightarrow> qstring \<times> ('v, 'c) consumer" where
  "requestModule conv v auth orig target_name t s =
     (case requestWithin v capabilityName t of
        None \<Rightarrow> ([], s)
      | Some h \<Rightarrow>
          let remaining = (if t \<le> 0 then t else max 1 (t - spentMs v));
              args = [QString orig, QString target_name]
          in (variant_toString conv (fst (invokeOn v h auth ''requestModule'' args remaining)),
              jot [Acquired h, Called h auth ''requestModule'' args remaining, Released h] s))"

subsection \<open>Subscriptions\<close>

definition ensureRegistry :: "('v, 'c) consumer \<Rightarrow> 'c registry" where
  "ensureRegistry s = (case pendingSubs s of None \<Rightarrow> newRegistry | Some r \<Rightarrow> r)"

definition onEventWhenAvailable ::
  "'v cenv \<Rightarrow> qstring \<Rightarrow> qstring \<Rightarrow> 'c option \<Rightarrow> 'c option \<Rightarrow> ('v, 'c) consumer \<Rightarrow> u64 \<times> ('v, 'c) consumer" where
  "onEventWhenAvailable v name ev cb onArm s =
     (if name = [] \<or> cb = None
      then (0, jot (case onArm of None \<Rightarrow> [] | Some f \<Rightarrow> [ArmAnswer f False]) s)
      else let (i, r) = addSubscription (env.truncate v) name ev cb onArm False (ensureRegistry s)
           in (i, s\<lparr>pendingSubs := Some r\<rparr>))"

definition whenObjectAvailable ::
  "'v cenv \<Rightarrow> qstring \<Rightarrow> 'c option \<Rightarrow> ('v, 'c) consumer \<Rightarrow> u64 \<times> ('v, 'c) consumer" where
  "whenObjectAvailable v name onReady s =
     (if name = [] \<or> onReady = None
      then (0, jot (case onReady of None \<Rightarrow> [] | Some f \<Rightarrow> [ArmAnswer f False]) s)
      else let (i, r) = addSubscription (env.truncate v) name [] None onReady True (ensureRegistry s)
           in (i, s\<lparr>pendingSubs := Some r\<rparr>))"

definition cancelEventSubscription :: "u64 \<Rightarrow> ('v, 'c) consumer \<Rightarrow> bool \<times> ('v, 'c) consumer" where
  "cancelEventSubscription i s =
     (if i = 0 then (False, s)
      else case pendingSubs s of None \<Rightarrow> (False, s)
           | Some r \<Rightarrow> let (ok, r1) = cancelSubscription i r in (ok, s\<lparr>pendingSubs := Some r1\<rparr>))"

definition eventSubscriptionState :: "u64 \<Rightarrow> ('v, 'c) consumer \<Rightarrow> subscription_state" where
  "eventSubscriptionState i s =
     (if i = 0 then Unknown else case pendingSubs s of None \<Rightarrow> Unknown | Some r \<Rightarrow> stateOf i r)"

definition setSubscriptionStatusCallback ::
  "qstring \<Rightarrow> 'c option \<Rightarrow> ('v, 'c) consumer \<Rightarrow> ('v, 'c) consumer" where
  "setSubscriptionStatusCallback name cb s =
     (if name = [] then s else s\<lparr>pendingSubs := Some (setStatusCallback name cb (ensureRegistry s))\<rparr>)"

definition subscriptionGeneration :: "qstring \<Rightarrow> ('v, 'c) consumer \<Rightarrow> u64" where
  "subscriptionGeneration name s =
     (if name = [] then 0 else case pendingSubs s of None \<Rightarrow> 0 | Some r \<Rightarrow> generation name r)"

definition setSubscriptionRestartPolicy :: "qstring \<Rightarrow> restart_policy \<Rightarrow> ('v, 'c) consumer \<Rightarrow> ('v, 'c) consumer" where
  "setSubscriptionRestartPolicy name policy s =
     (if name = [] then s else s\<lparr>pendingSubs := Some (setRestartPolicy name policy (ensureRegistry s))\<rparr>)"

definition rearmSubscriptions :: "'v cenv \<Rightarrow> qstring \<Rightarrow> ('v, 'c) consumer \<Rightarrow> bool \<times> ('v, 'c) consumer" where
  "rearmSubscriptions v name s =
     (if name = [] then (False, s)
      else case pendingSubs s of None \<Rightarrow> (False, s)
           | Some r \<Rightarrow> let (ok, r1) = rearm (env.truncate v) name r in (ok, s\<lparr>pendingSubs := Some r1\<rparr>))"

definition pendingSubscriptions :: "('v, 'c) consumer \<Rightarrow> qstring list" where
  "pendingSubscriptions s = (case pendingSubs s of None \<Rightarrow> [] | Some r \<Rightarrow> pendingList r)"

subsection \<open>Sequences of operations\<close>

datatype ('v, 'c) consumer_op =
  CoRequest qstring int
| CoInvoke qstring qstring qstring "'v qvariant list" int
| CoInvokeAsync qstring qstring qstring "'v qvariant list" "'c option" int
| CoEnsure qstring int
| CoReconnect
| CoOnEvent "handle option" qstring 'c
| CoInform qstring qstring qstring
| CoInformModule qstring qstring qstring qstring int
| CoRequestModule qstring qstring qstring int
| CoSubscribe qstring qstring "'c option" "'c option"
| CoWhenAvailable qstring "'c option"
| CoCancel u64
| CoStatus qstring "'c option"
| CoPolicy qstring restart_policy
| CoRearm qstring

fun consumer_step :: "('v qvariant \<Rightarrow> qstring) \<Rightarrow> ('v, 'c) consumer_op \<times> 'v cenv \<Rightarrow> ('v, 'c) consumer \<Rightarrow> ('v, 'c) consumer" where
  "consumer_step conv (CoRequest name t, v) s = snd (requestObjectOf v name t s)"
| "consumer_step conv (CoInvoke token name m args t, v) s = snd (consumerInvoke v token name m args t s)"
| "consumer_step conv (CoInvokeAsync token name m args cb t, v) s = consumerInvokeAsync v token name m args cb t s"
| "consumer_step conv (CoEnsure name t, v) s = snd (ensureTargetAcquirable v name t s)"
| "consumer_step conv (CoReconnect, v) s = snd (reconnectConsumer v s)"
| "consumer_step conv (CoOnEvent h ev k, v) s = onEventOf h ev k s"
| "consumer_step conv (CoInform auth name token, v) s = snd (informModuleTokenOf v auth name token s)"
| "consumer_step conv (CoInformModule auth target_name name token t, v) s =
     snd (informModuleToken_module v auth target_name name token t s)"
| "consumer_step conv (CoRequestModule auth orig target_name t, v) s =
     snd (requestModule conv v auth orig target_name t s)"
| "consumer_step conv (CoSubscribe name ev cb onArm, v) s = snd (onEventWhenAvailable v name ev cb onArm s)"
| "consumer_step conv (CoWhenAvailable name onReady, v) s = snd (whenObjectAvailable v name onReady s)"
| "consumer_step conv (CoCancel i, v) s = snd (cancelEventSubscription i s)"
| "consumer_step conv (CoStatus name cb, v) s = setSubscriptionStatusCallback name cb s"
| "consumer_step conv (CoPolicy name p, v) s = setSubscriptionRestartPolicy name p s"
| "consumer_step conv (CoRearm name, v) s = snd (rearmSubscriptions v name s)"

definition run_consumer ::
  "('v qvariant \<Rightarrow> qstring) \<Rightarrow> (('v, 'c) consumer_op \<times> 'v cenv) list \<Rightarrow> ('v, 'c) consumer \<Rightarrow> ('v, 'c) consumer" where
  "run_consumer conv ops s = fold (consumer_step conv) ops s"

subsection \<open>The discipline of handles\<close>

text \<open>
  A log read by its user: which handles the consumer owns after it, and None once it used,
  released or gave away a handle it did not own.
\<close>

fun handle_step :: "('v, 'c) consumer_output \<Rightarrow> handle multiset \<Rightarrow> handle multiset option" where
  "handle_step (Acquired h) H = Some (add_mset h H)"
| "handle_step (Released h) H = (if h \<in># H then Some (H - {#h#}) else None)"
| "handle_step (GivenAway h) H = (if h \<in># H then Some (H - {#h#}) else None)"
| "handle_step (Called h token m args t) H = (if h \<in># H then Some H else None)"
| "handle_step (Informed h auth name token t) H = (if h \<in># H then Some H else None)"
| "handle_step (CallStarted h token m args t k) H = (if h \<in># H then Some H else None)"
| "handle_step (EventOn h ev k) H = Some H"
| "handle_step (AnswerLater k e) H = Some H"
| "handle_step (ArmAnswer k ok) H = Some H"

fun owned_from :: "handle multiset \<Rightarrow> ('v, 'c) consumer_output list \<Rightarrow> handle multiset option" where
  "owned_from H [] = Some H"
| "owned_from H (x # xs) = (case handle_step x H of None \<Rightarrow> None | Some H' \<Rightarrow> owned_from H' xs)"

definition owned :: "('v, 'c) consumer_output list \<Rightarrow> handle multiset option" where
  "owned = owned_from {#}"

lemma owned_from_append:
  "owned_from H (xs @ ys) = (case owned_from H xs of None \<Rightarrow> None | Some H' \<Rightarrow> owned_from H' ys)"
  by (induction xs arbitrary: H) (auto split: option.splits)

text \<open>The consumer owns exactly the handles of its cache, under distinct names.\<close>

definition cached :: "('v, 'c) consumer \<Rightarrow> handle multiset" where
  "cached s = image_mset snd (mset (objectCache s))"

definition consumer_ok :: "('v, 'c) consumer \<Rightarrow> bool" where
  "consumer_ok s = (hash_wf (objectCache s) \<and> owned (clog s) = Some (cached s))"

lemma consumer_ok_new: "consumer_ok newConsumer"
  by (simp add: consumer_ok_def newConsumer_def cached_def owned_def)

lemma jot_fields [simp]:
  "objectCache (jot os s) = objectCache s" "noHandshakeSurface (jot os s) = noHandshakeSurface s"
  "pendingSubs (jot os s) = pendingSubs s" "clog (jot os s) = clog s @ os"
  by (simp_all add: jot_def)

lemma consumer_ok_jot:
  assumes "consumer_ok s" and "owned_from (cached s) os = Some (cached s)"
  shows "consumer_ok (jot os s)"
  using assms by (simp add: consumer_ok_def cached_def owned_def owned_from_append)

lemma cached_insert:
  assumes "hash_find c n = None"
  shows "image_mset snd (mset (hash_insert n h c)) = add_mset h (image_mset snd (mset c))"
  using assms by (subst mset_hash_insert_new) (auto simp: map_of_eq_None_iff)

lemma cached_remove:
  assumes "hash_wf c" and "hash_find c n = Some h"
  shows "h \<in># image_mset snd (mset c)"
    and "image_mset snd (mset (hash_remove n c)) = image_mset snd (mset c) - {#h#}"
  using mset_hash_remove[OF assms] by simp_all

lemma consumer_ok_fresh:
  assumes "consumer_ok s" and "hash_find (objectCache s) name = None" and "acquireFresh v name t s = (h, s')"
  shows "consumer_ok s' \<and> (\<forall>g. h = Some g \<longrightarrow> g \<in># cached s')"
proof (cases "requestWithin v name t")
  case (Some g)
  with assms(3) have s': "h = Some g" "s' = jot [Acquired g] (s\<lparr>objectCache := hash_insert name g (objectCache s)\<rparr>)"
    by (simp_all add: acquireFresh_def)
  then have "cached s' = add_mset g (cached s)" by (simp only: cached_def jot_fields cached_insert[OF assms(2)]) (simp add: cached_insert[OF assms(2)])
  with s' assms(1) show ?thesis by (auto simp: consumer_ok_def owned_def owned_from_append)
qed (use assms in \<open>simp add: acquireFresh_def\<close>)

lemma consumer_ok_evict:
  assumes "consumer_ok s" and "hash_find (objectCache s) name = Some h"
  shows "consumer_ok (jot [Released h] (s\<lparr>objectCache := hash_remove name (objectCache s)\<rparr>))"
  using assms cached_remove[of "objectCache s" name h]
  by (auto simp: consumer_ok_def cached_def owned_def owned_from_append jot_def)

lemma consumer_ok_acquire:
  assumes "consumer_ok s" and "acquireCachedObject v name t s = (h, s')"
  shows "consumer_ok s' \<and> (\<forall>g. h = Some g \<longrightarrow> g \<in># cached s')"
proof (cases "hash_find (objectCache s) name")
  case None
  with assms show ?thesis by (intro consumer_ok_fresh[OF assms(1) None]) (simp add: acquireCachedObject_def)
next
  case (Some g)
  show ?thesis
  proof (cases "handleValid v g")
    case True
    with assms Some show ?thesis
      by (auto simp: acquireCachedObject_def cached_def dest: map_of_SomeD intro: rev_image_eqI)
  next
    case False
    with assms Some show ?thesis
      by (intro consumer_ok_fresh[OF consumer_ok_evict[OF assms(1) Some]]) (auto simp: acquireCachedObject_def)
  qed
qed

lemma cached_jot [simp]: "cached (jot os s) = cached s"
  by (simp add: cached_def)

text \<open>What an operation logs about a handle it has in the cache, or about one it takes and lets go.\<close>

lemma consumer_ok_use:
  assumes "consumer_ok s" and "g \<in># cached s"
  shows "consumer_ok (jot [Called g token m args t] s)" "consumer_ok (jot [Informed g auth name tok t] s)"
    "consumer_ok (jot [CallStarted g token m args t k] s)"
  using assms by (auto intro!: consumer_ok_jot)

lemma consumer_ok_other:
  assumes "consumer_ok s"
  shows "consumer_ok (jot [Acquired g, GivenAway g] s)" "consumer_ok (jot [AnswerLater k e] s)"
    "consumer_ok (jot [ArmAnswer k ok] s)" "consumer_ok (jot [EventOn g ev k] s)"
    "consumer_ok (jot [Acquired g, Informed g auth name tok t, Released g] s)"
    "consumer_ok (jot [Acquired g, Called g token m args t, Released g] s)"
  using assms by (auto intro!: consumer_ok_jot)

lemma consumer_ok_fields [simp]:
  "consumer_ok (s\<lparr>pendingSubs := r\<rparr>) = consumer_ok s"
  "consumer_ok (s\<lparr>noHandshakeSurface := ns\<rparr>) = consumer_ok s"
  "consumer_ok (jot [] s) = consumer_ok s"
  by (simp_all add: consumer_ok_def cached_def jot_def)

lemma owned_release_all:
  "owned_from (image_mset snd (mset c) + H) (map (\<lambda>(n, h). Released h) c) = Some H"
  by (induction c arbitrary: H) auto

lemma consumer_ok_clear: "consumer_ok s \<Longrightarrow> consumer_ok (clearObjectCache s)"
  using owned_release_all[of "objectCache s" "{#}"]
  by (simp add: consumer_ok_def clearObjectCache_def cached_def owned_def owned_from_append jot_def)

lemma consumer_ok_business:
  assumes "consumer_ok s" and "informViaBusinessObject v auth tn name token t s = (r, s')"
  shows "consumer_ok s'"
  using assms consumer_ok_acquire[OF assms(1)]
  by (auto simp: informViaBusinessObject_def consumer_ok_use split: prod.splits option.splits)

lemma consumer_ok_inform_module:
  assumes "consumer_ok s"
  shows "consumer_ok (snd (informModuleToken_module v auth tn name token t0 s))"
proof -
  have business: "consumer_ok (snd (informViaBusinessObject v auth tn name token t s1))" if "consumer_ok s1" for t s1
    using consumer_ok_business[OF that] by (metis prod.collapse)
  obtain h s1 where acq: "acquireCachedObject v (handshakeObjectName tn) kHandshakeProbeTimeoutMs s = (h, s1)"
    by fastforce
  note ok = consumer_ok_acquire[OF assms acq]
  show ?thesis
  proof (cases h)
    case None
    with ok acq business[of s1] business[OF assms] show ?thesis
      by (simp add: informModuleToken_module_def Let_def split_beta)
  next
    case (Some g)
    have used: "consumer_ok (jot [Informed g auth name token t] s1)" for t
      using ok Some by (intro consumer_ok_use) auto
    with Some acq business[OF assms] business[OF used] show ?thesis
      by (simp add: informModuleToken_module_def Let_def split_beta)
  qed
qed

lemma consumer_ok_calls:
  assumes "consumer_ok s"
  shows "consumer_ok (snd (consumerInvoke v token name m args t s))"
    and "consumer_ok (consumerInvokeAsync v token name m args cb t s)"
    and "consumer_ok (snd (ensureTargetAcquirable v name t s))"
proof -
  obtain h s1 where acq: "acquireCachedObject v name t s = (h, s1)" by fastforce
  note ok = consumer_ok_acquire[OF assms acq]
  show "consumer_ok (snd (consumerInvoke v token name m args t s))"
    using ok by (cases h) (simp_all add: consumerInvoke_def acq split_beta consumer_ok_use)
  show "consumer_ok (consumerInvokeAsync v token name m args cb t s)"
    using ok assms
    by (cases cb; cases h) (simp_all add: consumerInvokeAsync_def acq consumer_ok_use consumer_ok_other)
  show "consumer_ok (snd (ensureTargetAcquirable v name t s))"
    using ok assms by (simp add: ensureTargetAcquirable_def acq)
qed

lemma consumer_ok_step: "consumer_ok s \<Longrightarrow> consumer_ok (consumer_step conv op s)"
proof (induction conv op s rule: consumer_step.induct)
  case (2 conv token name m args t v s)
  then show ?case by (simp add: consumer_ok_calls)
next
  case (3 conv token name m args cb t v s)
  then show ?case by (simp add: consumer_ok_calls)
next
  case (4 conv name t v s)
  then show ?case by (simp add: consumer_ok_calls)
next
  case (8 conv auth tn name token t v s)
  then show ?case by (simp add: consumer_ok_inform_module)
qed (auto simp: requestObjectOf_def reconnectConsumer_def onEventOf_def informModuleTokenOf_def requestModule_def
  onEventWhenAvailable_def whenObjectAvailable_def cancelEventSubscription_def setSubscriptionStatusCallback_def
  setSubscriptionRestartPolicy_def rearmSubscriptions_def Let_def split_beta consumer_ok_other consumer_ok_clear
  split: option.splits)

lemma consumer_ok_run: "consumer_ok s \<Longrightarrow> consumer_ok (run_consumer conv ops s)"
  unfolding run_consumer_def by (induction ops arbitrary: s) (auto intro: consumer_ok_step)

lemma handle_ledger:
  fixes conv :: "'v qvariant \<Rightarrow> qstring" and ops :: "(('v, 'c) consumer_op \<times> 'v cenv) list"
  defines "s \<equiv> run_consumer conv ops newConsumer"
  shows "owned (clog s) = Some (image_mset snd (mset (objectCache s)))"
    and "distinct (map fst (objectCache s))"
    and "owned (clog (destroyConsumer s)) = Some {#}" "objectCache (destroyConsumer s) = []"
proof -
  have ok: "consumer_ok s" unfolding s_def by (rule consumer_ok_run) (rule consumer_ok_new)
  then show "owned (clog s) = Some (image_mset snd (mset (objectCache s)))"
    and "distinct (map fst (objectCache s))"
    by (simp_all add: consumer_ok_def cached_def hash_wf_def)
  have "consumer_ok (destroyConsumer s)" using ok by (simp add: destroyConsumer_def consumer_ok_clear)
  moreover show "objectCache (destroyConsumer s) = []" by (simp add: destroyConsumer_def clearObjectCache_def)
  ultimately show "owned (clog (destroyConsumer s)) = Some {#}" by (simp add: consumer_ok_def cached_def)
qed


subsection \<open>Where a token goes\<close>

lemma token_delivery:
  assumes "informModuleToken_module v auth tn name token t0 s = (ok, s')"
  defines "t \<equiv> (if t0 \<le> 0 then 20000 else t0)" and "hs \<equiv> handshakeObjectName tn"
    and "tried \<equiv> handshakeObjectName tn \<notin> set (noHandshakeSurface s)"
    and "probe \<equiv> acquireCachedObject v (handshakeObjectName tn) kHandshakeProbeTimeoutMs s"
  defines "early \<equiv> if tried then fst probe else None"
  defines "taken \<equiv> (\<exists>g. early = Some g \<and> informOn v g auth name token t)"
  defines "business \<equiv> fst (acquireCachedObject v tn t (if tried then snd probe else s))"
  shows "ok \<longleftrightarrow> taken \<or> (\<exists>g. business = Some g \<and> informOn v g auth name token t)"
    and "set (noHandshakeSurface s') = set (noHandshakeSurface s) \<union>
           (if tried \<and> early = None \<and> business \<noteq> None then {hs} else {})"
    and "noHandshakeSurface (snd (reconnectConsumer v s')) = []"
proof -
  have frame: "noHandshakeSurface (snd (acquireCachedObject v n k r)) = noHandshakeSurface r" for n k and r :: "('a, 'b) consumer"
    by (auto simp: acquireCachedObject_def acquireFresh_def split: option.splits)
  have swap: "fst (acquireCachedObject v n k (jot os r)) = fst (acquireCachedObject v n k r)" for n k os and r :: "('a, 'b) consumer"
    by (auto simp: acquireCachedObject_def acquireFresh_def jot_def split: option.splits)
  have business_eq: "informViaBusinessObject v auth tn name token t r =
      ((case fst (acquireCachedObject v tn t r) of None \<Rightarrow> (False, False) | Some g \<Rightarrow> (informOn v g auth name token t, True)), 
       case fst (acquireCachedObject v tn t r) of None \<Rightarrow> snd (acquireCachedObject v tn t r)
         | Some g \<Rightarrow> jot [Informed g auth name token t] (snd (acquireCachedObject v tn t r)))" for r :: "('a, 'b) consumer"
    by (auto simp: informViaBusinessObject_def split: prod.splits option.splits)
  have both: "(ok \<longleftrightarrow> taken \<or> (\<exists>g. business = Some g \<and> informOn v g auth name token t)) \<and>
      set (noHandshakeSurface s') = set (noHandshakeSurface s) \<union>
           (if tried \<and> early = None \<and> business \<noteq> None then {hs} else {})"
  proof (cases tried)
    case False
    with assms(1) show ?thesis
      unfolding informModuleToken_module_def Let_def
      by (auto simp: t_def[symmetric] tried_def taken_def early_def business_def business_eq frame split: option.splits)
  next
    case True
    obtain h s1 where p: "probe = (h, s1)" by fastforce
    show ?thesis
    proof (cases h)
      case None
      with True p assms(1) show ?thesis
        unfolding informModuleToken_module_def Let_def
        using frame[of "handshakeObjectName tn" kHandshakeProbeTimeoutMs s]
        by (auto simp: t_def[symmetric] tried_def taken_def early_def business_def business_eq frame probe_def hs_def
            split: option.splits)
    next
      case (Some g)
      with True p assms(1) show ?thesis
        unfolding informModuleToken_module_def Let_def
        using frame[of "handshakeObjectName tn" kHandshakeProbeTimeoutMs s]
        by (auto simp: t_def[symmetric] tried_def taken_def early_def business_def business_eq frame swap probe_def hs_def
            split: option.splits if_splits)
    qed
  qed
  then show "ok \<longleftrightarrow> taken \<or> (\<exists>g. business = Some g \<and> informOn v g auth name token t)"
    and "set (noHandshakeSurface s') = set (noHandshakeSurface s) \<union>
           (if tried \<and> early = None \<and> business \<noteq> None then {hs} else {})" by blast+
  show "noHandshakeSurface (snd (reconnectConsumer v s')) = []" by (simp add: reconnectConsumer_def clearObjectCache_def Let_def)
qed

text \<open>
  A token is delivered exactly when the module takes it on its handshake surface, tried
  unless that is known to be absent, or else on its business object; a refusal on the first
  is never the answer. The absence of the surface is remembered only for a module that
  answered on its business object while the surface could not be acquired, so a module that
  was merely late is probed again; a reconnect forgets every remembered absence.
\<close>

theorem token_reaches_module:
  assumes "informModuleToken_module v auth tn name token t0 s = (ok, s')"
  defines "t \<equiv> (if t0 \<le> 0 then 20000 else t0)" and "hs \<equiv> handshakeObjectName tn"
    and "tried \<equiv> handshakeObjectName tn \<notin> set (noHandshakeSurface s)"
    and "probe \<equiv> acquireCachedObject v (handshakeObjectName tn) kHandshakeProbeTimeoutMs s"
  defines "early \<equiv> if tried then fst probe else None"
  defines "taken \<equiv> (\<exists>g. early = Some g \<and> informOn v g auth name token t)"
  defines "business \<equiv> fst (acquireCachedObject v tn t (if tried then snd probe else s))"
  shows "(ok \<longleftrightarrow> taken \<or> (\<exists>g. business = Some g \<and> informOn v g auth name token t)) \<and>
    (set (noHandshakeSurface s') = set (noHandshakeSurface s) \<union>
             (if tried \<and> early = None \<and> business \<noteq> None then {hs} else {})) \<and>
    (noHandshakeSurface (snd (reconnectConsumer v s')) = [])"
  unfolding t_def hs_def tried_def probe_def early_def taken_def business_def
  by (intro conjI token_delivery[OF assms(1)])

definition late_module :: "nat cenv" where
  "late_module = \<lparr>supportsAsync = True, tryAcquireNow = (\<lambda>n. None), requestWhenAvailable = (\<lambda>n. True),
     requestObject = (\<lambda>n. None), handleValid = (\<lambda>h. True), now = 0, connected = True,
     requestWithin = (\<lambda>n t. if n = ''chat'' then Some 1 else None),
     invokeOn = (\<lambda>h tok m args t. (QInvalid, None)), informOn = (\<lambda>h a n tok t. True), reconnectOk = True, spentMs = 0\<rparr>"

theorem token_reaches_module_witness:
  "fst (informModuleToken_module late_module ''a'' ''chat'' ''ui'' ''t'' 0 (newConsumer :: (nat, nat) consumer)) \<and>
   set (noHandshakeSurface (snd (informModuleToken_module late_module ''a'' ''chat'' ''ui'' ''t'' 0
     (newConsumer :: (nat, nat) consumer)))) = {''chat__handshake''}"
proof -
  obtain ok s' where r: "informModuleToken_module late_module ''a'' ''chat'' ''ui'' ''t'' 0
     (newConsumer :: (nat, nat) consumer) = (ok, s')" by fastforce
  from token_reaches_module[OF r] show ?thesis
    unfolding r by (simp add: newConsumer_def late_module_def acquireCachedObject_def acquireFresh_def
        handshakeObjectName_def)
qed

subsection \<open>The connect loop ends\<close>

text \<open>
  C39: The constructor returns. When the clock advances by the fifty milliseconds slept after
  each failed attempt, the loop ends within 101 attempts: at the first that connects, or at
  the first to fail after five seconds.
\<close>

theorem connect_loop_ends:
  assumes "start \<le> clock 0" and "\<forall>n. clock n + 50 \<le> clock (Suc n)"
  shows "\<exists>n \<le> 100. connectConsumer tries clock start = Some n \<and> (\<forall>k < n. \<not> tries k \<and> clock k < start + 5000) \<and>
    (tries n \<or> start + 5000 \<le> clock n)"
proof -
  have step: "start + 50 * int n \<le> clock n" for n
  proof (induction n)
    case (Suc n)
    with assms(2)[rule_format, of n] show ?case by simp
  qed (use assms(1) in simp)
  have "\<exists>m. tries m \<or> start + 5000 \<le> clock m" using step[of 100] by auto
  define n where "n = (LEAST m. tries m \<or> start + 5000 \<le> clock m)"
  have stop: "tries n \<or> start + 5000 \<le> clock n"
    unfolding n_def using \<open>\<exists>m. _ m\<close> by (rule LeastI_ex)
  have go: "\<not> tries k \<and> clock k < start + 5000" if "k < n" for k
    using not_less_Least[OF that[unfolded n_def]] by auto
  have "n \<le> 100" unfolding n_def by (rule Least_le) (use step[of 100] in auto)
  moreover have "connectLoop tries clock (start + 5000) k = Some n" if "k \<le> n" for k
    using that
  proof (induction "n - k" arbitrary: k)
    case 0
    with stop show ?case by (subst connectLoop.simps) auto
  next
    case (Suc d)
    from Suc.hyps(2) Suc.prems have "k < n" by simp
    with go[of k] Suc.hyps(1)[of "Suc k"] Suc.hyps(2) show ?case by (subst connectLoop.simps) auto
  qed
  ultimately show ?thesis using stop go by (auto simp: connectConsumer_def connectBudgetMs_def)
qed

theorem connect_loop_ends_witness:
  "connectConsumer (\<lambda>n. n = 3) (\<lambda>n. 60 * int n) 0 = Some 3"
proof -
  obtain n where n: "connectConsumer (\<lambda>n. n = 3) (\<lambda>n. 60 * int n) 0 = Some n" "\<forall>k < n. k \<noteq> 3 \<and> 60 * int k < 5000"
    "n = 3 \<or> 5000 \<le> 60 * int n"
    using connect_loop_ends[of 0 "\<lambda>n. 60 * int n" "\<lambda>n. n = 3"] by auto
  then have "\<not> 3 < n" by auto
  with n show ?thesis by auto
qed

end
