(* ===== verification/Api_Client.thy ===== *)
theory Api_Client
  imports Api_Consumer Token_Store
begin

text \<open>
  The blocking half of \<open>LogosAPIClient\<close> (\<open>cpp/logos_api_client.cpp\<close>): the token of the target
  is taken from the store, or minted through the capability module once the target is known
  to be up, and a rejected call is repeated once with a fresh token.

  While a blocking request waits, Qt may run other frames on the same thread, and those may
  use the same token store. \<open>frames\<close> is what they do to it: one function for each place at
  which the code waits. The hop to the owner's thread changes nothing else.
\<close>

record ('v, 'c) client =
  tstore :: token_manager
  privateStore :: bool
  originModule :: qstring
  mainConsumer :: "('v, 'c) consumer"
  capabilityConsumer :: "('v, 'c) consumer option"
  warnedNoCredential :: bool

record frames =
  duringWait :: "token_manager \<Rightarrow> token_manager"
  duringExchange :: "token_manager \<Rightarrow> token_manager"
  duringCall :: "token_manager \<Rightarrow> token_manager"

definition newClient :: "qstring \<Rightarrow> qstring \<Rightarrow> token_manager \<Rightarrow> bool \<Rightarrow> ('v, 'c) client" where
  "newClient module orig ts private =
     \<lparr>tstore = ts, privateStore = private, originModule = orig, mainConsumer = newConsumer,
      capabilityConsumer = (if module = capabilityName then None else Some newConsumer),
      warnedNoCredential = False\<rparr>"

definition clientToken :: "qstring \<Rightarrow> ('v, 'c) client \<Rightarrow> qstring" where
  "clientToken name c = getToken (tstore c) name"

definition eligible :: "qstring \<Rightarrow> ('v, 'c) client \<Rightarrow> bool" where
  "eligible name c = (name \<noteq> capabilityName \<and> capabilityConsumer c \<noteq> None)"

text \<open>\<open>m_capability_consumer\<close> is dereferenced without a test: every caller tested it.\<close>

definition mintAndCacheToken ::
  "('v qvariant \<Rightarrow> qstring) \<Rightarrow> 'v cenv \<Rightarrow> frames \<Rightarrow> qstring \<Rightarrow> int \<Rightarrow> ('v, 'c) client \<Rightarrow> qstring \<times> ('v, 'c) client" where
  "mintAndCacheToken conv v fr name t c =
     (let capToken = clientToken capabilityName c;
          c1 = (if capToken = [] \<and> privateStore c \<and> \<not> warnedNoCredential c
                then c\<lparr>warnedNoCredential := True\<rparr> else c)
      in case capabilityConsumer c1 of
           None \<Rightarrow> ([], c1)
         | Some cap \<Rightarrow>
             let (token, cap1) = requestModule conv v capToken (originModule c1) name t cap;
                 c2 = c1\<lparr>capabilityConsumer := Some cap1, tstore := duringExchange fr (tstore c1)\<rparr>
             in (token, if token = [] then c2 else c2\<lparr>tstore := fst (saveToken name token (tstore c2))\<rparr>))"

text \<open>One call through the target's consumer.\<close>

definition callTarget ::
  "'v cenv \<Rightarrow> frames \<Rightarrow> qstring \<Rightarrow> qstring \<Rightarrow> qstring \<Rightarrow> 'v qvariant list \<Rightarrow> int \<Rightarrow> ('v, 'c) client \<Rightarrow>
   ('v qvariant \<times> call_error) \<times> ('v, 'c) client" where
  "callTarget v fr token name m args t c =
     (let (r, mc) = consumerInvoke v token name m args t (mainConsumer c)
      in (r, c\<lparr>mainConsumer := mc, tstore := duringCall fr (tstore c)\<rparr>))"

definition rejectedError :: "qstring \<Rightarrow> call_error" where
  "rejectedError name =
     \<lparr>code = ''unauthorized'',
      message = ''call to '' @ [CHR 0x27] @ name @ [CHR 0x27] @ '' rejected: token not recognized (re-exchange failed)'',
      origin = name\<rparr>"

text \<open>
  The token before the call. None is the return for an unreachable target: nothing is minted
  and nothing is called. The wait may let another frame mint, so the store is read again.
\<close>

definition tokenForCall ::
  "('v qvariant \<Rightarrow> qstring) \<Rightarrow> 'v cenv \<Rightarrow> frames \<Rightarrow> qstring \<Rightarrow> int \<Rightarrow> ('v, 'c) client \<Rightarrow> qstring option \<times> ('v, 'c) client" where
  "tokenForCall conv v fr name t c =
     (let token = clientToken name c
      in if token = [] \<and> eligible name c
         then let (up, mc) = ensureTargetAcquirable v name t (mainConsumer c);
                  c1 = c\<lparr>mainConsumer := mc, tstore := duringWait fr (tstore c)\<rparr>
              in if \<not> up then (None, c1)
                 else let token1 = clientToken name c1
                      in if token1 = []
                         then (case mintAndCacheToken conv v fr name (max 1 (t - spentMs v)) c1 of (tk, c2) \<Rightarrow> (Some tk, c2))
                         else (Some token1, c1)
         else (Some token, c))"

definition retryRejected ::
  "('v qvariant \<Rightarrow> qstring) \<Rightarrow> 'v cenv \<Rightarrow> frames \<Rightarrow> qstring \<Rightarrow> qstring \<Rightarrow> 'v qvariant list \<Rightarrow> int \<Rightarrow>
   ('v qvariant \<times> call_error) \<times> ('v, 'c) client \<Rightarrow> ('v qvariant \<times> call_error) \<times> ('v, 'c) client" where
  "retryRejected conv v fr name m args t = (\<lambda>(r, c).
     (if eligible name c \<and> isUnauthorizedSentinel conv (fst r)
      then let c1 = c\<lparr>tstore := fst (snd (removeToken name (tstore c)))\<rparr>;
               (fresh, c2) = mintAndCacheToken conv v fr name t c1
           in if fresh = [] then (r, c2) else callTarget v fr fresh name m args t c2
      else (r, c)))"

definition invokeRemoteMethod ::
  "('v qvariant \<Rightarrow> qstring) \<Rightarrow> 'v cenv \<Rightarrow> frames \<Rightarrow> qstring \<Rightarrow> qstring \<Rightarrow> 'v qvariant list \<Rightarrow> int \<Rightarrow> ('v, 'c) client \<Rightarrow>
   ('v qvariant \<times> call_error) \<times> ('v, 'c) client" where
  "invokeRemoteMethod conv v fr name m args t c =
     (case tokenForCall conv v fr name t c of
        (None, c1) \<Rightarrow> ((QInvalid, unavailableError name), c1)
      | (Some token, c1) \<Rightarrow>
          let (r, c2) = retryRejected conv v fr name m args t (callTarget v fr token name m args t c1)
          in if isUnauthorizedSentinel conv (fst r) then ((QInvalid, rejectedError name), c2) else (r, c2))"

subsection \<open>What goes over the wire\<close>

fun method_called :: "('v, 'c) consumer_output \<Rightarrow> bool" where
  "method_called (Called h token m args t) = True"
| "method_called _ = False"

definition calls_of :: "('v, 'c) consumer \<Rightarrow> nat" where
  "calls_of s = length (filter method_called (clog s))"

definition exchanges_of :: "('v, 'c) client \<Rightarrow> nat" where
  "exchanges_of c = (case capabilityConsumer c of None \<Rightarrow> 0 | Some s \<Rightarrow> calls_of s)"

lemma calls_of_jot [simp]: "calls_of (jot os s) = calls_of s + length (filter method_called os)"
  by (simp add: calls_of_def)

lemma calls_of_cache [simp]: "calls_of (s\<lparr>objectCache := x\<rparr>) = calls_of s"
  by (simp add: calls_of_def)

lemma calls_of_acquire [simp]: "calls_of (snd (acquireCachedObject v name t s)) = calls_of s"
  by (simp add: acquireCachedObject_def acquireFresh_def split: option.splits)

lemma calls_of_ensure [simp]: "calls_of (snd (ensureTargetAcquirable v name t s)) = calls_of s"
  by (simp add: ensureTargetAcquirable_def split_beta)

lemma calls_of_invoke:
  "calls_of (snd (consumerInvoke v token name m args t s)) \<le> calls_of s + 1"
proof -
  obtain h s1 where a: "acquireCachedObject v name t s = (h, s1)" by fastforce
  with calls_of_acquire[of v name t s] show ?thesis
    by (cases h) (simp_all add: consumerInvoke_def split_beta)
qed

lemma calls_of_requestModule [simp]:
  "calls_of (snd (requestModule conv v auth orig tn t s)) \<le> Suc (calls_of s)"
  by (simp add: requestModule_def Let_def split: option.splits)

lemma mint_frame:
  fixes c :: "('v, 'c) client"
  defines "c' \<equiv> \<lambda>conv v fr name t. snd (mintAndCacheToken conv v fr name t c)"
  shows "mainConsumer (c' conv v fr name t) = mainConsumer c" "exchanges_of (c' conv v fr name t) \<le> exchanges_of c + 1"
    "(capabilityConsumer (c' conv v fr name t) = None) = (capabilityConsumer c = None)"
  by (simp_all add: c'_def mintAndCacheToken_def Let_def exchanges_of_def split_beta split: option.splits)

lemma callTarget_frame:
  "calls_of (mainConsumer (snd (callTarget v fr token name m args t c))) \<le> calls_of (mainConsumer c) + 1"
  "exchanges_of (snd (callTarget v fr token name m args t c)) = exchanges_of c"
  "capabilityConsumer (snd (callTarget v fr token name m args t c)) = capabilityConsumer c"
  using calls_of_invoke[of v token name m args t "mainConsumer c"]
  by (simp_all add: callTarget_def exchanges_of_def split_beta)

lemma tokenForCall_frame:
  "calls_of (mainConsumer (snd (tokenForCall conv v fr name t c))) = calls_of (mainConsumer c)"
  "exchanges_of (snd (tokenForCall conv v fr name t c)) \<le>
     exchanges_of c + (if clientToken name c = [] \<and> eligible name c then 1 else 0)"
  "(capabilityConsumer (snd (tokenForCall conv v fr name t c)) = None) = (capabilityConsumer c = None)"
  using mint_frame[where c = "c\<lparr>mainConsumer := snd (ensureTargetAcquirable v name t (mainConsumer c)),
      tstore := duringWait fr (tstore c)\<rparr>"]
  by (simp_all add: tokenForCall_def Let_def split_beta exchanges_of_def)

lemma retryRejected_frame:
  assumes "exchanges_of c2 \<le> n"
  shows "calls_of (mainConsumer (snd (retryRejected conv v fr name m args t (r, c2)))) \<le>
      calls_of (mainConsumer c2) + (if eligible name c2 then 1 else 0)"
    "exchanges_of (snd (retryRejected conv v fr name m args t (r, c2))) \<le> n + (if eligible name c2 then 1 else 0)"
proof -
  let ?c1 = "c2\<lparr>tstore := fst (snd (removeToken name (tstore c2)))\<rparr>"
  let ?m = "mintAndCacheToken conv v fr name t ?c1"
  note m = mint_frame[where c = ?c1 and conv = conv and v = v and fr = fr and name = name and t = t]
  have ex: "exchanges_of ?c1 = exchanges_of c2" by (simp add: exchanges_of_def)
  note ct = callTarget_frame[of v fr "fst ?m" name m args t "snd ?m"]
  show "calls_of (mainConsumer (snd (retryRejected conv v fr name m args t (r, c2)))) \<le>
      calls_of (mainConsumer c2) + (if eligible name c2 then 1 else 0)"
    using m(1) ct(1) by (simp add: retryRejected_def Let_def split_beta)
  show "exchanges_of (snd (retryRejected conv v fr name m args t (r, c2))) \<le> n + (if eligible name c2 then 1 else 0)"
    using m(2) ct(2) ex assms by (simp add: retryRejected_def Let_def split_beta)
qed

lemma call_protocol_parts:
  fixes conv v fr name m args t tok and c :: "('v, 'c) client"
  defines "res \<equiv> fst (invokeRemoteMethod conv v fr name m args t c)"
    and "c' \<equiv> snd (invokeRemoteMethod conv v fr name m args t c)"
  shows "\<not> isUnauthorizedSentinel conv (fst res)"
    and "calls_of (mainConsumer c') \<le> calls_of (mainConsumer c) + (if eligible name c then 2 else 1)"
    and "exchanges_of c' \<le>
      exchanges_of c + (if eligible name c then if clientToken name c = [] then 2 else 1 else 0)"
    and "clientToken name c = [] \<and> eligible name c \<and> \<not> fst (ensureTargetAcquirable v name t (mainConsumer c)) \<longrightarrow>
      res = (QInvalid, unavailableError name) \<and>
      calls_of (mainConsumer c') = calls_of (mainConsumer c) \<and>
      exchanges_of c' = exchanges_of c"
    and "clientToken name c = [] \<and> eligible name c \<and> fst (ensureTargetAcquirable v name t (mainConsumer c)) \<and>
        getToken (duringWait fr (tstore c)) name = tok \<and> tok \<noteq> [] \<longrightarrow>
      fst (tokenForCall conv v fr name t c) = Some tok \<and>
      exchanges_of (snd (tokenForCall conv v fr name t c)) = exchanges_of c"
proof -
  obtain tk c1 where tf: "tokenForCall conv v fr name t c = (tk, c1)" by fastforce
  note t1 = tokenForCall_frame[of conv v fr name t c, unfolded tf, simplified]
  have el1: "eligible name c1 = eligible name c" using t1(3) by (simp add: eligible_def)
  show "\<not> isUnauthorizedSentinel conv (fst res)"
    by (simp add: res_def invokeRemoteMethod_def Let_def split_beta split: option.splits)
  have both: "calls_of (mainConsumer c') \<le> calls_of (mainConsumer c) + (if eligible name c then 2 else 1) \<and>
    exchanges_of c' \<le>
      exchanges_of c + (if eligible name c then if clientToken name c = [] then 2 else 1 else 0)"
  proof (cases tk)
    case None
    with t1 show ?thesis by (auto simp: c'_def invokeRemoteMethod_def tf split: if_splits)
  next
    case (Some token)
    obtain r c2 where ct: "callTarget v fr token name m args t c1 = (r, c2)" by fastforce
    note t2 = callTarget_frame[of v fr token name m args t c1, unfolded ct, simplified]
    have "eligible name c2 = eligible name c" using t2(3) el1 by (simp add: eligible_def)
    with retryRejected_frame[of c2 "exchanges_of c1" conv v fr name m args t r] t1 t2 Some show ?thesis
      by (auto simp: c'_def invokeRemoteMethod_def tf ct Let_def split_beta split: if_splits)
  qed
  then show "calls_of (mainConsumer c') \<le> calls_of (mainConsumer c) + (if eligible name c then 2 else 1)"
    and "exchanges_of c' \<le>
      exchanges_of c + (if eligible name c then if clientToken name c = [] then 2 else 1 else 0)" by blast+
  show "clientToken name c = [] \<and> eligible name c \<and> \<not> fst (ensureTargetAcquirable v name t (mainConsumer c)) \<longrightarrow>
      res = (QInvalid, unavailableError name) \<and>
      calls_of (mainConsumer c') = calls_of (mainConsumer c) \<and>
      exchanges_of c' = exchanges_of c"
    by (simp add: res_def c'_def invokeRemoteMethod_def tokenForCall_def Let_def split_beta exchanges_of_def)
  show "clientToken name c = [] \<and> eligible name c \<and> fst (ensureTargetAcquirable v name t (mainConsumer c)) \<and>
        getToken (duringWait fr (tstore c)) name = tok \<and> tok \<noteq> [] \<longrightarrow>
      fst (tokenForCall conv v fr name t c) = Some tok \<and>
      exchanges_of (snd (tokenForCall conv v fr name t c)) = exchanges_of c"
    by (simp add: tokenForCall_def Let_def split_beta exchanges_of_def clientToken_def)
qed

text \<open>
  C14: A blocking call over the wire. The rejection sentinel never reaches the caller. A call
  makes at most two calls of the target and at most one exchange with the capability module
  for the retry, one more when it started without a token; a call of the capability module
  itself makes one call and no exchange. Without a token nothing is called and nothing
  exchanged while the target is not up, and a token that appeared in the store during the
  wait is used, not minted over.
\<close>

theorem blocking_call_protocol:
  fixes conv v fr name m args t tok and c :: "('v, 'c) client"
  defines "res \<equiv> fst (invokeRemoteMethod conv v fr name m args t c)"
    and "c' \<equiv> snd (invokeRemoteMethod conv v fr name m args t c)"
  shows "(\<not> isUnauthorizedSentinel conv (fst res)) \<and>
    (calls_of (mainConsumer c') \<le> calls_of (mainConsumer c) + (if eligible name c then 2 else 1)) \<and>
    (exchanges_of c' \<le>
        exchanges_of c + (if eligible name c then if clientToken name c = [] then 2 else 1 else 0)) \<and>
    (clientToken name c = [] \<and> eligible name c \<and> \<not> fst (ensureTargetAcquirable v name t (mainConsumer c)) \<longrightarrow>
        res = (QInvalid, unavailableError name) \<and>
        calls_of (mainConsumer c') = calls_of (mainConsumer c) \<and>
        exchanges_of c' = exchanges_of c) \<and>
    (clientToken name c = [] \<and> eligible name c \<and> fst (ensureTargetAcquirable v name t (mainConsumer c)) \<and>
          getToken (duringWait fr (tstore c)) name = tok \<and> tok \<noteq> [] \<longrightarrow>
        fst (tokenForCall conv v fr name t c) = Some tok \<and>
        exchanges_of (snd (tokenForCall conv v fr name t c)) = exchanges_of c)"
  unfolding res_def c'_def by (intro conjI call_protocol_parts)

definition nothing_up :: "nat cenv" where
  "nothing_up = \<lparr>supportsAsync = True, tryAcquireNow = (\<lambda>n. None), requestWhenAvailable = (\<lambda>n. True),
     requestObject = (\<lambda>n. None), handleValid = (\<lambda>h. True), now = 0, connected = True,
     requestWithin = (\<lambda>n t. None), invokeOn = (\<lambda>h tok m args t. (QInvalid, None)),
     informOn = (\<lambda>h a n tok t. True), reconnectOk = True, spentMs = 0\<rparr>"

definition quiet_frames :: frames where
  "quiet_frames = \<lparr>duringWait = id, duringExchange = id, duringCall = id\<rparr>"

theorem blocking_call_protocol_witness:
  "fst (invokeRemoteMethod (\<lambda>v. []) nothing_up quiet_frames ''chat'' ''send'' [] 1000
     (newClient ''chat'' ''ui'' newTokenManager False :: (nat, nat) client)) = (QInvalid, unavailableError ''chat'')"
proof -
  let ?c = "newClient ''chat'' ''ui'' newTokenManager False :: (nat, nat) client"
  have "clientToken ''chat'' ?c = []" "eligible ''chat'' ?c"
    "\<not> fst (ensureTargetAcquirable nothing_up ''chat'' 1000 (mainConsumer ?c))"
    by code_simp+
  then show ?thesis
    using blocking_call_protocol[where tok = "[]" and c = ?c and name = "''chat''" and v = nothing_up and t = 1000 and
        conv = "\<lambda>v. []" and fr = quiet_frames and m = "''send''" and args = "[]"] by simp
qed

end
