(* ===== verification/Client_Handshakes.thy ===== *)
theory Client_Handshakes
  imports Api_Client
begin

text \<open>
  The asynchronous half of \<open>LogosAPIClient\<close> (\<open>cpp/logos_api_client.cpp\<close>). A call to a target
  without a token joins the target's queue. The first one in the queue waits, on its own
  budget, for the target to be available, then exchanges a token; the queue is drained by
  whichever comes first: the token, the deadline, or the answer that the target cannot be
  reached.

  What the consumer does comes from outside, as events: when and whether it reports a target
  available (\<open>availability\<close> is what \<open>whenObjectAvailable\<close> does before it returns), how an
  exchange and a call end. A record of a wait (\<open>readiness\<close>) is shared by three closures; it is
  named by its number. Callers are numbers. Other users of the token store act in
  \<open>AStore\<close> events.
\<close>

subsection \<open>State\<close>

record 'v acall =
  caller :: nat
  aobject :: qstring
  amethod :: qstring
  aargs :: "'v qvariant list"
  atimeout :: int
  retriesLeft :: nat

record readiness =
  rid :: u64
  rtimer :: bool
  rdone :: bool
  robject :: qstring
  rtimeout :: int

datatype availability = FiresNow bool | Waits u64

datatype 'v async_output =
  AskAvailable qstring nat
| StartDeadline nat int
| CancelAsk u64
| Exchange qstring qstring qstring int
| Dispatch qstring "'v acall"
| AnswerCaller nat "'v qvariant" call_error

record 'v async_client =
  astore :: token_manager
  acapability :: bool
  aorigin :: qstring
  alive :: bool
  recs :: "readiness list"
  pendingReadiness :: "(qstring, nat) qhash"
  pendingHandshakes :: "(qstring, 'v acall list) qhash"
  exchanges :: "qstring list"
  flying :: "'v acall list"
  alog :: "'v async_output list"

definition newAsyncClient :: "token_manager \<Rightarrow> bool \<Rightarrow> qstring \<Rightarrow> 'v async_client" where
  "newAsyncClient ts cap orig =
     \<lparr>astore = ts, acapability = cap, aorigin = orig, alive = True, recs = [], pendingReadiness = [],
      pendingHandshakes = [], exchanges = [], flying = [], alog = []\<rparr>"

definition alogs :: "'v async_output list \<Rightarrow> 'v async_client \<Rightarrow> 'v async_client" where
  "alogs os c = c\<lparr>alog := alog c @ os\<rparr>"

definition set_rec :: "nat \<Rightarrow> (readiness \<Rightarrow> readiness) \<Rightarrow> 'v async_client \<Rightarrow> 'v async_client" where
  "set_rec n f c = c\<lparr>recs := (recs c)[n := f (recs c ! n)]\<rparr>"

definition asyncEligible :: "qstring \<Rightarrow> 'v async_client \<Rightarrow> bool" where
  "asyncEligible name c = (name \<noteq> capabilityName \<and> acapability c)"

subsection \<open>Operations\<close>

definition dispatchCall :: "qstring \<Rightarrow> 'v acall \<Rightarrow> 'v async_client \<Rightarrow> 'v async_client" where
  "dispatchCall token call c = alogs [Dispatch token call] (c\<lparr>flying := flying c @ [call]\<rparr>)"

text \<open>The caller's answer once no retry is due: the rejection sentinel is turned into an error.\<close>

definition finishCall :: "('v qvariant \<Rightarrow> qstring) \<Rightarrow> 'v acall \<Rightarrow> 'v qvariant \<Rightarrow> call_error \<Rightarrow> 'v async_client \<Rightarrow> 'v async_client" where
  "finishCall conv call r e c =
     alogs [if isUnauthorizedSentinel conv r then AnswerCaller (caller call) QInvalid (rejectedError (aobject call))
            else AnswerCaller (caller call) r e] c"

text \<open>
  A queued continuation. Of an unreachable target the callback is given an invalid value,
  which is not the sentinel, so it finishes.
\<close>

definition resumeCall :: "('v qvariant \<Rightarrow> qstring) \<Rightarrow> qstring \<Rightarrow> bool \<Rightarrow> 'v acall \<Rightarrow> 'v async_client \<Rightarrow> 'v async_client" where
  "resumeCall conv tok reachable call c =
     (if \<not> reachable then finishCall conv call QInvalid (unavailableError (aobject call)) c
      else dispatchCall tok call c)"

definition drainPendingHandshakes ::
  "('v qvariant \<Rightarrow> qstring) \<Rightarrow> qstring \<Rightarrow> qstring \<Rightarrow> bool \<Rightarrow> 'v async_client \<Rightarrow> 'v async_client" where
  "drainPendingHandshakes conv name tok reachable c = (case hash_find (pendingHandshakes c) name of
       None \<Rightarrow> c
     | Some calls \<Rightarrow> fold (resumeCall conv tok reachable) calls
         (c\<lparr>pendingHandshakes := hash_remove name (pendingHandshakes c)\<rparr>))"

definition finishReadiness :: "qstring \<Rightarrow> 'v async_client \<Rightarrow> 'v async_client" where
  "finishReadiness name c = (case hash_find (pendingReadiness c) name of
       None \<Rightarrow> c
     | Some n \<Rightarrow> (set_rec n (\<lambda>r. r\<lparr>rtimer := False\<rparr>) c)\<lparr>pendingReadiness := hash_remove name (pendingReadiness c)\<rparr>)"

definition startCapabilityHandshake :: "qstring \<Rightarrow> int \<Rightarrow> 'v async_client \<Rightarrow> 'v async_client" where
  "startCapabilityHandshake name t c =
     alogs [Exchange (getToken (astore c) capabilityName) (aorigin c) name t] (c\<lparr>exchanges := exchanges c @ [name]\<rparr>)"

definition readyFires :: "('v qvariant \<Rightarrow> qstring) \<Rightarrow> nat \<Rightarrow> bool \<Rightarrow> 'v async_client \<Rightarrow> 'v async_client" where
  "readyFires conv n ready c =
     (if rdone (recs c ! n) then c
      else let name = robject (recs c ! n); t = rtimeout (recs c ! n);
               c1 = set_rec n (\<lambda>r. r\<lparr>rdone := True\<rparr>) c
           in if \<not> alive c1 then c1
              else let c2 = finishReadiness name c1
                   in if ready then startCapabilityHandshake name t c2
                      else drainPendingHandshakes conv name [] False c2)"

definition deadlineFires :: "('v qvariant \<Rightarrow> qstring) \<Rightarrow> nat \<Rightarrow> 'v async_client \<Rightarrow> 'v async_client" where
  "deadlineFires conv n c =
     (if rdone (recs c ! n) then c
      else let name = robject (recs c ! n);
               c1 = set_rec n (\<lambda>r. r\<lparr>rdone := True\<rparr>) c
           in if \<not> alive c1 then c1
              else drainPendingHandshakes conv name [] False
                     (finishReadiness name (alogs [CancelAsk (rid (recs c ! n))] c1)))"

definition beginReadinessGatedHandshake ::
  "('v qvariant \<Rightarrow> qstring) \<Rightarrow> availability \<Rightarrow> qstring \<Rightarrow> int \<Rightarrow> 'v async_client \<Rightarrow> 'v async_client" where
  "beginReadinessGatedHandshake conv av name t c =
     (let n = length (recs c);
          r = \<lparr>rid = 0, rtimer = False, rdone = False, robject = name, rtimeout = t\<rparr>;
          c1 = alogs [AskAvailable name n]
                 (c\<lparr>recs := recs c @ [r], pendingReadiness := hash_insert name n (pendingReadiness c)\<rparr>)
      in case av of
           FiresNow ready \<Rightarrow> readyFires conv n ready c1
         | Waits i \<Rightarrow>
             if i = 0
             then drainPendingHandshakes conv name [] False
                    ((set_rec n (\<lambda>r. r\<lparr>rdone := True\<rparr>) c1)\<lparr>pendingReadiness := hash_remove name (pendingReadiness c1)\<rparr>)
             else alogs [StartDeadline n (max 1 t)] (set_rec n (\<lambda>r. r\<lparr>rid := i, rtimer := True\<rparr>) c1))"

definition invokeRemoteMethodAsyncImpl ::
  "('v qvariant \<Rightarrow> qstring) \<Rightarrow> availability \<Rightarrow> 'v acall \<Rightarrow> 'v async_client \<Rightarrow> 'v async_client" where
  "invokeRemoteMethodAsyncImpl conv av call c =
     (let name = aobject call; token = getToken (astore c) name
      in if token = [] \<and> asyncEligible name c
         then let q = hash_value (pendingHandshakes c) name [] @ [call];
                  c1 = c\<lparr>pendingHandshakes := hash_insert name q (pendingHandshakes c)\<rparr>
              in if 1 < length q then c1
                 else beginReadinessGatedHandshake conv av name (atimeout call) c1
         else dispatchCall token call c)"

text \<open>The public entry; a call without a callback is ignored.\<close>

definition invokeRemoteMethodAsync ::
  "('v qvariant \<Rightarrow> qstring) \<Rightarrow> availability \<Rightarrow> qstring \<Rightarrow> qstring \<Rightarrow> 'v qvariant list \<Rightarrow> nat option \<Rightarrow> int \<Rightarrow>
   'v async_client \<Rightarrow> 'v async_client" where
  "invokeRemoteMethodAsync conv av name m args cb t c = (case cb of None \<Rightarrow> c
     | Some k \<Rightarrow> invokeRemoteMethodAsyncImpl conv av
         \<lparr>caller = k, aobject = name, amethod = m, aargs = args, atimeout = t, retriesLeft = 1\<rparr> c)"

text \<open>The wrapper of the caller's callback.\<close>

definition onResult ::
  "('v qvariant \<Rightarrow> qstring) \<Rightarrow> availability \<Rightarrow> 'v acall \<Rightarrow> 'v qvariant \<Rightarrow> call_error \<Rightarrow> 'v async_client \<Rightarrow> 'v async_client" where
  "onResult conv av call r e c =
     (if \<not> alive c then c
      else if 0 < retriesLeft call \<and> asyncEligible (aobject call) c \<and> isUnauthorizedSentinel conv r
      then invokeRemoteMethodAsyncImpl conv av (call\<lparr>retriesLeft := retriesLeft call - 1\<rparr>)
             (c\<lparr>astore := fst (snd (removeToken (aobject call) (astore c)))\<rparr>)
      else finishCall conv call r e c)"

definition exchangeReturns ::
  "('v qvariant \<Rightarrow> qstring) \<Rightarrow> nat \<Rightarrow> 'v qvariant \<Rightarrow> 'v async_client \<Rightarrow> 'v async_client" where
  "exchangeReturns conv k v c =
     (let name = exchanges c ! k; c1 = c\<lparr>exchanges := take k (exchanges c) @ drop (Suc k) (exchanges c)\<rparr>
      in if \<not> alive c1 then c1
         else let tok = variant_toString conv v;
                  c2 = (if tok = [] then c1 else c1\<lparr>astore := fst (saveToken name tok (astore c1))\<rparr>)
              in drainPendingHandshakes conv name tok True c2)"

definition resultReturns ::
  "('v qvariant \<Rightarrow> qstring) \<Rightarrow> availability \<Rightarrow> nat \<Rightarrow> 'v qvariant \<Rightarrow> call_error \<Rightarrow> 'v async_client \<Rightarrow> 'v async_client" where
  "resultReturns conv av k r e c =
     onResult conv av (flying c ! k) r e (c\<lparr>flying := take k (flying c) @ drop (Suc k) (flying c)\<rparr>)"

subsection \<open>Events\<close>

datatype 'v async_event =
  AInvoke availability qstring qstring "'v qvariant list" "nat option" int
| AReady nat bool
| ADeadline nat
| AExchange nat "'v qvariant"
| AResult availability nat "'v qvariant" call_error
| AStore "token_manager \<Rightarrow> token_manager"
| ADestroy

text \<open>
  A call on a destroyed client is the caller's error and has no step. A readiness report may
  come at any time, any number of times; a deadline only comes from a running timer.
\<close>

fun async_step :: "('v qvariant \<Rightarrow> qstring) \<Rightarrow> 'v async_event \<Rightarrow> 'v async_client \<Rightarrow> 'v async_client" where
  "async_step conv (AInvoke av name m args cb t) c =
     (if alive c then invokeRemoteMethodAsync conv av name m args cb t c else c)"
| "async_step conv (AReady n ready) c = (if n < length (recs c) then readyFires conv n ready c else c)"
| "async_step conv (ADeadline n) c =
     (if n < length (recs c) \<and> rtimer (recs c ! n) then deadlineFires conv n c else c)"
| "async_step conv (AExchange k v) c = (if k < length (exchanges c) then exchangeReturns conv k v c else c)"
| "async_step conv (AResult av k r e) c = (if k < length (flying c) then resultReturns conv av k r e c else c)"
| "async_step conv (AStore f) c = c\<lparr>astore := f (astore c)\<rparr>"
| "async_step conv ADestroy c = c\<lparr>alive := False\<rparr>"

definition run_async :: "('v qvariant \<Rightarrow> qstring) \<Rightarrow> 'v async_event list \<Rightarrow> 'v async_client \<Rightarrow> 'v async_client" where
  "run_async conv evs c = fold (async_step conv) evs c"

subsection \<open>How the operations act on the state\<close>

lemma alogs_fields [simp]:
  "astore (alogs os c) = astore c" "acapability (alogs os c) = acapability c" "aorigin (alogs os c) = aorigin c"
  "alive (alogs os c) = alive c" "recs (alogs os c) = recs c" "pendingReadiness (alogs os c) = pendingReadiness c"
  "pendingHandshakes (alogs os c) = pendingHandshakes c" "exchanges (alogs os c) = exchanges c"
  "flying (alogs os c) = flying c" "alog (alogs os c) = alog c @ os"
  by (simp_all add: alogs_def)

lemma alogs_Nil [simp]: "alogs [] c = c"
  by (simp add: alogs_def)

lemma alogs_commute:
  "(alogs os c)\<lparr>recs := x\<rparr> = alogs os (c\<lparr>recs := x\<rparr>)"
  "(alogs os c)\<lparr>pendingReadiness := y\<rparr> = alogs os (c\<lparr>pendingReadiness := y\<rparr>)"
  by (simp_all add: alogs_def)

lemma set_rec_fields [simp]:
  "astore (set_rec n f c) = astore c" "acapability (set_rec n f c) = acapability c" "alive (set_rec n f c) = alive c"
  "pendingReadiness (set_rec n f c) = pendingReadiness c" "pendingHandshakes (set_rec n f c) = pendingHandshakes c"
  "exchanges (set_rec n f c) = exchanges c" "flying (set_rec n f c) = flying c" "alog (set_rec n f c) = alog c"
  "recs (set_rec n f c) = (recs c)[n := f (recs c ! n)]"
  by (simp_all add: set_rec_def)

definition resumeOutput :: "qstring \<Rightarrow> bool \<Rightarrow> 'v acall \<Rightarrow> 'v async_output" where
  "resumeOutput tok reachable call =
     (if reachable then Dispatch tok call else AnswerCaller (caller call) QInvalid (unavailableError (aobject call)))"

lemma resume_eq:
  "resumeCall conv tok reachable call c =
     alogs [resumeOutput tok reachable call] (if reachable then c\<lparr>flying := flying c @ [call]\<rparr> else c)"
  by (simp add: resumeCall_def finishCall_def dispatchCall_def resumeOutput_def)

lemma fold_resume:
  "fold (resumeCall conv tok reachable) calls c =
     c\<lparr>flying := flying c @ (if reachable then calls else []), alog := alog c @ map (resumeOutput tok reachable) calls\<rparr>"
  by (induction calls arbitrary: c) (auto simp: resume_eq alogs_def)

lemma drain_eq:
  "drainPendingHandshakes conv name tok reachable c = (case hash_find (pendingHandshakes c) name of
       None \<Rightarrow> c
     | Some calls \<Rightarrow> c\<lparr>pendingHandshakes := hash_remove name (pendingHandshakes c),
         flying := flying c @ (if reachable then calls else []),
         alog := alog c @ map (resumeOutput tok reachable) calls\<rparr>)"
  by (simp add: drainPendingHandshakes_def fold_resume split: option.splits)

subsection \<open>Every queue has one driver\<close>

text \<open>
  A queue is driven by a wait with a running deadline or by an exchange in flight, by one of
  them and not both; a wait whose latch is open is the one its object is registered with.
\<close>

definition recs_ok :: "'v async_client \<Rightarrow> bool" where
  "recs_ok c = (hash_wf (pendingReadiness c) \<and>
     (\<forall>name n. hash_find (pendingReadiness c) name = Some n \<longrightarrow>
        n < length (recs c) \<and> robject (recs c ! n) = name \<and> \<not> rdone (recs c ! n) \<and> rtimer (recs c ! n)) \<and>
     (\<forall>n < length (recs c). \<not> rdone (recs c ! n) \<longrightarrow>
        hash_find (pendingReadiness c) (robject (recs c ! n)) = Some n))"

definition queues_ok :: "'v async_client \<Rightarrow> bool" where
  "queues_ok c = (hash_wf (pendingHandshakes c) \<and>
     (\<forall>name q. hash_find (pendingHandshakes c) name = Some q \<longrightarrow> q \<noteq> [] \<and> (\<forall>call \<in> set q. aobject call = name)))"

definition drivers :: "'v async_client \<Rightarrow> qstring \<Rightarrow> nat" where
  "drivers c name = (if hash_contains (pendingReadiness c) name then 1 else 0) + count (mset (exchanges c)) name"

definition waiting :: "'v async_client \<Rightarrow> qstring \<Rightarrow> nat" where
  "waiting c name = (if hash_contains (pendingHandshakes c) name then 1 else 0)"

definition async_ok :: "'v async_client \<Rightarrow> bool" where
  "async_ok c = (recs_ok c \<and> queues_ok c \<and> drivers c = waiting c)"

lemma drain_effect:
  assumes "queues_ok c" and "recs_ok c" and "c' = drainPendingHandshakes conv name tok reachable c"
  shows "queues_ok c'" "recs_ok c'" "drivers c' = drivers c" "waiting c' = (waiting c)(name := 0)"
  using assms(1,2)
  by (auto simp: assms(3) drain_eq queues_ok_def recs_ok_def drivers_def waiting_def fun_eq_iff hash_contains_def
      split: option.splits if_splits)

text \<open>Closing the latch of the wait an object is registered with.\<close>

definition closeWait :: "nat \<Rightarrow> 'v async_client \<Rightarrow> 'v async_client" where
  "closeWait n c = finishReadiness (robject (recs c ! n)) (set_rec n (\<lambda>r. r\<lparr>rdone := True\<rparr>) c)"

lemma closeWait_effect:
  assumes "recs_ok c" and "n < length (recs c)" and "\<not> rdone (recs c ! n)"
  shows "recs_ok (closeWait n c)" "drivers (closeWait n c) = (drivers c)(robject (recs c ! n) := drivers c (robject (recs c ! n)) - 1)"
    "0 < drivers c (robject (recs c ! n))" "waiting (closeWait n c) = waiting c" "queues_ok (closeWait n c) = queues_ok c"
proof -
  let ?name = "robject (recs c ! n)"
  have reg: "hash_find (pendingReadiness c) ?name = Some n" using assms by (simp add: recs_ok_def)
  have eq: "closeWait n c = c\<lparr>recs := (recs c)[n := (recs c ! n)\<lparr>rdone := True, rtimer := False\<rparr>],
      pendingReadiness := hash_remove ?name (pendingReadiness c)\<rparr>"
    using reg assms(2) by (simp add: closeWait_def finishReadiness_def set_rec_def)
  have old: "k < length (recs c) \<and> robject (recs c ! k) = m \<and> \<not> rdone (recs c ! k) \<and> rtimer (recs c ! k)"
    if "hash_find (pendingReadiness c) m = Some k" for m k
    using assms(1) that unfolding recs_ok_def by blast
  have new: "hash_find (pendingReadiness c) (robject (recs c ! k)) = Some k"
    if "k < length (recs c)" "\<not> rdone (recs c ! k)" for k
    using assms(1) that unfolding recs_ok_def by blast
  have wf: "hash_wf (pendingReadiness c)" using assms(1) by (simp add: recs_ok_def)
  show "recs_ok (closeWait n c)"
    unfolding recs_ok_def
  proof (intro conjI allI impI)
    show "hash_wf (pendingReadiness (closeWait n c))" using wf by (simp add: eq)
  next
    fix m k assume "hash_find (pendingReadiness (closeWait n c)) m = Some k"
    then have "m \<noteq> ?name" "hash_find (pendingReadiness c) m = Some k" by (auto simp: eq split: if_splits)
    with old[of m k] have "k \<noteq> n" by auto
    with old[OF \<open>hash_find (pendingReadiness c) m = Some k\<close>]
    show "k < length (recs (closeWait n c))" "robject (recs (closeWait n c) ! k) = m"
      "\<not> rdone (recs (closeWait n c) ! k)" "rtimer (recs (closeWait n c) ! k)" by (simp_all add: eq)
  next
    fix k assume "k < length (recs (closeWait n c))" "\<not> rdone (recs (closeWait n c) ! k)"
    then have k: "k \<noteq> n" "k < length (recs c)" "\<not> rdone (recs c ! k)"
      using assms(2) by (auto simp: eq nth_list_update split: if_splits)
    with new[of k] reg have "robject (recs c ! k) \<noteq> ?name" by auto
    with k new[of k] show "hash_find (pendingReadiness (closeWait n c)) (robject (recs (closeWait n c) ! k)) = Some k"
      by (simp add: eq)
  qed
  show "drivers (closeWait n c) = (drivers c)(?name := drivers c ?name - 1)"
    using reg by (auto simp: eq drivers_def fun_eq_iff hash_contains_def)
  show "0 < drivers c ?name" using reg by (simp add: drivers_def hash_contains_def)
  show "waiting (closeWait n c) = waiting c" "queues_ok (closeWait n c) = queues_ok c"
    by (simp_all add: eq waiting_def queues_ok_def fun_eq_iff)
qed

lemma async_ok_fields:
  "recs_ok (c\<lparr>alog := a, flying := f, astore := s\<rparr>) = recs_ok c" "queues_ok (c\<lparr>alog := a, flying := f, astore := s\<rparr>) = queues_ok c"
  "recs_ok (alogs os c) = recs_ok c" "queues_ok (alogs os c) = queues_ok c"
  "drivers (alogs os c) = drivers c" "waiting (alogs os c) = waiting c"
  "recs_ok (c\<lparr>astore := s\<rparr>) = recs_ok c" "queues_ok (c\<lparr>astore := s\<rparr>) = queues_ok c"
  "drivers (c\<lparr>astore := s\<rparr>) = drivers c" "waiting (c\<lparr>astore := s\<rparr>) = waiting c"
  "recs_ok (c\<lparr>flying := f\<rparr>) = recs_ok c" "queues_ok (c\<lparr>flying := f\<rparr>) = queues_ok c"
  "drivers (c\<lparr>flying := f\<rparr>) = drivers c" "waiting (c\<lparr>flying := f\<rparr>) = waiting c"
  "recs_ok (c\<lparr>exchanges := x\<rparr>) = recs_ok c" "queues_ok (c\<lparr>exchanges := x\<rparr>) = queues_ok c"
  "waiting (c\<lparr>exchanges := x\<rparr>) = waiting c"
  by (simp_all add: recs_ok_def queues_ok_def drivers_def waiting_def fun_eq_iff)

lemma drivers_exchange: "drivers (c\<lparr>exchanges := exchanges c @ [name]\<rparr>) = (drivers c)(name := drivers c name + 1)"
  by (auto simp: drivers_def fun_eq_iff)

lemma readyFires_eq:
  "readyFires conv n ready c =
     (if rdone (recs c ! n) then c
      else if \<not> alive c then set_rec n (\<lambda>r. r\<lparr>rdone := True\<rparr>) c
      else if ready then startCapabilityHandshake (robject (recs c ! n)) (rtimeout (recs c ! n)) (closeWait n c)
      else drainPendingHandshakes conv (robject (recs c ! n)) [] False (closeWait n c))"
  by (simp add: readyFires_def closeWait_def Let_def)

lemma closeWait_alogs: "closeWait n (alogs os c) = alogs os (closeWait n c)"
  by (simp add: closeWait_def finishReadiness_def set_rec_def alogs_def split: option.splits)

lemma deadlineFires_eq:
  "deadlineFires conv n c =
     (if rdone (recs c ! n) then c
      else if \<not> alive c then set_rec n (\<lambda>r. r\<lparr>rdone := True\<rparr>) c
      else drainPendingHandshakes conv (robject (recs c ! n)) [] False
             (alogs [CancelAsk (rid (recs c ! n))] (closeWait n c)))"
  by (simp add: deadlineFires_def closeWait_alogs[symmetric] Let_def)
     (simp add: closeWait_def finishReadiness_def set_rec_def alogs_commute Let_def split: option.splits)

lemma async_ok_answered:
  assumes "async_ok c" and "n < length (recs c)" and "\<not> rdone (recs c ! n)"
    and "c' = drainPendingHandshakes conv (robject (recs c ! n)) tok False (alogs os (closeWait n c))"
  shows "async_ok c'"
proof -
  let ?name = "robject (recs c ! n)"
  have ok: "recs_ok c" "queues_ok c" "drivers c = waiting c" using assms(1) by (simp_all add: async_ok_def)
  note cl = closeWait_effect[OF ok(1) assms(2,3)]
  have one: "drivers c ?name = 1" using cl(3) ok(3) by (simp add: waiting_def split: if_splits)
  have q: "queues_ok (alogs os (closeWait n c))" and r: "recs_ok (alogs os (closeWait n c))"
    using cl ok by (simp_all add: async_ok_fields)
  from drain_effect[OF q r assms(4)] show ?thesis
    using cl one ok(3) by (auto simp: async_ok_def async_ok_fields fun_eq_iff)
qed

lemma async_ok_ready:
  assumes "async_ok c" and "n < length (recs c)" and "alive c"
  shows "async_ok (readyFires conv n ready c)"
proof (cases "rdone (recs c ! n)")
  case False
  have ok: "recs_ok c" "queues_ok c" "drivers c = waiting c" using assms(1) by (simp_all add: async_ok_def)
  note cl = closeWait_effect[OF ok(1) assms(2) False]
  show ?thesis
  proof (cases ready)
    case True
    let ?d = "closeWait n c"
    have "async_ok (?d\<lparr>exchanges := exchanges ?d @ [robject (recs c ! n)]\<rparr>)"
      using cl ok unfolding async_ok_def by (auto simp: async_ok_fields drivers_exchange fun_eq_iff)
    with True False assms(3) show ?thesis
      by (simp add: readyFires_eq startCapabilityHandshake_def async_ok_def async_ok_fields)
  next
    case nready: False
    have "async_ok (drainPendingHandshakes conv (robject (recs c ! n)) [] False (closeWait n c))"
      by (rule async_ok_answered[OF assms(1,2) False, of _ _ _ "[]"]) (simp add: alogs_def)
    with nready False assms(3) show ?thesis by (simp add: readyFires_eq)
  qed
qed (use assms(1) in \<open>simp add: readyFires_eq\<close>)

lemma async_ok_deadline:
  assumes "async_ok c" and "n < length (recs c)" and "alive c"
  shows "async_ok (deadlineFires conv n c)"
  using assms async_ok_answered[OF assms(1,2)] by (simp add: deadlineFires_eq)

text \<open>A wait begun for an object that has none: the three ways in which the consumer can answer.\<close>

definition addRec :: "readiness \<Rightarrow> 'v async_client \<Rightarrow> 'v async_client" where
  "addRec r c = alogs [AskAvailable (robject r) (length (recs c))] (c\<lparr>recs := recs c @ [r]\<rparr>)"

definition closedRec :: "qstring \<Rightarrow> int \<Rightarrow> readiness" where
  "closedRec name t = \<lparr>rid = 0, rtimer = False, rdone = True, robject = name, rtimeout = t\<rparr>"

lemma begin_eq:
  assumes "hash_find (pendingReadiness c) name = None" and "alive c"
  shows "beginReadinessGatedHandshake conv av name t c = (case av of
       FiresNow True \<Rightarrow> startCapabilityHandshake name t (addRec (closedRec name t) c)
     | FiresNow False \<Rightarrow> drainPendingHandshakes conv name [] False (addRec (closedRec name t) c)
     | Waits i \<Rightarrow>
         if i = 0 then drainPendingHandshakes conv name [] False (addRec (closedRec name t) c)
         else alogs [StartDeadline (length (recs c)) (max 1 t)]
                ((addRec \<lparr>rid = i, rtimer = True, rdone = False, robject = name, rtimeout = t\<rparr> c)
                   \<lparr>pendingReadiness := hash_insert name (length (recs c)) (pendingReadiness c)\<rparr>))"
  using assms
  by (auto simp: beginReadinessGatedHandshake_def readyFires_def finishReadiness_def set_rec_def alogs_commute addRec_def
      closedRec_def hash_remove_insert Let_def split: availability.splits bool.splits)

lemma addRec_frame [simp]:
  "queues_ok (addRec r c) = queues_ok c" "drivers (addRec r c) = drivers c" "waiting (addRec r c) = waiting c"
  by (simp_all add: queues_ok_def addRec_def drivers_def waiting_def fun_eq_iff)

lemma addRec_closed: "recs_ok c \<Longrightarrow> recs_ok (addRec (closedRec name t) c)"
  by (auto simp: recs_ok_def addRec_def closedRec_def nth_append less_Suc_eq split: if_splits dest: spec)

lemma addRec_waiting:
  assumes "recs_ok c" and "hash_find (pendingReadiness c) name = None"
    and c'_def: "c' = (addRec \<lparr>rid = i, rtimer = True, rdone = False, robject = name, rtimeout = t\<rparr> c)
      \<lparr>pendingReadiness := hash_insert name (length (recs c)) (pendingReadiness c)\<rparr>"
  shows "recs_ok c'" "queues_ok c' = queues_ok c" "waiting c' = waiting c"
    "drivers c' = (drivers c)(name := drivers c name + 1)"
proof -
  have old: "k < length (recs c) \<and> robject (recs c ! k) = m \<and> \<not> rdone (recs c ! k) \<and> rtimer (recs c ! k)"
    if "hash_find (pendingReadiness c) m = Some k" for m k
    using assms(1) that unfolding recs_ok_def by blast
  have new: "hash_find (pendingReadiness c) (robject (recs c ! k)) = Some k"
    if "k < length (recs c)" "\<not> rdone (recs c ! k)" for k
    using assms(1) that unfolding recs_ok_def by blast
  show "recs_ok c'"
    unfolding recs_ok_def
  proof (intro conjI allI impI)
    show "hash_wf (pendingReadiness c')" using assms(1) by (simp add: c'_def recs_ok_def)
  next
    fix m k assume "hash_find (pendingReadiness c') m = Some k"
    then have "m = name \<and> k = length (recs c) \<or> hash_find (pendingReadiness c) m = Some k"
      by (auto simp: c'_def split: if_splits)
    then show "k < length (recs c')" "robject (recs c' ! k) = m" "\<not> rdone (recs c' ! k)" "rtimer (recs c' ! k)"
      using old[of m k] by (auto simp: c'_def addRec_def nth_append)
  next
    fix k assume k: "k < length (recs c')" "\<not> rdone (recs c' ! k)"
    show "hash_find (pendingReadiness c') (robject (recs c' ! k)) = Some k"
    proof (cases "k = length (recs c)")
      case False
      with k have "hash_find (pendingReadiness c) (robject (recs c ! k)) = Some k"
        by (intro new) (auto simp: c'_def addRec_def nth_append)
      with False k assms(2) show ?thesis by (auto simp: c'_def addRec_def nth_append)
    qed (simp add: c'_def addRec_def)
  qed
  show "queues_ok c' = queues_ok c" "waiting c' = waiting c" "drivers c' = (drivers c)(name := drivers c name + 1)"
    using assms(2) by (auto simp: c'_def addRec_def queues_ok_def waiting_def drivers_def fun_eq_iff hash_contains_def)
qed

lemma async_ok_begin:
  assumes "recs_ok c" "queues_ok c" "alive c" and "drivers c = (waiting c)(name := 0)" and "waiting c name = 1"
  shows "async_ok (beginReadinessGatedHandshake conv av name t c)"
proof -
  have none: "hash_find (pendingReadiness c) name = None"
    using assms(4) by (auto simp: drivers_def fun_eq_iff hash_contains_def dest: spec[of _ name] split: if_splits)
  let ?d = "addRec (closedRec name t) c"
  note d = addRec_closed[OF assms(1), of name t]
  have drained: "async_ok (drainPendingHandshakes conv name [] False ?d)"
  proof -
    have "queues_ok ?d" using d assms by simp
    from drain_effect[OF this d(1) refl, of conv name "[]" False] show ?thesis
      using d assms unfolding async_ok_def by (simp add: fun_eq_iff)
  qed
  show ?thesis
  proof (cases av)
    case (FiresNow ready)
    have "async_ok (startCapabilityHandshake name t ?d)"
      using d assms drivers_exchange[of ?d name]
      by (auto simp: startCapabilityHandshake_def async_ok_def async_ok_fields fun_eq_iff)
    with drained FiresNow show ?thesis by (simp add: begin_eq[OF none assms(3)] split: bool.split)
  next
    case (Waits i)
    note w = addRec_waiting[OF assms(1) none refl, of i t]
    have "async_ok ((addRec \<lparr>rid = i, rtimer = True, rdone = False, robject = name, rtimeout = t\<rparr> c)
                   \<lparr>pendingReadiness := hash_insert name (length (recs c)) (pendingReadiness c)\<rparr>)"
      using w assms unfolding async_ok_def by (auto simp: fun_eq_iff)
    with drained Waits show ?thesis
      by (simp add: begin_eq[OF none assms(3)] async_ok_def async_ok_fields)
  qed
qed

lemma queue_joined:
  assumes "queues_ok c" and "aobject call = name"
    and c': "c' = c\<lparr>pendingHandshakes := hash_insert name (hash_value (pendingHandshakes c) name [] @ [call]) (pendingHandshakes c)\<rparr>"
  shows "queues_ok c'" "waiting c' = (waiting c)(name := 1)" "drivers c' = drivers c" "recs_ok c' = recs_ok c"
    "1 < length (hash_value (pendingHandshakes c) name [] @ [call]) \<longleftrightarrow> waiting c name = 1"
  using assms(1,2)
  by (cases "hash_find (pendingHandshakes c) name";
      auto simp: c' queues_ok_def waiting_def drivers_def recs_ok_def fun_eq_iff hash_value_def hash_contains_def)+

lemma async_ok_invoke:
  assumes "async_ok c" and "alive c"
  shows "async_ok (invokeRemoteMethodAsyncImpl conv av call c)"
proof (cases "getToken (astore c) (aobject call) = [] \<and> asyncEligible (aobject call) c")
  case False
  with assms show ?thesis
    by (auto simp: invokeRemoteMethodAsyncImpl_def Let_def dispatchCall_def async_ok_def async_ok_fields)
next
  case True
  have ok: "recs_ok c" "queues_ok c" "drivers c = waiting c" using assms(1) by (simp_all add: async_ok_def)
  let ?name = "aobject call"
  define c' where "c' = c\<lparr>pendingHandshakes := hash_insert ?name (hash_value (pendingHandshakes c) ?name [] @ [call]) (pendingHandshakes c)\<rparr>"
  note j = queue_joined[OF ok(2) refl c'_def]
  show ?thesis
  proof (cases "waiting c ?name = 1")
    case w: True
    then have "async_ok c'" using j ok by (auto simp: async_ok_def fun_eq_iff)
    with True j(5) w show ?thesis by (simp add: invokeRemoteMethodAsyncImpl_def Let_def c'_def)
  next
    case w: False
    then have "waiting c ?name = 0" by (simp add: waiting_def split: if_splits)
    then have "async_ok (beginReadinessGatedHandshake conv av ?name (atimeout call) c')"
      using j ok assms(2) by (intro async_ok_begin) (auto simp: c'_def fun_eq_iff)
    with True j(5) w show ?thesis by (simp add: invokeRemoteMethodAsyncImpl_def Let_def c'_def)
  qed
qed

lemma invoke_alive [simp]: "alive (invokeRemoteMethodAsyncImpl conv av call c) = alive c"
  by (auto simp: invokeRemoteMethodAsyncImpl_def Let_def dispatchCall_def beginReadinessGatedHandshake_def readyFires_def
      finishReadiness_def startCapabilityHandshake_def drain_eq split: availability.splits option.splits)

lemma async_ok_exchange:
  assumes "async_ok c" and "alive c" and "k < length (exchanges c)"
  shows "async_ok (exchangeReturns conv k v c)"
proof -
  let ?name = "exchanges c ! k"
  have ok: "recs_ok c" "queues_ok c" "drivers c = waiting c" using assms(1) by (simp_all add: async_ok_def)
  define d where "d = (let c1 = c\<lparr>exchanges := take k (exchanges c) @ drop (Suc k) (exchanges c)\<rparr>; tok = variant_toString conv v
    in if tok = [] then c1 else c1\<lparr>astore := fst (saveToken ?name tok (astore c1))\<rparr>)"
  have "mset (exchanges c) = add_mset ?name (mset (take k (exchanges c) @ drop (Suc k) (exchanges c)))"
    using id_take_nth_drop[OF assms(3)] by (metis mset_append mset.simps(2) union_mset_add_mset_right)
  then have dr: "drivers c = (drivers d)(?name := drivers d ?name + 1)"
    by (auto simp: d_def drivers_def fun_eq_iff Let_def)
  have "recs_ok d" "queues_ok d" "waiting d = waiting c" using ok by (simp_all add: d_def Let_def async_ok_fields)
  note dd = drain_effect[OF this(2) this(1) refl, of conv ?name "variant_toString conv v" True]
  have at: "drivers c ?name = drivers d ?name + 1" using dr by (metis fun_upd_same)
  have el: "drivers c x = drivers d x" if "x \<noteq> ?name" for x using dr that by (metis fun_upd_other)
  have "drivers d ?name = 0" using at ok(3) by (simp add: waiting_def split: if_splits)
  then have "drivers d = (waiting c)(?name := 0)" using el ok(3) by (auto simp: fun_eq_iff)
  then have "async_ok (drainPendingHandshakes conv ?name (variant_toString conv v) True d)"
    using dd \<open>waiting d = waiting c\<close> by (simp add: async_ok_def)
  with assms(2) show ?thesis by (simp add: exchangeReturns_def d_def Let_def)
qed

lemma async_ok_alive [simp]:
  "async_ok (c\<lparr>alive := b\<rparr>) = async_ok c" "async_ok (c\<lparr>astore := s\<rparr>) = async_ok c"
  by (simp_all add: async_ok_def recs_ok_def queues_ok_def drivers_def waiting_def fun_eq_iff)

lemma async_ok_step:
  assumes "async_ok c" and "alive c"
  shows "async_ok (async_step conv ev c)"
proof (cases ev)
  case (AInvoke av name m args cb t)
  with assms async_ok_invoke show ?thesis by (cases cb) (simp_all add: invokeRemoteMethodAsync_def)
next
  case (AResult av k r e)
  let ?c = "c\<lparr>flying := take k (flying c) @ drop (Suc k) (flying c)\<rparr>"
  have ok: "async_ok (alogs os ?c)" "async_ok (?c\<lparr>astore := s\<rparr>)" for os s
    using assms(1) by (simp_all add: async_ok_def async_ok_fields)
  have "async_ok (invokeRemoteMethodAsyncImpl conv av call (?c\<lparr>astore := s\<rparr>))" for call s
    using ok(2) assms(2) by (intro async_ok_invoke) simp_all
  with ok(1) show ?thesis
    using AResult assms by (simp add: resultReturns_def onResult_def finishCall_def)
qed (use assms in \<open>simp_all add: async_ok_ready async_ok_deadline async_ok_exchange\<close>)

subsection \<open>Accounting\<close>

text \<open>
  What the queues, the calls in flight and the log weigh, for a weight of a queued call, of
  a call in flight and of a log entry. The locale says when no operation makes the total
  heavier than what enters; it serves the count of answers, where the weights are exact, and
  the count of dispatches, where they are bounds.
\<close>

definition queue_weight :: "('v acall \<Rightarrow> nat multiset) \<Rightarrow> (qstring \<times> 'v acall list) multiset \<Rightarrow> nat multiset" where
  "queue_weight fq Q = (\<Sum>(n, q)\<in>#Q. \<Sum>call\<in>#mset q. fq call)"

definition total_weight ::
  "('v acall \<Rightarrow> nat multiset) \<Rightarrow> ('v acall \<Rightarrow> nat multiset) \<Rightarrow> ('v async_output \<Rightarrow> nat multiset) \<Rightarrow>
   'v async_client \<Rightarrow> nat multiset" where
  "total_weight fq ff fl c = queue_weight fq (mset (pendingHandshakes c)) +
     (\<Sum>call\<in>#mset (flying c). ff call) + (\<Sum>x\<in>#mset (alog c). fl x)"

lemma total_weight_cong:
  assumes "pendingHandshakes c' = pendingHandshakes c" "flying c' = flying c" "alog c' = alog c"
  shows "total_weight fq ff fl c' = total_weight fq ff fl c"
  using assms by (simp add: total_weight_def)

lemma closeWait_frame [simp]:
  "pendingHandshakes (closeWait n c) = pendingHandshakes c" "flying (closeWait n c) = flying c"
  "alog (closeWait n c) = alog c" "alive (closeWait n c) = alive c"
  by (simp_all add: closeWait_def finishReadiness_def split: option.splits)

text \<open>The calls submitted before the client is destroyed.\<close>

fun submitted :: "'v async_event list \<Rightarrow> nat multiset" where
  "submitted [] = {#}"
| "submitted (ev # evs) = (case ev of
       ADestroy \<Rightarrow> {#}
     | AInvoke av name m args cb t \<Rightarrow> (case cb of None \<Rightarrow> submitted evs | Some k \<Rightarrow> add_mset k (submitted evs))
     | _ \<Rightarrow> submitted evs)"

lemma dead_step:
  assumes "\<not> alive c"
  shows "\<not> alive (async_step conv ev c) \<and> total_weight fq ff fl (async_step conv ev c) \<subseteq># total_weight fq ff fl c"
proof (cases ev)
  case (AResult av k r e)
  have "total_weight fq ff fl (c\<lparr>flying := take k (flying c) @ drop (Suc k) (flying c)\<rparr>) \<subseteq># total_weight fq ff fl c"
    if "k < length (flying c)"
  proof -
    have "mset (flying c) = add_mset (flying c ! k) (mset (take k (flying c) @ drop (Suc k) (flying c)))"
      using id_take_nth_drop[OF that] by (metis mset_append mset.simps(2) union_mset_add_mset_right)
    then show ?thesis by (simp add: total_weight_def subset_mset.add_mono)
  qed
  with AResult assms show ?thesis by (simp add: resultReturns_def onResult_def)
qed (use assms in \<open>auto simp: readyFires_eq deadlineFires_eq exchangeReturns_def Let_def total_weight_def\<close>)

lemma dead_run:
  assumes "\<not> alive c"
  shows "\<not> alive (run_async conv evs c) \<and> total_weight fq ff fl (run_async conv evs c) \<subseteq># total_weight fq ff fl c"
  using assms
proof (induction evs arbitrary: c)
  case (Cons ev evs)
  from dead_step[OF Cons.prems, of conv ev fq ff fl] Cons.IH[of "async_step conv ev c"] show ?case
    by (auto simp: run_async_def intro: subset_mset.order_trans)
qed (simp add: run_async_def)

lemma drain_alive [simp]: "alive (drainPendingHandshakes conv name tok reachable c) = alive c"
  by (simp add: drain_eq split: option.splits)

lemma alive_step:
  assumes "alive c" and "ev \<noteq> ADestroy"
  shows "alive (async_step conv ev c)"
  using assms
  by (cases ev) (auto simp: invokeRemoteMethodAsync_def readyFires_eq deadlineFires_eq exchangeReturns_def
      resultReturns_def onResult_def finishCall_def startCapabilityHandshake_def Let_def split: option.splits)

lemma async_ok_new: "async_ok (newAsyncClient ts cap orig)"
  by (simp add: async_ok_def recs_ok_def queues_ok_def newAsyncClient_def drivers_def waiting_def fun_eq_iff)

lemma async_ok_run: "async_ok c \<Longrightarrow> alive c \<Longrightarrow> alive (run_async conv evs c) \<Longrightarrow> async_ok (run_async conv evs c)"
proof (induction evs arbitrary: c)
  case (Cons ev evs)
  have "alive (async_step conv ev c)"
    using Cons.prems(3) dead_run[of "async_step conv ev c" conv evs "\<lambda>_. {#}" "\<lambda>_. {#}" "\<lambda>_. {#}"]
    by (auto simp: run_async_def)
  with Cons show ?case by (simp add: run_async_def async_ok_step)
qed (simp add: run_async_def)

locale call_accounting =
  fixes le :: "nat multiset \<Rightarrow> nat multiset \<Rightarrow> bool"
    and fq ff :: "'v acall \<Rightarrow> nat multiset" and fl :: "'v async_output \<Rightarrow> nat multiset"
    and fresh :: "nat \<Rightarrow> nat multiset"
  assumes le_refl: "le A A"
    and le_subset: "le A B \<Longrightarrow> A \<subseteq># B"
    and enters: "retriesLeft call = 1 \<Longrightarrow> fq call = fresh (caller call)"
    and le_trans: "le A B \<Longrightarrow> le B C \<Longrightarrow> le A C"
    and le_add: "le A B \<Longrightarrow> le (A + C) (B + C)"
    and dispatched: "le (ff call + fl (Dispatch tok call)) (fq call)"
    and unreachable: "le (fl (AnswerCaller (caller call) r e)) (fq call)"
    and finished: "le (fl (AnswerCaller (caller call) r e)) (ff call)"
    and retried: "0 < retriesLeft call \<Longrightarrow> le (fq (call\<lparr>retriesLeft := retriesLeft call - 1\<rparr>)) (ff call)"
    and silent: "fl (AskAvailable n k) = {#}" "fl (StartDeadline k t) = {#}" "fl (CancelAsk i) = {#}"
      "fl (Exchange auth orig n t) = {#}"
begin

lemma le_plus: "le A B \<Longrightarrow> le C D \<Longrightarrow> le (A + C) (B + D)"
  using le_add[of A B C] le_add[of C D B] le_trans by (metis add.commute)

lemma le_sum: "(\<And>x. le (f x) (g x)) \<Longrightarrow> le (\<Sum>x\<in>#mset xs. f x) (\<Sum>x\<in>#mset xs. g x)"
  by (induction xs) (auto intro: le_refl le_plus)

lemma weight_alogs: "total_weight fq ff fl (alogs os c) = total_weight fq ff fl c + (\<Sum>x\<in>#mset os. fl x)"
  by (simp add: total_weight_def)

lemma weight_drain:
  assumes "queues_ok c"
  shows "le (total_weight fq ff fl (drainPendingHandshakes conv name tok reachable c)) (total_weight fq ff fl c)"
proof (cases "hash_find (pendingHandshakes c) name")
  case None
  then show ?thesis by (simp add: drain_eq le_refl)
next
  case (Some q)
  let ?rest = "queue_weight fq (mset (hash_remove name (pendingHandshakes c))) +
     (\<Sum>call\<in>#mset (flying c). ff call) + (\<Sum>x\<in>#mset (alog c). fl x)"
  have "hash_wf (pendingHandshakes c)" using assms by (simp add: queues_ok_def)
  from mset_hash_remove[OF this Some]
  have c: "total_weight fq ff fl c = (\<Sum>call\<in>#mset q. fq call) + ?rest"
    by (simp add: total_weight_def queue_weight_def ac_simps)
  have d: "total_weight fq ff fl (drainPendingHandshakes conv name tok reachable c) =
      (if reachable then \<Sum>call\<in>#mset q. ff call + fl (Dispatch tok call)
       else \<Sum>call\<in>#mset q. fl (AnswerCaller (caller call) QInvalid (unavailableError (aobject call)))) + ?rest"
    by (simp add: drain_eq Some total_weight_def queue_weight_def resumeOutput_def sum_mset.distrib
        image_mset.compositionality comp_def ac_simps)
  show ?thesis unfolding c d
    by (intro le_add) (auto intro!: le_sum dispatched unreachable)
qed

lemma weight_begin:
  assumes "queues_ok c" "alive c" and "hash_find (pendingReadiness c) name = None"
  shows "le (total_weight fq ff fl (beginReadinessGatedHandshake conv av name t c)) (total_weight fq ff fl c)"
proof -
  have added: "total_weight fq ff fl (addRec r c) = total_weight fq ff fl c" for r
    by (simp add: addRec_def total_weight_def silent)
  have waited: "total_weight fq ff fl ((addRec r c)\<lparr>pendingReadiness := p\<rparr>) = total_weight fq ff fl c" for r p
    unfolding added[of r, symmetric] by (rule total_weight_cong) simp_all
  have started: "total_weight fq ff fl (startCapabilityHandshake name t (addRec r c)) = total_weight fq ff fl c" for r
    unfolding added[of r, symmetric] by (simp add: startCapabilityHandshake_def total_weight_def silent)
  have drained: "le (total_weight fq ff fl (drainPendingHandshakes conv name [] False (addRec r c))) (total_weight fq ff fl c)" for r
    using weight_drain[of "addRec r c" conv name "[]" False] assms(1) by (simp add: added)
  show ?thesis
    unfolding begin_eq[OF assms(3,2)]
    by (cases av) (auto simp: started waited weight_alogs silent le_refl drained split: bool.split)
qed

lemma weight_invoke:
  assumes "async_ok c" and "alive c"
  shows "le (total_weight fq ff fl (invokeRemoteMethodAsyncImpl conv av call c)) (total_weight fq ff fl c + fq call)"
proof (cases "getToken (astore c) (aobject call) = [] \<and> asyncEligible (aobject call) c")
  case False
  let ?tok = "getToken (astore c) (aobject call)"
  have "total_weight fq ff fl (dispatchCall ?tok call c) = (ff call + fl (Dispatch ?tok call)) + total_weight fq ff fl c"
    by (simp add: dispatchCall_def total_weight_def ac_simps)
  with le_add[OF dispatched[of call ?tok], of "total_weight fq ff fl c"] False show ?thesis
    by (auto simp: invokeRemoteMethodAsyncImpl_def Let_def ac_simps)
next
  case True
  have ok: "recs_ok c" "queues_ok c" "drivers c = waiting c" using assms(1) by (simp_all add: async_ok_def)
  let ?name = "aobject call"
  define c' where "c' = c\<lparr>pendingHandshakes := hash_insert ?name (hash_value (pendingHandshakes c) ?name [] @ [call]) (pendingHandshakes c)\<rparr>"
  note j = queue_joined[OF ok(2) refl c'_def]
  have wf: "hash_wf (pendingHandshakes c)" using ok(2) by (simp add: queues_ok_def)
  have w: "total_weight fq ff fl c' = total_weight fq ff fl c + fq call"
  proof (cases "hash_find (pendingHandshakes c) ?name")
    case None
    with wf show ?thesis
      by (simp add: c'_def total_weight_def queue_weight_def mset_hash_insert hash_remove_missing hash_value_def ac_simps)
  next
    case (Some q)
    with wf mset_hash_remove[OF wf Some] show ?thesis
      by (simp add: c'_def total_weight_def queue_weight_def mset_hash_insert hash_value_def ac_simps)
  qed
  have "le (total_weight fq ff fl (beginReadinessGatedHandshake conv av ?name (atimeout call) c')) (total_weight fq ff fl c')"
    if "waiting c ?name \<noteq> 1"
  proof (rule weight_begin)
    have "drivers c ?name = 0" using that ok(3) by (simp add: waiting_def split: if_splits)
    then show "hash_find (pendingReadiness c') ?name = None"
      by (auto simp: c'_def drivers_def hash_contains_def split: if_splits)
  qed (use j ok assms(2) in \<open>simp_all add: c'_def\<close>)
  with True j(5) w le_refl show ?thesis
    by (auto simp: invokeRemoteMethodAsyncImpl_def Let_def c'_def[symmetric])
qed

lemma weight_answered:
  assumes "async_ok c" and "n < length (recs c)" and "\<not> rdone (recs c ! n)" and "(\<Sum>x\<in>#mset os. fl x) = {#}"
  shows "le (total_weight fq ff fl (drainPendingHandshakes conv name tok reachable (alogs os (closeWait n c))))
    (total_weight fq ff fl c)"
proof -
  have ok: "recs_ok c" "queues_ok c" using assms(1) by (simp_all add: async_ok_def)
  have "queues_ok (alogs os (closeWait n c))"
    using closeWait_effect(5)[OF ok(1) assms(2,3)] ok(2) by (simp add: async_ok_fields)
  moreover have "total_weight fq ff fl (alogs os (closeWait n c)) = total_weight fq ff fl c"
    unfolding weight_alogs assms(4) using total_weight_cong[of "closeWait n c" c] by simp
  ultimately show ?thesis using weight_drain[of "alogs os (closeWait n c)"] by metis
qed

lemma weight_ready:
  assumes "async_ok c" and "alive c" and "n < length (recs c)"
  shows "le (total_weight fq ff fl (readyFires conv n ready c)) (total_weight fq ff fl c)"
proof (cases "rdone (recs c ! n)")
  case False
  have "le (total_weight fq ff fl (drainPendingHandshakes conv (robject (recs c ! n)) [] False (closeWait n c)))
    (total_weight fq ff fl c)"
    using weight_answered[OF assms(1,3) False, of "[]"] by simp
  moreover have "total_weight fq ff fl (startCapabilityHandshake name t (closeWait n c)) = total_weight fq ff fl c" for name t
    using total_weight_cong[of "closeWait n c" c]
    by (simp add: startCapabilityHandshake_def weight_alogs silent total_weight_cong[of "_\<lparr>exchanges := _\<rparr>"])
  ultimately show ?thesis using False assms(2) by (simp add: readyFires_eq le_refl)
qed (simp add: readyFires_eq le_refl)

lemma weight_deadline:
  assumes "async_ok c" and "alive c" and "n < length (recs c)"
  shows "le (total_weight fq ff fl (deadlineFires conv n c)) (total_weight fq ff fl c)"
  using assms weight_answered[OF assms(1,3), of "[CancelAsk (rid (recs c ! n))]"]
  by (simp add: deadlineFires_eq le_refl silent)

lemma weight_exchange:
  assumes "async_ok c" and "alive c"
  shows "le (total_weight fq ff fl (exchangeReturns conv k v c)) (total_weight fq ff fl c)"
proof -
  define d where "d = (let c1 = c\<lparr>exchanges := take k (exchanges c) @ drop (Suc k) (exchanges c)\<rparr>; tok = variant_toString conv v
    in if tok = [] then c1 else c1\<lparr>astore := fst (saveToken (exchanges c ! k) tok (astore c1))\<rparr>)"
  have "queues_ok d" using assms(1) by (simp add: d_def Let_def async_ok_def async_ok_fields)
  from weight_drain[OF this, of conv "exchanges c ! k" "variant_toString conv v" True]
  have "le (total_weight fq ff fl (exchangeReturns conv k v c)) (total_weight fq ff fl d)"
    using assms(2) by (simp add: exchangeReturns_def d_def Let_def)
  moreover have "total_weight fq ff fl d = total_weight fq ff fl c"
    by (rule total_weight_cong) (simp_all add: d_def Let_def)
  ultimately show ?thesis by simp
qed

lemma weight_result:
  assumes "async_ok c" and "alive c" and "k < length (flying c)"
  shows "le (total_weight fq ff fl (resultReturns conv av k r e c)) (total_weight fq ff fl c)"
proof -
  let ?call = "flying c ! k"
  let ?d = "c\<lparr>flying := take k (flying c) @ drop (Suc k) (flying c)\<rparr>"
  have "mset (flying c) = add_mset ?call (mset (take k (flying c) @ drop (Suc k) (flying c)))"
    using id_take_nth_drop[OF assms(3)] by (metis mset_append mset.simps(2) union_mset_add_mset_right)
  then have w: "total_weight fq ff fl c = ff ?call + total_weight fq ff fl ?d"
    by (simp add: total_weight_def ac_simps)
  show ?thesis
  proof (cases "0 < retriesLeft ?call \<and> asyncEligible (aobject ?call) ?d \<and> isUnauthorizedSentinel conv r")
    case True
    let ?retry = "?call\<lparr>retriesLeft := retriesLeft ?call - 1\<rparr>"
    let ?e = "?d\<lparr>astore := fst (snd (removeToken (aobject ?call) (astore ?d)))\<rparr>"
    have "async_ok ?e" using assms(1) by (simp add: async_ok_def async_ok_fields)
    from weight_invoke[OF this, of conv av ?retry] assms(2)
    have "le (total_weight fq ff fl (resultReturns conv av k r e c)) (total_weight fq ff fl ?e + fq ?retry)"
      using True assms(2) by (simp add: resultReturns_def onResult_def)
    moreover have "total_weight fq ff fl ?e + fq ?retry = fq ?retry + total_weight fq ff fl ?d"
      using total_weight_cong[of ?e ?d fq ff fl] by simp
    ultimately have "le (total_weight fq ff fl (resultReturns conv av k r e c)) (fq ?retry + total_weight fq ff fl ?d)"
      by (simp only:)
    moreover have "le (fq ?retry + total_weight fq ff fl ?d) (ff ?call + total_weight fq ff fl ?d)"
      using True by (intro le_add retried) simp
    ultimately show ?thesis unfolding w by (rule le_trans)
  next
    case False
    have ans: "le (fl (AnswerCaller (caller ?call) r' e') + total_weight fq ff fl ?d) (ff ?call + total_weight fq ff fl ?d)" for r' e'
      by (intro le_add finished)
    have "total_weight fq ff fl (alogs [AnswerCaller (caller ?call) r' e'] ?d) =
        fl (AnswerCaller (caller ?call) r' e') + total_weight fq ff fl ?d" for r' e'
      unfolding weight_alogs by (simp add: add.commute)
    moreover have "resultReturns conv av k r e c = finishCall conv ?call r e ?d"
      unfolding resultReturns_def onResult_def using False assms(2) by auto
    ultimately show ?thesis unfolding w finishCall_def using ans by simp
  qed
qed

lemma weight_step:
  assumes "async_ok c" and "alive c"
    and "case ev of AInvoke av name m args cb t \<Rightarrow> cb = None | _ \<Rightarrow> True"
  shows "le (total_weight fq ff fl (async_step conv ev c)) (total_weight fq ff fl c)"
proof (cases ev)
  case (AInvoke av name m args cb t)
  with assms(3) have "cb = None" by simp
  with AInvoke show ?thesis by (simp add: invokeRemoteMethodAsync_def le_refl)
next
  case (AStore f)
  then show ?thesis using total_weight_cong[of "async_step conv ev c" c] by (simp add: le_refl)
next
  case ADestroy
  then show ?thesis using total_weight_cong[of "async_step conv ev c" c] by (simp add: le_refl)
qed (use assms(1,2) in \<open>simp_all add: weight_ready weight_deadline weight_exchange weight_result le_refl\<close>)

lemma weight_run:
  assumes "async_ok c" and "alive c"
  shows "total_weight fq ff fl (run_async conv evs c) \<subseteq># total_weight fq ff fl c + (\<Sum>k\<in>#submitted evs. fresh k)"
    and "alive (run_async conv evs c) \<Longrightarrow>
      le (total_weight fq ff fl (run_async conv evs c)) (total_weight fq ff fl c + (\<Sum>k\<in>#submitted evs. fresh k))"
  using assms
proof (induction evs arbitrary: c)
  case Nil
  { case 1 then show ?case by (simp add: run_async_def) }
  { case 2 then show ?case by (simp add: run_async_def le_refl) }
next
  case (Cons ev evs)
  have step: "le (total_weight fq ff fl (async_step conv ev c) + (\<Sum>k\<in>#submitted evs. fresh k))
      (total_weight fq ff fl c + (\<Sum>k\<in>#submitted (ev # evs). fresh k))"
    if "async_ok c" "alive c" "ev \<noteq> ADestroy" for c
  proof (cases "\<exists>av name m args k t. ev = AInvoke av name m args (Some k) t")
    case True
    then obtain av name m args k t where ev: "ev = AInvoke av name m args (Some k) t" by blast
    let ?call = "\<lparr>caller = k, aobject = name, amethod = m, aargs = args, atimeout = t, retriesLeft = 1\<rparr>"
    have "le (total_weight fq ff fl (async_step conv ev c)) (total_weight fq ff fl c + fresh k)"
      using weight_invoke[OF that(1,2), of conv av ?call] enters[of ?call] that(2)
      by (simp add: ev invokeRemoteMethodAsync_def)
    from le_add[OF this, of "\<Sum>k\<in>#submitted evs. fresh k"] show ?thesis by (simp add: ev ac_simps)
  next
    case False
    then have "case ev of AInvoke av name m args cb t \<Rightarrow> cb = None | _ \<Rightarrow> True" by (auto split: async_event.split)
    moreover have "submitted (ev # evs) = submitted evs"
      using False that(3) by (cases ev) (auto split: option.splits)
    ultimately show ?thesis using le_add[OF weight_step[OF that(1,2)]] by simp
  qed
  { case 1
    show ?case
    proof (cases "ev = ADestroy")
      case True
      then have "total_weight fq ff fl (async_step conv ev c) = total_weight fq ff fl c"
        by (intro total_weight_cong) simp_all
      with dead_run[of "async_step conv ev c" conv evs fq ff fl] True show ?thesis by (simp add: run_async_def)
    next
      case False
      have "async_ok (async_step conv ev c)" "alive (async_step conv ev c)"
        using 1 False by (simp_all add: async_ok_step alive_step)
      from Cons.IH(1)[OF this] le_subset[OF step[OF 1 False]] show ?thesis
        by (auto simp: run_async_def intro: subset_mset.order_trans)
    qed }
  { case 2
    have live: "alive (async_step conv ev c)"
      using 2(1) dead_run[of "async_step conv ev c" conv evs fq ff fl] by (auto simp: run_async_def)
    then have nd: "ev \<noteq> ADestroy" by auto
    have "le (total_weight fq ff fl (run_async conv evs (async_step conv ev c)))
        (total_weight fq ff fl (async_step conv ev c) + (\<Sum>k\<in>#submitted evs. fresh k))"
      using 2 live by (intro Cons.IH(2)) (simp_all add: run_async_def async_ok_step)
    from le_trans[OF this step[OF 2(2,3) nd]] show ?case by (simp add: run_async_def) }
qed

end

subsection \<open>Every call is answered once\<close>

fun answer_of :: "'v async_output \<Rightarrow> nat multiset" where
  "answer_of (AnswerCaller k r e) = {#k#}"
| "answer_of _ = {#}"

fun dispatch_of :: "'v async_output \<Rightarrow> nat multiset" where
  "dispatch_of (Dispatch tok call) = {#caller call#}"
| "dispatch_of _ = {#}"

definition answered_calls :: "'v async_client \<Rightarrow> nat multiset" where
  "answered_calls c = (\<Sum>x\<in>#mset (alog c). answer_of x)"

definition dispatched_calls :: "'v async_client \<Rightarrow> nat multiset" where
  "dispatched_calls c = (\<Sum>x\<in>#mset (alog c). dispatch_of x)"

definition queued_calls :: "'v async_client \<Rightarrow> nat multiset" where
  "queued_calls c = queue_weight (\<lambda>call. {#caller call#}) (mset (pendingHandshakes c))"

definition flying_calls :: "'v async_client \<Rightarrow> nat multiset" where
  "flying_calls c = image_mset caller (mset (flying c))"

interpretation answers: call_accounting "(=)" "\<lambda>call. {#caller call#}" "\<lambda>call. {#caller call#}" answer_of "\<lambda>k. {#k#}"
  by unfold_locales simp_all

interpretation tickets: call_accounting "(\<subseteq>#)" "\<lambda>call. replicate_mset (1 + retriesLeft call) (caller call)"
  "\<lambda>call. replicate_mset (retriesLeft call) (caller call)" dispatch_of "\<lambda>k. {#k, k#}"
proof unfold_locales
  fix call :: "'a acall"
  show "retriesLeft call = 1 \<Longrightarrow> replicate_mset (1 + retriesLeft call) (caller call) = {#caller call, caller call#}"
    by (simp add: numeral_2_eq_2)
  show "0 < retriesLeft call \<Longrightarrow> replicate_mset (1 + retriesLeft (call\<lparr>retriesLeft := retriesLeft call - 1\<rparr>))
      (caller (call\<lparr>retriesLeft := retriesLeft call - 1\<rparr>)) \<subseteq># replicate_mset (retriesLeft call) (caller call)"
    by simp
qed (auto intro: subset_mset.order_trans subset_mset.add_mono)

lemma sum_single: "(\<Sum>x\<in>#M. {#f x#}) = image_mset f M"
  by (induction M) auto

lemma answers_total:
  "total_weight (\<lambda>call. {#caller call#}) (\<lambda>call. {#caller call#}) answer_of c =
     queued_calls c + flying_calls c + answered_calls c"
  by (simp add: total_weight_def queued_calls_def flying_calls_def answered_calls_def sum_single)

lemma new_empty [simp]:
  "total_weight fq ff fl (newAsyncClient ts cap orig) = {#}" "alive (newAsyncClient ts cap orig)"
  by (simp_all add: total_weight_def queue_weight_def newAsyncClient_def)

lemma open_wait_driven:
  assumes "async_ok c" and "hash_contains (pendingHandshakes c) name"
  shows "(\<exists>n < length (recs c). robject (recs c ! n) = name \<and> \<not> rdone (recs c ! n) \<and> rtimer (recs c ! n)) \<noteq>
    (name \<in> set (exchanges c))"
proof -
  have one: "drivers c name = 1" using assms by (simp add: async_ok_def waiting_def)
  have waits: "(\<exists>n < length (recs c). robject (recs c ! n) = name \<and> \<not> rdone (recs c ! n) \<and> rtimer (recs c ! n)) \<longleftrightarrow>
      hash_contains (pendingReadiness c) name"
    using assms(1) unfolding async_ok_def recs_ok_def hash_contains_def by (metis not_None_eq)
  show ?thesis unfolding waits
  proof (cases "name \<in> set (exchanges c)")
    case True
    then have "count (mset (exchanges c)) name \<noteq> 0" by simp
    with one True show "hash_contains (pendingReadiness c) name \<noteq> (name \<in> set (exchanges c))"
      by (simp add: drivers_def split: if_splits)
  next
    case False
    then have "count (mset (exchanges c)) name = 0" by simp
    with one False show "hash_contains (pendingReadiness c) name \<noteq> (name \<in> set (exchanges c))"
      by (simp add: drivers_def split: if_splits)
  qed
qed

lemma call_accounts:
  fixes conv :: "'v qvariant \<Rightarrow> qstring" and ts cap orig name and evs :: "'v async_event list"
  defines "c \<equiv> run_async conv evs (newAsyncClient ts cap orig)"
  shows "answered_calls c \<subseteq># submitted evs"
    and "alive c \<longrightarrow> submitted evs = queued_calls c + flying_calls c + answered_calls c"
    and "alive c \<and> hash_contains (pendingHandshakes c) name \<longrightarrow>
      (\<exists>n < length (recs c). robject (recs c ! n) = name \<and> \<not> rdone (recs c ! n) \<and> rtimer (recs c ! n)) \<noteq>
      (name \<in> set (exchanges c))"
    and "alive c \<and> flying c = [] \<and> exchanges c = [] \<and> (\<forall>r \<in> set (recs c). rdone r) \<longrightarrow>
      answered_calls c = submitted evs"
proof -
  have le: "queued_calls c + flying_calls c + answered_calls c \<subseteq># submitted evs"
    and acc: "alive c \<longrightarrow> queued_calls c + flying_calls c + answered_calls c = submitted evs"
    using answers.weight_run[OF async_ok_new, of ts cap orig conv evs]
    by (simp_all only: c_def answers_total[symmetric] new_empty sum_single) simp_all
  have "answered_calls c \<subseteq># queued_calls c + flying_calls c + answered_calls c" by simp
  then show "answered_calls c \<subseteq># submitted evs" using le by (rule subset_mset.order_trans)
  show "alive c \<longrightarrow> submitted evs = queued_calls c + flying_calls c + answered_calls c" using acc by simp
  have ok: "alive c \<Longrightarrow> async_ok c" unfolding c_def by (rule async_ok_run) (simp_all add: async_ok_new)
  then show "alive c \<and> hash_contains (pendingHandshakes c) name \<longrightarrow>
      (\<exists>n < length (recs c). robject (recs c ! n) = name \<and> \<not> rdone (recs c ! n) \<and> rtimer (recs c ! n)) \<noteq>
      (name \<in> set (exchanges c))"
    using open_wait_driven by blast
  show "alive c \<and> flying c = [] \<and> exchanges c = [] \<and> (\<forall>r \<in> set (recs c). rdone r) \<longrightarrow>
      answered_calls c = submitted evs"
  proof
    assume q: "alive c \<and> flying c = [] \<and> exchanges c = [] \<and> (\<forall>r \<in> set (recs c). rdone r)"
    then have "\<not> hash_contains (pendingHandshakes c) m" for m
      using open_wait_driven[OF ok, of m] by auto
    then have "pendingHandshakes c = []"
      by (metis hash_contains_def list.exhaust map_of.simps(2) fun_upd_same option.distinct(1))
    with acc q show "answered_calls c = submitted evs"
      by (simp add: queued_calls_def flying_calls_def queue_weight_def)
  qed
qed

text \<open>
  C5: Asynchronous calls are answered once. However submissions, readiness reports, deadlines,
  exchanges, results and other users of the token store follow each other, no caller is
  answered more often than it submitted; while the client lives, each call submitted is
  queued, in flight or answered; a queue has exactly one thing that will drain it, a wait with
  a running deadline or an exchange in flight; and when neither is left and no call is in
  flight, every call submitted has been answered.
\<close>

theorem async_calls_answered_once:
  fixes conv :: "'v qvariant \<Rightarrow> qstring" and ts cap orig name and evs :: "'v async_event list"
  defines "c \<equiv> run_async conv evs (newAsyncClient ts cap orig)"
  shows "(answered_calls c \<subseteq># submitted evs) \<and>
    (alive c \<longrightarrow> submitted evs = queued_calls c + flying_calls c + answered_calls c) \<and>
    (alive c \<and> hash_contains (pendingHandshakes c) name \<longrightarrow>
        (\<exists>n < length (recs c). robject (recs c ! n) = name \<and> \<not> rdone (recs c ! n) \<and> rtimer (recs c ! n)) \<noteq>
        (name \<in> set (exchanges c))) \<and>
    (alive c \<and> flying c = [] \<and> exchanges c = [] \<and> (\<forall>r \<in> set (recs c). rdone r) \<longrightarrow>
        answered_calls c = submitted evs)"
  unfolding c_def by (intro conjI call_accounts)

lemma one_driver:
  fixes conv :: "'v qvariant \<Rightarrow> qstring" and ts cap orig name and evs :: "'v async_event list"
  defines "c \<equiv> run_async conv evs (newAsyncClient ts cap orig)"
  shows "alive c \<longrightarrow> count (mset (exchanges c)) name \<le> 1"
    and "alive c \<and> name \<in> set (exchanges c) \<longrightarrow> (\<forall>r \<in> set (recs c). robject r = name \<longrightarrow> rdone r)"
    and "dispatched_calls c \<subseteq># submitted evs + submitted evs"
proof -
  have ok: "alive c \<Longrightarrow> async_ok c" unfolding c_def by (rule async_ok_run) (simp_all add: async_ok_new)
  then have dr: "alive c \<longrightarrow> drivers c name \<le> 1" by (simp add: async_ok_def waiting_def)
  have "count (mset (exchanges c)) name \<le> drivers c name" by (simp add: drivers_def)
  with dr show "alive c \<longrightarrow> count (mset (exchanges c)) name \<le> 1" by (metis le_trans)
  show "alive c \<and> name \<in> set (exchanges c) \<longrightarrow> (\<forall>r \<in> set (recs c). robject r = name \<longrightarrow> rdone r)"
  proof (intro impI ballI)
    fix r assume a: "alive c \<and> name \<in> set (exchanges c)" "r \<in> set (recs c)" "robject r = name"
    then obtain n where n: "n < length (recs c)" "recs c ! n = r" by (auto simp: in_set_conv_nth)
    have "count (mset (exchanges c)) name \<noteq> 0" using a(1) by simp
    with dr a(1) have "hash_find (pendingReadiness c) name = None"
      by (auto simp: drivers_def hash_contains_def split: if_splits)
    with ok a n show "rdone r" unfolding async_ok_def recs_ok_def by (metis option.distinct(1))
  qed
  have twice: "(\<Sum>k\<in>#M. {#k, k#}) = M + M" for M :: "nat multiset" by (induction M) auto
  have "dispatched_calls c \<subseteq># total_weight (\<lambda>call. replicate_mset (1 + retriesLeft call) (caller call))
      (\<lambda>call. replicate_mset (retriesLeft call) (caller call)) dispatch_of c"
    by (simp add: total_weight_def dispatched_calls_def)
  moreover note tickets.weight_run(1)[OF async_ok_new, of ts cap orig conv evs, folded c_def]
  ultimately show "dispatched_calls c \<subseteq># submitted evs + submitted evs"
    by (simp add: twice)
qed

text \<open>
  C27: One exchange per target. At any moment at most one exchange with the capability module
  is in flight for a target, and none while a wait for the target is open; and no call is
  dispatched more than twice, the first time and for its one retry.
\<close>

theorem exchanges_are_coalesced:
  fixes conv :: "'v qvariant \<Rightarrow> qstring" and ts cap orig name and evs :: "'v async_event list"
  defines "c \<equiv> run_async conv evs (newAsyncClient ts cap orig)"
  shows "(alive c \<longrightarrow> count (mset (exchanges c)) name \<le> 1) \<and>
    (alive c \<and> name \<in> set (exchanges c) \<longrightarrow> (\<forall>r \<in> set (recs c). robject r = name \<longrightarrow> rdone r)) \<and>
    (dispatched_calls c \<subseteq># submitted evs + submitted evs)"
  unfolding c_def by (intro conjI one_driver)

lemma fresh_token_lost:
  assumes "alive c" and "k < length (flying c)" and "flying c ! k = call" and "0 < retriesLeft call"
    and "asyncEligible (aobject call) c" and "isUnauthorizedSentinel conv r"
    and "\<not> isReservedKey (aobject call)" and "getToken (astore c) (aobject call) = fresh" and "fresh \<noteq> []"
  shows "getToken (astore (async_step conv (AResult (Waits i) k r e) c)) (aobject call) = []"
    and "i \<noteq> 0 \<longrightarrow> hash_contains (pendingHandshakes (async_step conv (AResult (Waits i) k r e) c)) (aobject call)"
proof -
  let ?name = "aobject call"
  have gone: "getToken (fst (snd (removeToken ?name (astore c)))) ?name = []"
    using assms(7) by (simp add: removeToken_def getToken_def hash_value_def hash_contains_def)
  show "getToken (astore (async_step conv (AResult (Waits i) k r e) c)) ?name = []"
    using assms gone
    by (auto simp: resultReturns_def onResult_def invokeRemoteMethodAsyncImpl_def asyncEligible_def Let_def
        beginReadinessGatedHandshake_def drain_eq split: option.splits)
  show "i \<noteq> 0 \<longrightarrow> hash_contains (pendingHandshakes (async_step conv (AResult (Waits i) k r e) c)) ?name"
    using assms gone
    by (auto simp: resultReturns_def onResult_def invokeRemoteMethodAsyncImpl_def asyncEligible_def Let_def
        beginReadinessGatedHandshake_def)
qed

text \<open>
  A late rejection throws away a token that is not the rejected one. When a call that was
  made with some old token is rejected while a newer token is cached, the newer one is
  removed from the store and the call asks for another exchange, or joins one already asked
  for; the calls in flight with the newer token lose it.
\<close>

theorem late_rejection_discards_fresh_token:
  assumes "alive c" and "k < length (flying c)" and "flying c ! k = call" and "0 < retriesLeft call"
    and "asyncEligible (aobject call) c" and "isUnauthorizedSentinel conv r"
    and "\<not> isReservedKey (aobject call)" and "getToken (astore c) (aobject call) = fresh" and "fresh \<noteq> []"
  shows "(getToken (astore (async_step conv (AResult (Waits i) k r e) c)) (aobject call) = []) \<and>
    (i \<noteq> 0 \<longrightarrow> hash_contains (pendingHandshakes (async_step conv (AResult (Waits i) k r e) c)) (aobject call))"
  by (intro conjI fresh_token_lost[OF assms])

definition two_calls :: "nat async_event list" where
  "two_calls =
     [AInvoke (Waits 7) ''chat'' ''send'' [] (Some 1) 1000, AInvoke (Waits 8) ''chat'' ''send'' [] (Some 2) 1000,
      AReady 0 True, AExchange 0 (QString ''tok''), AResult (Waits 9) 0 makeUnauthorizedSentinel no_error,
      AResult (Waits 9) 0 (QString ''ok'') no_error, AReady 1 True, AExchange 0 (QString ''tok2''),
      AResult (Waits 9) 0 (QString ''ok'') no_error]"

definition after_two_calls :: "nat \<Rightarrow> nat async_client" where
  "after_two_calls n = run_async (\<lambda>v. []) (take n two_calls) (newAsyncClient newTokenManager True ''ui'')"

lemma two_calls_run:
  "flying (after_two_calls 9) = []" "alive (after_two_calls 9)" "exchanges (after_two_calls 9) = []"
  "list_all rdone (recs (after_two_calls 9))"
  "exchanges (after_two_calls 3) = [''chat'']" "alive (after_two_calls 3)"
  "alive (after_two_calls 4)" "length (flying (after_two_calls 4)) = 2" "aobject (flying (after_two_calls 4) ! 0) = ''chat''"
  "retriesLeft (flying (after_two_calls 4) ! 0) = 1" "asyncEligible ''chat'' (after_two_calls 4)"
  "getToken (astore (after_two_calls 4)) ''chat'' = ''tok''" "\<not> isReservedKey ''chat''"
  by code_simp+

theorem async_calls_answered_once_witness: "answered_calls (after_two_calls 9) = {#1, 2#}"
proof -
  have "answered_calls (after_two_calls 9) = submitted (take 9 two_calls)"
    using async_calls_answered_once[where conv = "\<lambda>v. []" and ts = newTokenManager and cap = True and orig = "''ui''"
        and evs = "take 9 two_calls" and name = "[]", THEN conjunct2, THEN conjunct2, THEN conjunct2] two_calls_run(1-4)
    by (simp add: after_two_calls_def list_all_iff)
  also have "submitted (take 9 two_calls) = {#1, 2#}" by (simp add: two_calls_def)
  finally show ?thesis .
qed

theorem exchanges_are_coalesced_witness:
  "''chat'' \<in> set (exchanges (after_two_calls 3)) \<and> robject (recs (after_two_calls 3) ! 0) = ''chat'' \<and>
   rdone (recs (after_two_calls 3) ! 0)"
proof -
  have r: "0 < length (recs (after_two_calls 3))" "robject (recs (after_two_calls 3) ! 0) = ''chat''"
    by code_simp+
  have "\<forall>r \<in> set (recs (after_two_calls 3)). robject r = ''chat'' \<longrightarrow> rdone r"
    using exchanges_are_coalesced[where conv = "\<lambda>v. []" and ts = newTokenManager and cap = True and orig = "''ui''"
        and evs = "take 3 two_calls" and name = "''chat''", THEN conjunct2, THEN conjunct1] two_calls_run(5,6)
    by (simp add: after_two_calls_def)
  with r two_calls_run(5) show ?thesis by (simp add: nth_mem)
qed

theorem late_rejection_discards_fresh_token_witness:
  "getToken (astore (after_two_calls 4)) ''chat'' = ''tok'' \<and>
   getToken (astore (async_step (\<lambda>v. []) (AResult (Waits 9) 0 makeUnauthorizedSentinel no_error) (after_two_calls 4)))
     ''chat'' = []"
  using late_rejection_discards_fresh_token[of "after_two_calls 4" 0
      "flying (after_two_calls 4) ! 0" "\<lambda>v. []" makeUnauthorizedSentinel "''tok''" 9 no_error]
    two_calls_run(7-13) by simp

end
