(* ===== verification/Lidl_Codec.thy ===== *)
theory Lidl_Codec
  imports Tagged_Bytes Qt_Values
begin

text \<open>
  The typed half of \<open>cpp/logos_codec.h\<close>: the family of templates \<open>Codec<T>\<close> that encodes a
  value of a declared type as JSON and decodes it back, refusing what the type cannot hold.

  A C++ type is a \<open>ltype\<close>, a value of it a \<open>lval\<close> of that type (\<open>has_type\<close>): the compiler
  sees to it that \<open>codecTo\<close> is only used at such values. An integer type is a signedness and
  a width; its values are integers. Both associative containers are lists in key order, in
  which the encoding puts them. Doubles are the type parameter \<open>'d\<close>: how a double relates to
  the integers (\<open>kind\<close>, what \<open>std::modf\<close> tells), and the double of an integer (\<open>to_double\<close>), are parameters.
\<close>

subsection \<open>Types and values\<close>

datatype ltype =
  TBytes | TBool | TString | TAny | TInt bool nat | TDouble | TList ltype | TMap ltype | TOptional ltype

datatype 'd lval =
  VBytes bytes | VBool bool | VString qstring | VAny "'d json" | VInt int | VDouble 'd
| VList "'d lval list" | VMap "(qstring \<times> 'd lval) list" | VOptional "'d lval option"

definition int_min :: "bool \<Rightarrow> nat \<Rightarrow> int" where
  "int_min sg w = (if sg then - (2 ^ (w - 1)) else 0)"

definition int_max :: "bool \<Rightarrow> nat \<Rightarrow> int" where
  "int_max sg w = (if sg then 2 ^ (w - 1) - 1 else 2 ^ w - 1)"

primrec has_type :: "ltype \<Rightarrow> 'd lval \<Rightarrow> bool" where
  "has_type TBytes = (\<lambda>v. case v of VBytes b \<Rightarrow> True | _ \<Rightarrow> False)"
| "has_type TBool = (\<lambda>v. case v of VBool b \<Rightarrow> True | _ \<Rightarrow> False)"
| "has_type TString = (\<lambda>v. case v of VString s \<Rightarrow> True | _ \<Rightarrow> False)"
| "has_type TAny = (\<lambda>v. case v of VAny j \<Rightarrow> True | _ \<Rightarrow> False)"
| "has_type (TInt sg w) = (\<lambda>v. case v of VInt n \<Rightarrow> int_min sg w \<le> n \<and> n \<le> int_max sg w | _ \<Rightarrow> False)"
| "has_type TDouble = (\<lambda>v. case v of VDouble d \<Rightarrow> True | _ \<Rightarrow> False)"
| "has_type (TList t) = (\<lambda>v. case v of VList vs \<Rightarrow> list_all (has_type t) vs | _ \<Rightarrow> False)"
| "has_type (TMap t) = (\<lambda>v. case v of VMap es \<Rightarrow> sorted_keys es \<and> list_all (has_type t) (map snd es) | _ \<Rightarrow> False)"
| "has_type (TOptional t) =
     (\<lambda>v. case v of VOptional p \<Rightarrow> (case p of None \<Rightarrow> True | Some x \<Rightarrow> has_type t x) | _ \<Rightarrow> False)"

text \<open>The integer types of the program: 8, 16, 32 or 64 bits.\<close>

primrec wf_type :: "ltype \<Rightarrow> bool" where
  "wf_type TBytes = True"
| "wf_type TBool = True"
| "wf_type TString = True"
| "wf_type TAny = True"
| "wf_type (TInt sg w) = (0 < w \<and> w \<le> 64)"
| "wf_type TDouble = True"
| "wf_type (TList t) = wf_type t"
| "wf_type (TMap t) = wf_type t"
| "wf_type (TOptional t) = wf_type t"

subsection \<open>Encoding\<close>

primrec codecTo :: "ltype \<Rightarrow> 'd lval \<Rightarrow> 'd json" where
  "codecTo TBytes = (\<lambda>v. case v of VBytes b \<Rightarrow> bytesToJson b | _ \<Rightarrow> Null)"
| "codecTo TBool = (\<lambda>v. case v of VBool b \<Rightarrow> Boolean b | _ \<Rightarrow> Null)"
| "codecTo TString = (\<lambda>v. case v of VString s \<Rightarrow> Str s | _ \<Rightarrow> Null)"
| "codecTo TAny = (\<lambda>v. case v of VAny j \<Rightarrow> j | _ \<Rightarrow> Null)"
| "codecTo (TInt sg w) = (\<lambda>v. case v of
      VInt n \<Rightarrow> if sg then Integer (word_of_int n) else Unsigned (word_of_int n) | _ \<Rightarrow> Null)"
| "codecTo TDouble = (\<lambda>v. case v of VDouble d \<Rightarrow> Float d | _ \<Rightarrow> Null)"
| "codecTo (TList t) = (\<lambda>v. case v of VList vs \<Rightarrow> Array (map (codecTo t) vs) | _ \<Rightarrow> Null)"
| "codecTo (TMap t) = (\<lambda>v. case v of VMap es \<Rightarrow> Object (put_all (map (map_prod id (codecTo t)) es)) | _ \<Rightarrow> Null)"
| "codecTo (TOptional t) =
     (\<lambda>v. case v of VOptional p \<Rightarrow> (case p of None \<Rightarrow> Null | Some x \<Rightarrow> codecTo t x) | _ \<Rightarrow> Null)"

subsection \<open>Decoding\<close>

definition joinPath :: "qstring \<Rightarrow> qstring \<Rightarrow> qstring" where
  "joinPath path step = (if path = [] then step else path @ step)"

definition intFromDouble ::
  "('d \<Rightarrow> double_kind) \<Rightarrow> bool \<Rightarrow> nat \<Rightarrow> 'd \<Rightarrow> qstring \<Rightarrow> codec_error + 'd lval" where
  "intFromDouble kind sg w d path =
     (case kind d of
        Fractional \<Rightarrow> Inl (typeError path ''integer'' (Float d))
      | PosInf \<Rightarrow> Inl (typeError path (if sg then ''signed integer in range'' else ''unsigned integer in range'') (Float d))
      | NegInf \<Rightarrow> Inl (typeError path (if sg then ''signed integer in range'' else ''unsigned integer in range'') (Float d))
      | Whole n \<Rightarrow>
          if \<not> sg \<and> (n < 0 \<or> 2 ^ 64 \<le> n) then Inl (typeError path ''unsigned integer in range'' (Float d))
          else if sg \<and> (n < - (2 ^ 63) \<or> 2 ^ 63 \<le> n) then Inl (typeError path ''signed integer in range'' (Float d))
          else if n < int_min sg w \<or> int_max sg w < n then Inl (typeError path ''integer in range'' (Float d))
          else Inr (VInt n))"

definition intFrom ::
  "('d \<Rightarrow> double_kind) \<Rightarrow> bool \<Rightarrow> nat \<Rightarrow> 'd json \<Rightarrow> qstring \<Rightarrow> codec_error + 'd lval" where
  "intFrom kind sg w j path =
     (case j of
        Float d \<Rightarrow> intFromDouble kind sg w d path
      | Integer i \<Rightarrow>
          if \<not> sg
          then if sint i < 0 then Inl (typeError path ''unsigned integer'' j)
               else if int_max sg w < uint i then Inl (typeError path ''unsigned integer in range'' j)
               else Inr (VInt (uint i))
          else if sint i < int_min sg w \<or> int_max sg w < sint i
          then Inl (typeError path ''signed integer in range'' j)
          else Inr (VInt (sint i))
      | Unsigned u \<Rightarrow>
          if int_max sg w < uint u
          then Inl (typeError path (if sg then ''signed integer in range'' else ''unsigned integer in range'') j)
          else Inr (VInt (uint u))
      | _ \<Rightarrow> Inl (typeError path ''integer'' j))"

definition doubleFrom :: "(int \<Rightarrow> 'd) \<Rightarrow> 'd json \<Rightarrow> qstring \<Rightarrow> codec_error + 'd lval" where
  "doubleFrom to_double j path =
     (case j of
        Float d \<Rightarrow> Inr (VDouble d)
      | Integer i \<Rightarrow> Inr (VDouble (to_double (sint i)))
      | Unsigned u \<Rightarrow> Inr (VDouble (to_double (uint u)))
      | _ \<Rightarrow> Inl (typeError path ''number'' j))"

definition indexStep :: "nat \<Rightarrow> qstring" where
  "indexStep i = ''['' @ nat_digits i @ '']''"

primrec codecFrom ::
  "('d json \<Rightarrow> qstring) \<Rightarrow> ('d \<Rightarrow> double_kind) \<Rightarrow> (int \<Rightarrow> 'd) \<Rightarrow> ltype \<Rightarrow> 'd json \<Rightarrow> qstring \<Rightarrow>
   codec_error + 'd lval" where
  "codecFrom dump kind to_double TBytes =
     (\<lambda>j path. and_then (bytesFromJsonLenient dump j path) (\<lambda>b. Inr (VBytes b)))"
| "codecFrom dump kind to_double TBool =
     (\<lambda>j path. case j of Boolean b \<Rightarrow> Inr (VBool b) | _ \<Rightarrow> Inl (typeError path ''bool'' j))"
| "codecFrom dump kind to_double TString =
     (\<lambda>j path. case j of Str s \<Rightarrow> Inr (VString s) | _ \<Rightarrow> Inl (typeError path ''string'' j))"
| "codecFrom dump kind to_double TAny = (\<lambda>j path. Inr (VAny j))"
| "codecFrom dump kind to_double (TInt sg w) = (\<lambda>j path. intFrom kind sg w j path)"
| "codecFrom dump kind to_double TDouble = (\<lambda>j path. doubleFrom to_double j path)"
| "codecFrom dump kind to_double (TList t) =
     (\<lambda>j path. case j of
        Array js \<Rightarrow> and_then (collect (map (\<lambda>(i, e). codecFrom dump kind to_double t e (joinPath path (indexStep i)))
                                    (enumerate 0 js))) (\<lambda>vs. Inr (VList vs))
      | _ \<Rightarrow> Inl (typeError path ''array'' j))"
| "codecFrom dump kind to_double (TMap t) =
     (\<lambda>j path. case j of
        Object fs \<Rightarrow> and_then (collect_fields (map (\<lambda>(k, e). (k, codecFrom dump kind to_double t e (joinPath path (''.'' @ k)))) fs))
                      (\<lambda>es. Inr (VMap es))
      | _ \<Rightarrow> Inl (typeError path ''object'' j))"
| "codecFrom dump kind to_double (TOptional t) =
     (\<lambda>j path. case j of
        Null \<Rightarrow> Inr (VOptional None)
      | _ \<Rightarrow> and_then (codecFrom dump kind to_double t j path) (\<lambda>v. Inr (VOptional (Some v))))"

definition toJson :: "ltype \<Rightarrow> 'd lval \<Rightarrow> 'd json" where
  "toJson t v = codecTo t v"

definition fromJson ::
  "('d json \<Rightarrow> qstring) \<Rightarrow> ('d \<Rightarrow> double_kind) \<Rightarrow> (int \<Rightarrow> 'd) \<Rightarrow> ltype \<Rightarrow> 'd json \<Rightarrow> codec_error + 'd lval" where
  "fromJson dump kind to_double t j = codecFrom dump kind to_double t j []"

definition jsonRequireArray :: "'d json \<Rightarrow> qstring \<Rightarrow> codec_error + 'd json" where
  "jsonRequireArray j path = (case j of Array js \<Rightarrow> Inr j | _ \<Rightarrow> Inl (typeError path ''array'' j))"

definition jsonRequireObject :: "'d json \<Rightarrow> qstring \<Rightarrow> codec_error + 'd json" where
  "jsonRequireObject j path = (case j of Object fs \<Rightarrow> Inr j | _ \<Rightarrow> Inl (typeError path ''object'' j))"

subsection \<open>Integers are exact or refused\<close>

text \<open>The number a JSON value denotes, if it is a whole number.\<close>

fun whole_number :: "('d \<Rightarrow> double_kind) \<Rightarrow> 'd json \<Rightarrow> int option" where
  "whole_number kind (Integer i) = Some (sint i)"
| "whole_number kind (Unsigned u) = Some (uint u)"
| "whole_number kind (Float d) = (case kind d of Whole n \<Rightarrow> Some n | _ \<Rightarrow> None)"
| "whole_number kind _ = None"

lemma uint_eq_sint: "0 \<le> sint (i :: i64) \<Longrightarrow> uint i = sint i"
  using sint_lt[of i] by (simp add: uint_sint take_bit_int_eq_self)

lemma int_bounds:
  assumes "0 < w" "w \<le> 64"
  shows "- (2 ^ 63) \<le> int_min sg w" "int_max True w \<le> 2 ^ 63 - 1" "int_max sg w \<le> 2 ^ 64 - 1" "int_min sg w \<le> 0"
    "0 \<le> int_max sg w"
proof -
  have p: "2 ^ (w - 1) \<le> (2 :: int) ^ 63" "2 ^ w \<le> (2 :: int) ^ 64"
    using assms by (intro power_increasing; simp)+
  then show "- (2 ^ 63) \<le> int_min sg w" "int_max True w \<le> 2 ^ 63 - 1" by (simp_all add: int_min_def int_max_def)
  show "int_max sg w \<le> 2 ^ 64 - 1"
    using p by (cases sg) (simp_all add: int_max_def)
  show "int_min sg w \<le> 0" "0 \<le> int_max sg w" by (simp_all add: int_min_def int_max_def)
qed

lemma intFrom_exact:
  assumes "0 < w" and "w \<le> 64"
  shows "intFrom kind sg w j path = Inr v \<longleftrightarrow>
    (\<exists>n. whole_number kind j = Some n \<and> int_min sg w \<le> n \<and> n \<le> int_max sg w \<and> v = VInt n)"
proof -
  note b = int_bounds[OF assms]
  show ?thesis
  proof (cases j)
    case (Integer i)
    have lt: "uint i < 2 ^ 64" using uint_lt2p[of i] by simp
    show ?thesis
    proof (cases sg)
      case True
      with Integer show ?thesis by (auto simp: intFrom_def)
    next
      case False
      with Integer show ?thesis by (auto simp: intFrom_def uint_eq_sint int_min_def not_less)
    qed
  next
    case (Unsigned u)
    have "int_min sg w \<le> uint u" using b(4)[of sg] uint_ge_0[of u] by linarith
    with Unsigned show ?thesis by (auto simp: intFrom_def)
  next
    case (Float d)
    then show ?thesis
    proof (cases sg)
      case True
      with Float b(1)[of True] b(2) show ?thesis
        by (cases "kind d") (auto simp: intFrom_def intFromDouble_def)
    next
      case False
      with Float b(3)[of False] show ?thesis
        by (cases "kind d") (auto simp: intFrom_def intFromDouble_def int_min_def)
    qed
  qed (simp_all add: intFrom_def)
qed

text \<open>
  C28: An integer is decoded exactly or refused. For every signedness and width, a JSON value is
  decoded as an integer precisely when it denotes a whole number within the range of the
  type, whichever of the three number kinds it is spelled in, and the result is that number:
  no sign is flipped, nothing wraps and nothing is truncated.
\<close>

theorem integers_are_exact_or_refused:
  assumes "0 < w" and "w \<le> 64"
  shows "codecFrom dump kind to_double (TInt sg w) j path = Inr v \<longleftrightarrow>
    (\<exists>n. whole_number kind j = Some n \<and> int_min sg w \<le> n \<and> n \<le> int_max sg w \<and> v = VInt n)"
  using intFrom_exact[OF assms] by simp

subsection \<open>Round trips\<close>

text \<open>
  A value is normal when no optional slot holds a value that is spelled like the empty slot:
  what an optional of an optional, or of any JSON value, can hold and JSON cannot tell apart.
\<close>

primrec normal :: "ltype \<Rightarrow> 'd lval \<Rightarrow> bool" where
  "normal TBytes = (\<lambda>v. True)"
| "normal TBool = (\<lambda>v. True)"
| "normal TString = (\<lambda>v. True)"
| "normal TAny = (\<lambda>v. True)"
| "normal (TInt sg w) = (\<lambda>v. True)"
| "normal TDouble = (\<lambda>v. True)"
| "normal (TList t) = (\<lambda>v. case v of VList vs \<Rightarrow> list_all (normal t) vs | _ \<Rightarrow> True)"
| "normal (TMap t) = (\<lambda>v. case v of VMap es \<Rightarrow> list_all (normal t) (map snd es) | _ \<Rightarrow> True)"
| "normal (TOptional t) =
     (\<lambda>v. case v of VOptional p \<Rightarrow> (case p of None \<Rightarrow> True | Some x \<Rightarrow> codecTo t x \<noteq> Null \<and> normal t x) | _ \<Rightarrow> True)"

lemma bytesToJson_not_Null [simp]: "bytesToJson b \<noteq> Null"
  by (simp add: bytesToJson_def)

lemma codecTo_Null:
  assumes "has_type t v" and "codecTo t v = Null"
  shows "t = TAny \<or> (\<exists>t'. t = TOptional t')"
  using assms by (cases t) (auto simp: bytesToJson_def split: lval.splits if_splits)

lemma int_words:
  assumes "0 < w" "w \<le> 64" "int_min sg w \<le> n" "n \<le> int_max sg w"
  shows "sg \<Longrightarrow> sint (word_of_int n :: i64) = n" "\<not> sg \<Longrightarrow> uint (word_of_int n :: u64) = n"
proof -
  note b = int_bounds[OF assms(1,2)]
  show "sint (word_of_int n :: i64) = n" if sg
  proof -
    have "- (2 ^ 63) \<le> n" "n < 2 ^ 63" using assms(3,4) b(1)[of sg] b(2) that by auto
    then show ?thesis by (simp add: signed_of_int signed_take_bit_int_eq_self)
  qed
  show "uint (word_of_int n :: u64) = n" if "\<not> sg"
    using assms(3,4) b(3)[of False] that by (simp add: int_min_def unsigned_of_int take_bit_int_eq_self)
qed

lemma collect_enumerate_Inr:
  "collect (map (\<lambda>(i, e). h i e) (enumerate n js)) = Inr vs \<longleftrightarrow>
     length vs = length js \<and> (\<forall>i < length js. h (n + i) (js ! i) = Inr (vs ! i))"
  by (auto simp: collect_Inr list_eq_iff_nth_eq nth_enumerate_eq)

lemma collect_fields_map_Inr:
  "collect_fields (map (\<lambda>(k, e). (k, f k e)) fs) = Inr es \<longleftrightarrow>
     length es = length fs \<and> (\<forall>i < length fs. fst (es ! i) = fst (fs ! i) \<and> f (fst (fs ! i)) (snd (fs ! i)) = Inr (snd (es ! i)))"
  by (auto simp: collect_fields_Inr list_eq_iff_nth_eq split_beta prod_eq_iff)

lemma codecFrom_optional:
  "codecFrom dump kind to_double (TOptional t) j path =
     (if j = Null then Inr (VOptional None)
      else and_then (codecFrom dump kind to_double t j path) (\<lambda>v. Inr (VOptional (Some v))))"
  by (cases j) simp_all

lemma normal_round_trip:
  assumes "wf_type t" and "has_type t v"
  shows "codecFrom dump kind to_double t (codecTo t v) path = Inr v \<longleftrightarrow> normal t v"
  using assms
proof (induction t arbitrary: v path)
  case (TInt sg w)
  then show ?case
    by (cases v) (auto simp: intFrom_exact int_words)
next
  case (TList t)
  then obtain vs where v: "v = VList vs" "list_all (has_type t) vs" by (cases v) auto
  with TList show ?case
    by (auto simp: and_then_Inr collect_enumerate_Inr list_all_length)
next
  case (TMap t)
  then obtain es where v: "v = VMap es" "sorted_keys es" "list_all (has_type t) (map snd es)" by (cases v) auto
  then have "put_all (map (map_prod id (codecTo t)) es) = map (map_prod id (codecTo t)) es"
    by (simp add: put_all_sorted)
  with TMap v show ?case
    by (auto simp: and_then_Inr collect_fields_map_Inr list_all_length simp del: map_map)
next
  case (TOptional t)
  then obtain p where v: "v = VOptional p" "case p of None \<Rightarrow> True | Some x \<Rightarrow> has_type t x" by (cases v) auto
  with TOptional.prems TOptional.IH show ?case
    by (cases p) (auto simp: and_then_Inr codecFrom_optional simp del: codecFrom.simps(9))
qed (auto simp: bytesFromJsonLenient_def b64_roundtrip doubleFrom_def split: lval.splits)

text \<open>
  C29: Encoding and decoding a value of a declared type gives it back exactly when the value is
  normal; for every type without an optional of an optional or of any JSON value, that is
  every value, at any depth of nesting.
\<close>

theorem typed_round_trip:
  assumes "wf_type t" and "has_type t v"
  shows "codecFrom dump kind to_double t (codecTo t v) path = Inr v \<longleftrightarrow> normal t v"
  using assms by (rule normal_round_trip)

lemma decoded_not_Null:
  assumes "codecFrom dump kind to_double t j path = Inr v" and "has_type t v" and "j \<noteq> Null"
  shows "codecTo t v \<noteq> Null"
  using assms
proof (induction t arbitrary: v)
  case (TOptional t)
  then show ?case by (cases j) (auto simp: and_then_Inr)
qed (auto dest: codecTo_Null split: lval.splits)

text \<open>
  C38: What a decoder accepts has the declared type. Every value decoded from a well-formed
  document is a value of the type asked for, its integers in range and its maps in key order,
  and a normal one: encoding it and decoding that gives it back.
\<close>

theorem decoded_values_have_their_type:
  assumes "wf_type t" and "wf_json j" and "codecFrom dump kind to_double t j path = Inr v"
  shows "has_type t v \<and> normal t v \<and> codecFrom dump kind to_double t (codecTo t v) path = Inr v"
proof -
  have "has_type t v \<and> normal t v"
    using assms
  proof (induction t arbitrary: j v path)
    case (TInt sg w)
    then show ?case by (auto simp: intFrom_exact)
  next
    case (TList t)
    then obtain js where j: "j = Array js" by (cases j) auto
    with TList.prems obtain vs where v: "v = VList vs" "length vs = length js"
      "\<forall>i < length js. codecFrom dump kind to_double t (js ! i) (joinPath path (indexStep i)) = Inr (vs ! i)"
      by (auto simp: and_then_Inr collect_enumerate_Inr)
    with j TList show ?case by (fastforce simp: list_all_length)
  next
    case (TMap t)
    then obtain fs where j: "j = Object fs" by (cases j) auto
    with TMap.prems obtain es where v: "v = VMap es" "length es = length fs"
      "\<forall>i < length fs. fst (es ! i) = fst (fs ! i) \<and>
        codecFrom dump kind to_double t (snd (fs ! i)) (joinPath path (''.'' @ fst (fs ! i))) = Inr (snd (es ! i))"
      by (auto simp: and_then_Inr collect_fields_map_Inr)
    then have "map fst es = map fst fs" by (simp add: list_eq_iff_nth_eq)
    with j v TMap show ?case by (fastforce simp: list_all_length sorted_keys_def)
  next
    case (TOptional t)
    show ?case
    proof (cases "j = Null")
      case False
      with TOptional.prems obtain x where "v = VOptional (Some x)" "codecFrom dump kind to_double t j path = Inr x"
        by (cases j) (auto simp: and_then_Inr)
      with TOptional False show ?thesis by (auto dest: decoded_not_Null)
    qed (use TOptional.prems in auto)
  qed (auto simp: and_then_Inr doubleFrom_def split: json.splits)
  with normal_round_trip[OF assms(1)] show ?thesis by blast
qed

subsection \<open>Concrete values\<close>

definition bytes_map :: ltype where
  "bytes_map = TMap (TList (TOptional (TInt True 8)))"

definition bytes_map_value :: "nat lval" where
  "bytes_map_value = VMap [(''a'', VList [VOptional (Some (VInt (- 128))), VOptional None]), (''b'', VList [])]"

theorem integers_are_exact_or_refused_witness:
  "codecFrom (\<lambda>j. []) (\<lambda>d. Whole 300) (\<lambda>n. 0 :: nat) (TInt False 8) (Float 0) [] \<noteq> Inr (VInt 44) \<and>
   codecFrom (\<lambda>j. []) (\<lambda>d. Whole 300) (\<lambda>n. 0 :: nat) (TInt False 16) (Float 0) [] = Inr (VInt 300)"
  using integers_are_exact_or_refused[of 8 "\<lambda>j. []" "\<lambda>d :: nat. Whole 300" "\<lambda>n. 0" False "Float 0" "[]" "VInt 44"]
    integers_are_exact_or_refused[of 16 "\<lambda>j. []" "\<lambda>d :: nat. Whole 300" "\<lambda>n. 0" False "Float 0" "[]" "VInt 300"]
  by (simp add: int_min_def int_max_def)

theorem typed_round_trip_witness:
  "codecFrom (\<lambda>j. []) (\<lambda>d. Whole 0) (\<lambda>n. 0) bytes_map (codecTo bytes_map bytes_map_value) [] = Inr bytes_map_value"
  using typed_round_trip[of bytes_map bytes_map_value "\<lambda>j. []" "\<lambda>d. Whole 0" "\<lambda>n. 0" "[]"]
  by (simp add: bytes_map_def bytes_map_value_def sorted_keys_def int_min_def int_max_def)

theorem decoded_values_have_their_type_witness:
  "has_type (TOptional (TList (TInt False 8))) (VOptional (Some (VList [VInt 7, VInt 255])))"
  using decoded_values_have_their_type[of "TOptional (TList (TInt False 8))" "Array [Integer 7, Unsigned 255]"
      "\<lambda>j. []" "\<lambda>d :: nat. Whole 0" "\<lambda>n. 0" "[]" "VOptional (Some (VList [VInt 7, VInt 255]))"]
  by (simp add: intFrom_def int_max_def)

end
