(* ===== verification/Qt_Rpc_Values.thy ===== *)
theory Qt_Rpc_Values
  imports Rpc_Messages Qt_Values
begin

text \<open>
  \<open>cpp/implementations/plain/qvariant_rpc_value.cpp\<close>: the conversions between the values a
  module sees (\<open>QVariant\<close>) and the values the plain wire carries (\<open>RpcValue\<close>), and between
  the two forms of a method list.

  What \<open>std::modf\<close> tells of a double (\<open>kind\<close>), the double of an integer (\<open>of_int_v\<close>) and what
  Qt answers when any other value is asked for its string (\<open>text_of\<close>: \<open>None\<close> when
  \<open>canConvert<QString>\<close> is false) are parameters. \<open>registered\<close> says whether the process has
  registered \<open>LogosResult\<close>. A \<open>QVariantMap\<close> and a \<open>QJsonObject\<close> are kept in the order of their
  keys, which \<open>insert\<close> maintains (\<open>object_put\<close>).
\<close>

subsection \<open>JSON values of Qt\<close>

primrec fromJsonValue :: "('v \<Rightarrow> double_kind) \<Rightarrow> 'v qjson \<Rightarrow> 'v rpc_value" where
  "fromJsonValue kind JNull = VNull"
| "fromJsonValue kind JUndefined = VNull"
| "fromJsonValue kind (JBool b) = VBool b"
| "fromJsonValue kind (JNumber d) =
     (case kind d of
        Whole n \<Rightarrow> if - (2 ^ 63) \<le> n \<and> n < 2 ^ 63 then VInt (word_of_int n) else VDouble d
      | _ \<Rightarrow> VDouble d)"
| "fromJsonValue kind (JString s) = VString s"
| "fromJsonValue kind (JArray js) = VList (map (fromJsonValue kind) js)"
| "fromJsonValue kind (JObject fs) = VMap (map (map_prod id (fromJsonValue kind)) fs)"

text \<open>\<open>QByteArray::toBase64(Base64UrlEncoding)\<close> keeps the padding.\<close>

definition b64_padded :: "bytes \<Rightarrow> qstring" where
  "b64_padded b = (let t = b64UrlEncode b in t @ replicate ((4 - length t mod 4) mod 4) (CHR ''=''))"

primrec toJsonValue :: "(int \<Rightarrow> 'v) \<Rightarrow> 'v rpc_value \<Rightarrow> 'v qjson" where
  "toJsonValue of_int_v VNull = JNull"
| "toJsonValue of_int_v (VBool b) = JBool b"
| "toJsonValue of_int_v (VInt i) = JNumber (of_int_v (sint i))"
| "toJsonValue of_int_v (VUInt u) = JNumber (of_int_v (uint u))"
| "toJsonValue of_int_v (VDouble d) = JNumber d"
| "toJsonValue of_int_v (VString s) = JString s"
| "toJsonValue of_int_v (VBytes b) = JString (b64_padded b)"
| "toJsonValue of_int_v (VList vs) = JArray (map (toJsonValue of_int_v) vs)"
| "toJsonValue of_int_v (VMap es) = JObject (put_all (map (map_prod id (toJsonValue of_int_v)) es))"

subsection \<open>Variants\<close>

text \<open>The default branch: the text of the value, if it has one.\<close>

definition stringified :: "('v qvariant \<Rightarrow> qstring option) \<Rightarrow> 'v qvariant \<Rightarrow> 'v rpc_value" where
  "stringified text_of v = (case text_of v of None \<Rightarrow> VNull | Some s \<Rightarrow> VString s)"

primrec qvariantToRpcValue ::
  "('v \<Rightarrow> double_kind) \<Rightarrow> bool \<Rightarrow> ('v qvariant \<Rightarrow> qstring option) \<Rightarrow> 'v qvariant \<Rightarrow> 'v rpc_value" where
  "qvariantToRpcValue kind registered text_of QInvalid = VNull"
| "qvariantToRpcValue kind registered text_of (QBool b) = VBool b"
| "qvariantToRpcValue kind registered text_of (QSigned k i) = VInt i"
| "qvariantToRpcValue kind registered text_of (QUnsigned k u) = makeInteger u"
| "qvariantToRpcValue kind registered text_of (QReal d) = VDouble d"
| "qvariantToRpcValue kind registered text_of (QString s) = VString s"
| "qvariantToRpcValue kind registered text_of (QBytes b) = VBytes b"
| "qvariantToRpcValue kind registered text_of (QStringList ss) = stringified text_of (QStringList ss)"
| "qvariantToRpcValue kind registered text_of (QVariantList vs) =
     VList (map (qvariantToRpcValue kind registered text_of) vs)"
| "qvariantToRpcValue kind registered text_of (QVariantMap m) =
     VMap (map (map_prod id (qvariantToRpcValue kind registered text_of)) m)"
| "qvariantToRpcValue kind registered text_of (QJsonValue j) = fromJsonValue kind j"
| "qvariantToRpcValue kind registered text_of (QJsonObject fs) = VMap (map (map_prod id (fromJsonValue kind)) fs)"
| "qvariantToRpcValue kind registered text_of (QJsonArray js) = VList (map (fromJsonValue kind) js)"
| "qvariantToRpcValue kind registered text_of (QLogosResult ok v e) =
     (if registered
      then VMap [(''success'', VBool ok), (''value'', qvariantToRpcValue kind registered text_of v),
                 (''error'', qvariantToRpcValue kind registered text_of e)]
      else stringified text_of (QLogosResult ok v e))"
| "qvariantToRpcValue kind registered text_of (QOther x) = stringified text_of (QOther x)"

primrec rpcValueToQVariant :: "'v rpc_value \<Rightarrow> 'v qvariant" where
  "rpcValueToQVariant VNull = QInvalid"
| "rpcValueToQVariant (VBool b) = QBool b"
| "rpcValueToQVariant (VInt i) = QSigned KLongLong i"
| "rpcValueToQVariant (VUInt u) = QUnsigned KULongLong u"
| "rpcValueToQVariant (VDouble d) = QReal d"
| "rpcValueToQVariant (VString s) = QString s"
| "rpcValueToQVariant (VBytes b) = QBytes b"
| "rpcValueToQVariant (VList vs) = QVariantList (map rpcValueToQVariant vs)"
| "rpcValueToQVariant (VMap es) = QVariantMap (put_all (map (map_prod id rpcValueToQVariant) es))"

definition qvariantListToRpcList ::
  "('v \<Rightarrow> double_kind) \<Rightarrow> bool \<Rightarrow> ('v qvariant \<Rightarrow> qstring option) \<Rightarrow> 'v qvariant list \<Rightarrow> 'v rpc_value list" where
  "qvariantListToRpcList kind registered text_of vs = map (qvariantToRpcValue kind registered text_of) vs"

definition rpcListToQVariantList :: "'v rpc_value list \<Rightarrow> 'v qvariant list" where
  "rpcListToQVariantList vs = map rpcValueToQVariant vs"

subsection \<open>Method lists\<close>

definition methodToQJson :: "(int \<Rightarrow> 'v) \<Rightarrow> 'v method_metadata \<Rightarrow> 'v qjson" where
  "methodToQJson of_int_v m = JObject (put_all
     [(''name'', JString (md_name m)), (''signature'', JString (md_signature m)),
      (''returnType'', JString (md_returnType m)), (''isInvokable'', JBool (md_isInvokable m)),
      (''parameters'', JArray (map (toJsonValue of_int_v) (md_parameters m)))])"

definition methodsToJsonArray :: "(int \<Rightarrow> 'v) \<Rightarrow> 'v method_metadata list \<Rightarrow> 'v qjson list" where
  "methodsToJsonArray of_int_v ms = map (methodToQJson of_int_v) ms"

definition methodFromFields :: "('v \<Rightarrow> double_kind) \<Rightarrow> (qstring \<times> 'v qjson) list \<Rightarrow> 'v method_metadata" where
  "methodFromFields kind fs =
     \<lparr>md_name = object_string fs ''name'', md_signature = object_string fs ''signature'',
      md_returnType = object_string fs ''returnType'',
      md_isInvokable = (case hash_find fs ''isInvokable'' of Some (JBool b) \<Rightarrow> b | _ \<Rightarrow> True),
      md_parameters = (case hash_find fs ''parameters'' of Some (JArray ps) \<Rightarrow> map (fromJsonValue kind) ps | _ \<Rightarrow> [])\<rparr>"

definition methodsFromJsonArray :: "('v \<Rightarrow> double_kind) \<Rightarrow> 'v qjson list \<Rightarrow> 'v method_metadata list" where
  "methodsFromJsonArray kind js =
     map (\<lambda>j. methodFromFields kind (json_toObject j)) (filter json_isObject js)"

subsection \<open>Round trips\<close>

text \<open>The values that come back from a variant: no unsigned value that the signed kind could
  hold, and maps in the order in which a \<open>QVariantMap\<close> keeps them.\<close>

primrec qt_canonical :: "'v rpc_value \<Rightarrow> bool" where
  "qt_canonical VNull = True"
| "qt_canonical (VBool b) = True"
| "qt_canonical (VInt i) = True"
| "qt_canonical (VUInt u) = (int64_max < u)"
| "qt_canonical (VDouble d) = True"
| "qt_canonical (VString s) = True"
| "qt_canonical (VBytes bs) = True"
| "qt_canonical (VList vs) = list_all id (map qt_canonical vs)"
| "qt_canonical (VMap es) = (sorted_keys es \<and> list_all snd (map (map_prod id qt_canonical) es))"

lemma canonical_qt: "canonical v \<Longrightarrow> qt_canonical v"
  by (induction v) (auto simp: list_all_iff)

lemma map_fixed: "map f xs = xs \<longleftrightarrow> (\<forall>x \<in> set xs. f x = x)"
  by (induction xs) auto

lemma map_prod_fixed: "map (map_prod id f) es = es \<longleftrightarrow> (\<forall>(k, v) \<in> set es. f v = v)"
  by (induction es) auto

lemma map_values_comp:
  "map (map_prod id f) (map (map_prod id g) es) = map (map_prod id (\<lambda>v. f (g v))) es"
  by (induction es) auto

lemma variant_round_trip:
  "qvariantToRpcValue kind registered text_of (rpcValueToQVariant v) = v \<longleftrightarrow> qt_canonical v"
proof (induction v)
  case (VUInt u)
  then show ?case by (auto simp: makeInteger_def)
next
  case (VList vs)
  then show ?case by (auto simp: list_all_iff map_fixed comp_def)
next
  case (VMap es)
  let ?there = "map (map_prod id rpcValueToQVariant)" and ?hither = "map (map_prod id (qvariantToRpcValue kind registered text_of))"
  show ?case
  proof (cases "sorted_keys es")
    case True
    then have "put_all (?there es) = ?there es" by (simp add: put_all_sorted)
    moreover have "?hither (?there es) = es \<longleftrightarrow> (\<forall>(k, v) \<in> set es. qt_canonical v)"
      unfolding map_values_comp map_prod_fixed using VMap by fastforce
    ultimately show ?thesis using True by (auto simp: list_all_iff)
  next
    case False
    have "sorted_keys (?hither (put_all (?there es)))" by (simp add: sorted_keys_put_all)
    with False have "?hither (put_all (?there es)) \<noteq> es" by metis
    with False show ?thesis by simp
  qed
qed simp_all

text \<open>
  What arrived can be sent on. A value decoded from any well-formed document, handed to a
  module as a \<open>QVariant\<close> and given back by it, is sent as the value it was: the second document
  decodes to the same value. Of the values that do not come from a document exactly those
  survive the variant that are spelled the way decoding would spell them.
\<close>

theorem echoed_value_is_unchanged:
  "(wf_json j \<and> jsonToValue j = Inr w \<longrightarrow>
      jsonToValue (valueToJson (qvariantToRpcValue kind registered text_of (rpcValueToQVariant w))) = Inr w) \<and>
   (qvariantToRpcValue kind registered text_of (rpcValueToQVariant v) = v \<longleftrightarrow> qt_canonical v)"
proof (intro conjI impI)
  assume a: "wf_json j \<and> jsonToValue j = Inr w"
  then have c: "canonical w" by (blast intro: decoded_canonical)
  then have "qvariantToRpcValue kind registered text_of (rpcValueToQVariant w) = w"
    by (simp add: variant_round_trip canonical_qt)
  then show "jsonToValue (valueToJson (qvariantToRpcValue kind registered text_of (rpcValueToQVariant w))) = Inr w"
    using c by (simp add: value_round_trip_iff)
qed (simp_all add: variant_round_trip)

subsection \<open>What a module sends\<close>

text \<open>
  The variants the conversion has a case for and that are not Qt JSON values; and how they
  arrive: with the value they had, integers as \<open>long long\<close>, or as \<open>unsigned long long\<close> where
  they need it, and a \<open>LogosResult\<close> as the map of its fields.
\<close>

primrec sendable :: "bool \<Rightarrow> 'v qvariant \<Rightarrow> bool" where
  "sendable reg QInvalid = True"
| "sendable reg (QBool b) = True"
| "sendable reg (QSigned k i) = True"
| "sendable reg (QUnsigned k u) = True"
| "sendable reg (QReal d) = True"
| "sendable reg (QString s) = True"
| "sendable reg (QBytes b) = True"
| "sendable reg (QStringList ss) = False"
| "sendable reg (QVariantList vs) = list_all id (map (sendable reg) vs)"
| "sendable reg (QVariantMap m) = (sorted_keys m \<and> list_all snd (map (map_prod id (sendable reg)) m))"
| "sendable reg (QJsonValue j) = False"
| "sendable reg (QJsonObject fs) = False"
| "sendable reg (QJsonArray js) = False"
| "sendable reg (QLogosResult ok v e) = (reg \<and> sendable reg v \<and> sendable reg e)"
| "sendable reg (QOther x) = False"

primrec arrives :: "'v qvariant \<Rightarrow> 'v qvariant" where
  "arrives QInvalid = QInvalid"
| "arrives (QBool b) = QBool b"
| "arrives (QSigned k i) = QSigned KLongLong i"
| "arrives (QUnsigned k u) = (if uint u < 2 ^ 63 then QSigned KLongLong u else QUnsigned KULongLong u)"
| "arrives (QReal d) = QReal d"
| "arrives (QString s) = QString s"
| "arrives (QBytes b) = QBytes b"
| "arrives (QStringList ss) = QStringList ss"
| "arrives (QVariantList vs) = QVariantList (map arrives vs)"
| "arrives (QVariantMap m) = QVariantMap (map (map_prod id arrives) m)"
| "arrives (QJsonValue j) = QJsonValue j"
| "arrives (QJsonObject fs) = QJsonObject fs"
| "arrives (QJsonArray js) = QJsonArray js"
| "arrives (QLogosResult ok v e) =
     QVariantMap [(''error'', arrives e), (''success'', QBool ok), (''value'', arrives v)]"
| "arrives (QOther x) = QOther x"

lemma int64_max_uint: "u \<le> int64_max \<longleftrightarrow> uint u < 2 ^ 63"
  by (auto simp: int64_max_def word_le_def)

lemma sendable_arrives:
  "sendable registered x \<Longrightarrow> rpcValueToQVariant (qvariantToRpcValue kind registered text_of x) = arrives x"
proof (induction x)
  case (QUnsigned k u)
  then show ?case by (simp add: makeInteger_def int64_max_uint)
  next
  case (QVariantMap m)
  have "put_all (map (map_prod id rpcValueToQVariant) (map (map_prod id (qvariantToRpcValue kind registered text_of)) m)) =
      map (map_prod id (\<lambda>v. rpcValueToQVariant (qvariantToRpcValue kind registered text_of v))) m"
    unfolding map_values_comp by (rule put_all_sorted) (use QVariantMap.prems in simp)
  with QVariantMap show ?case by (fastforce simp: list_all_iff simp del: map_map)
  next
  case (QLogosResult ok v e)
  then show ?case by (cases registered) (simp_all add: put_all_def)
qed (auto simp: list_all_iff)

lemma sentinel_arrives:
  "isUnauthorizedSentinel conv (rpcValueToQVariant (qvariantToRpcValue kind registered text_of makeUnauthorizedSentinel))"
  by (simp add: makeUnauthorizedSentinel_def put_all_def)


subsection \<open>Method lists\<close>

text \<open>Parameter descriptors that a \<open>QJsonValue\<close> holds exactly.\<close>

primrec json_exact :: "('v \<Rightarrow> double_kind) \<Rightarrow> (int \<Rightarrow> 'v) \<Rightarrow> 'v rpc_value \<Rightarrow> bool" where
  "json_exact kind of_int_v VNull = True"
| "json_exact kind of_int_v (VBool b) = True"
| "json_exact kind of_int_v (VInt i) = (kind (of_int_v (sint i)) = Whole (sint i))"
| "json_exact kind of_int_v (VUInt u) = False"
| "json_exact kind of_int_v (VDouble d) = (\<forall>n. kind d = Whole n \<longrightarrow> n < - (2 ^ 63) \<or> 2 ^ 63 \<le> n)"
| "json_exact kind of_int_v (VString s) = True"
| "json_exact kind of_int_v (VBytes b) = False"
| "json_exact kind of_int_v (VList vs) = list_all id (map (json_exact kind of_int_v) vs)"
| "json_exact kind of_int_v (VMap es) = (sorted_keys es \<and> list_all snd (map (map_prod id (json_exact kind of_int_v)) es))"

lemma json_value_round_trip:
  "json_exact kind of_int_v v \<Longrightarrow> fromJsonValue kind (toJsonValue of_int_v v) = v"
proof (induction v)
  case (VInt i)
  have "- (2 ^ 63) \<le> sint i" "sint i < 2 ^ 63" using sint_lt[of i] sint_ge[of i] by simp_all
  with VInt show ?case by simp
next
  case (VDouble d)
  then show ?case by (auto split: double_kind.splits)
next
  case (VMap es)
  then have "put_all (map (map_prod id (toJsonValue of_int_v)) es) = map (map_prod id (toJsonValue of_int_v)) es"
    by (simp add: put_all_sorted)
  with VMap show ?case by (fastforce simp: list_all_iff map_prod_fixed map_values_comp simp del: map_map)
qed (auto simp: list_all_iff map_fixed)

lemma method_list_round_trip:
  assumes "list_all (\<lambda>m. list_all (json_exact kind of_int_v) (md_parameters m)) ms"
  shows "methodsFromJsonArray kind (methodsToJsonArray of_int_v ms) = ms"
  using assms
  by (induction ms)
    (simp_all add: methodsFromJsonArray_def methodsToJsonArray_def methodToQJson_def methodFromFields_def put_all_def
      object_string_def json_value_round_trip list_all_iff map_fixed)

subsection \<open>Concrete values\<close>

definition sample_document :: "nat json" where
  "sample_document = Object [(''ids'', Array [Unsigned 7, Unsigned 0xffffffffffffffff]), (''raw'', Object [(''_bytes'', Str ''AQI'')])]"

definition sample_value :: "nat rpc_value" where
  "sample_value = VMap [(''ids'', VList [VInt 7, VUInt 0xffffffffffffffff]), (''raw'', VBytes [1, 2])]"

theorem echoed_value_is_unchanged_witness:
  "jsonToValue (valueToJson (qvariantToRpcValue (\<lambda>_. Fractional) True (\<lambda>_. None) (rpcValueToQVariant sample_value)))
     = Inr sample_value"
proof -
  have "wf_json sample_document \<and> jsonToValue sample_document = Inr sample_value"
    by code_simp
  then show ?thesis
    using echoed_value_is_unchanged[of sample_document sample_value "\<lambda>_. Fractional" True "\<lambda>_. None" VNull] by blast
qed

definition sample_result :: "nat qvariant" where
  "sample_result = QLogosResult True (QVariantList [QUnsigned KUShort 9, QUnsigned KULong (2 ^ 63), QBytes [0]]) QInvalid"


end
