(* ===== verification/Qt_Json_Convert.thy ===== *)
theory Qt_Json_Convert
  imports Tagged_Bytes Qt_Values
begin

text \<open>
  \<open>cpp/logos_json_convert.cpp\<close>: the conversions between \<open>QVariant\<close> and the JSON of the C ABI.

  Qt's own conversions are parameters, collected in \<open>qt_json\<close>: what a variant becomes as a
  \<open>QJsonValue\<close> (\<open>fromVariant\<close>), as a \<open>QJsonObject\<close> or \<open>QJsonArray\<close> (\<open>None\<close> when \<open>canConvert\<close> is
  false), and what nlohmann reads from the compact text of a Qt document (\<open>None\<close> when it
  throws). \<open>qt_json_laws\<close> states of them what Qt documents for the plain kinds.
\<close>

record 'v qt_json =
  registered :: bool
  fromVariant :: "'v qvariant \<Rightarrow> 'v qjson"
  asObject :: "'v qvariant \<Rightarrow> (qstring \<times> 'v qjson) list option"
  asArray :: "'v qvariant \<Rightarrow> 'v qjson list option"
  reparse :: "'v qjson \<Rightarrow> 'v json option"

subsection \<open>To JSON\<close>

definition viaQJsonValue :: "'v qt_json \<Rightarrow> 'v qvariant \<Rightarrow> 'v json" where
  "viaQJsonValue E v =
     (case fromVariant E v of
        JString s \<Rightarrow> Str s
      | JBool b \<Rightarrow> Boolean b
      | JNumber d \<Rightarrow> Float d
      | JObject fs \<Rightarrow> (case reparse E (JObject fs) of Some j \<Rightarrow> j | None \<Rightarrow> Null)
      | JArray js \<Rightarrow> (case reparse E (JArray js) of Some j \<Rightarrow> j | None \<Rightarrow> Null)
      | _ \<Rightarrow> Null)"

definition viaQJsonArray :: "'v qt_json \<Rightarrow> 'v qvariant \<Rightarrow> 'v json" where
  "viaQJsonArray E v =
     (case asArray E v of None \<Rightarrow> viaQJsonValue E v
      | Some js \<Rightarrow> (case reparse E (JArray js) of Some j \<Rightarrow> j | None \<Rightarrow> viaQJsonValue E v))"

definition viaQJson :: "'v qt_json \<Rightarrow> 'v qvariant \<Rightarrow> 'v json" where
  "viaQJson E v =
     (case asObject E v of None \<Rightarrow> viaQJsonArray E v
      | Some fs \<Rightarrow> (case reparse E (JObject fs) of Some j \<Rightarrow> j | None \<Rightarrow> viaQJsonArray E v))"

definition errorToJson :: "'v qt_json \<Rightarrow> 'v qvariant \<Rightarrow> 'v json" where
  "errorToJson E e = (case fromVariant E e of JString s \<Rightarrow> Str s | _ \<Rightarrow> Null)"

primrec qvariantToNlohmann :: "'v qt_json \<Rightarrow> 'v qvariant \<Rightarrow> 'v json" where
  "qvariantToNlohmann E QInvalid = viaQJson E QInvalid"
| "qvariantToNlohmann E (QBool b) = viaQJson E (QBool b)"
| "qvariantToNlohmann E (QSigned k i) = (if k = KInt \<or> k = KLongLong then Integer i else viaQJson E (QSigned k i))"
| "qvariantToNlohmann E (QUnsigned k u) =
     (if k = KUInt \<or> k = KULongLong then Unsigned u else viaQJson E (QUnsigned k u))"
| "qvariantToNlohmann E (QReal d) = viaQJson E (QReal d)"
| "qvariantToNlohmann E (QString s) = viaQJson E (QString s)"
| "qvariantToNlohmann E (QBytes b) = bytesToJson b"
| "qvariantToNlohmann E (QStringList ss) = Array (map Str ss)"
| "qvariantToNlohmann E (QVariantList vs) = Array (map (qvariantToNlohmann E) vs)"
| "qvariantToNlohmann E (QVariantMap m) = Object (put_all (map (map_prod id (qvariantToNlohmann E)) m))"
| "qvariantToNlohmann E (QJsonValue j) = viaQJson E (QJsonValue j)"
| "qvariantToNlohmann E (QJsonObject fs) = viaQJson E (QJsonObject fs)"
| "qvariantToNlohmann E (QJsonArray js) = viaQJson E (QJsonArray js)"
| "qvariantToNlohmann E (QLogosResult ok v e) =
     (if registered E
      then Object (put_all [(''success'', Boolean ok), (''value'', qvariantToNlohmann E v), (''error'', errorToJson E e)])
      else viaQJson E (QLogosResult ok v e))"
| "qvariantToNlohmann E (QOther x) = viaQJson E (QOther x)"

subsection \<open>From JSON\<close>

definition taggedJsonToByteArray :: "'v json \<Rightarrow> codec_error + bytes" where
  "taggedJsonToByteArray j = bytesFromJson j"

text \<open>\<open>bytesFromJson\<close> throws on a value that is not tagged bytes; it is only called on one that is.\<close>

definition bytesVariant :: "'v json \<Rightarrow> 'v qvariant" where
  "bytesVariant j = (case taggedJsonToByteArray j of Inl e \<Rightarrow> QInvalid | Inr b \<Rightarrow> QBytes b)"

primrec nlohmannToQVariant :: "'v json \<Rightarrow> 'v qvariant" where
  "nlohmannToQVariant Null = QInvalid"
| "nlohmannToQVariant (Boolean b) = QBool b"
| "nlohmannToQVariant (Unsigned u) = QUnsigned KULongLong u"
| "nlohmannToQVariant (Integer i) = QSigned KLongLong i"
| "nlohmannToQVariant (Float d) = QReal d"
| "nlohmannToQVariant (Str s) = QString s"
| "nlohmannToQVariant (Object fs) =
     (if isTaggedBytes (Object fs) then bytesVariant (Object fs)
      else QVariantMap (put_all (map (map_prod id nlohmannToQVariant) fs)))"
| "nlohmannToQVariant (Array js) = QVariantList (map nlohmannToQVariant js)"
| "nlohmannToQVariant (Binary b) = QInvalid"

record 'v logos_result =
  success :: bool
  result_value :: "'v qvariant"
  result_error :: "'v qvariant"

definition jsonToLogosResult :: "'v json \<Rightarrow> 'v logos_result" where
  "jsonToLogosResult j =
     (case j of
        Object fs \<Rightarrow>
          \<lparr>success = (case object_get fs ''success'' of Some (Boolean b) \<Rightarrow> b | _ \<Rightarrow> False),
           result_value = (case object_get fs ''value'' of Some v \<Rightarrow> nlohmannToQVariant v | None \<Rightarrow> QInvalid),
           result_error = (case object_get fs ''error'' of Some e \<Rightarrow> nlohmannToQVariant e | None \<Rightarrow> QInvalid)\<rparr>
      | _ \<Rightarrow> \<lparr>success = False, result_value = QInvalid, result_error = QInvalid\<rparr>)"

fun argumentToQVariant :: "'v json \<Rightarrow> 'v qvariant" where
  "argumentToQVariant (Str s) = QString s"
| "argumentToQVariant (Boolean b) = QBool b"
| "argumentToQVariant (Unsigned u) = QUnsigned KULongLong u"
| "argumentToQVariant (Integer i) = QSigned KLongLong i"
| "argumentToQVariant (Float d) = QReal d"
| "argumentToQVariant Null = QInvalid"
| "argumentToQVariant (Object fs) =
     (if isTaggedBytes (Object fs) then bytesVariant (Object fs) else nlohmannToQVariant (Object fs))"
| "argumentToQVariant (Array js) = nlohmannToQVariant (Array js)"
| "argumentToQVariant (Binary b) = QInvalid"

fun nlohmannArgsToQVariantList :: "'v json \<Rightarrow> 'v qvariant list" where
  "nlohmannArgsToQVariantList (Array js) = map argumentToQVariant js"
| "nlohmannArgsToQVariantList _ = []"

record 'v logos_method_metadata =
  lm_name :: qstring
  lm_signature :: qstring
  lm_returnType :: qstring
  lm_isInvokable :: bool
  lm_parameters :: "'v json"

text \<open>\<open>params\<close> is what \<open>QJsonDocument::fromJson(...).array()\<close> reads from the text of a JSON value.\<close>

definition logosMethodToQJson :: "('v json \<Rightarrow> 'v qjson list) \<Rightarrow> 'v logos_method_metadata \<Rightarrow> 'v qjson" where
  "logosMethodToQJson params m = JObject (put_all
     [(''name'', JString (lm_name m)), (''signature'', JString (lm_signature m)),
      (''returnType'', JString (lm_returnType m)), (''isInvokable'', JBool (lm_isInvokable m)),
      (''parameters'', JArray (case lm_parameters m of Array js \<Rightarrow> params (Array js) | _ \<Rightarrow> []))])"

definition logosMethodsToJsonArray ::
  "('v json \<Rightarrow> 'v qjson list) \<Rightarrow> 'v logos_method_metadata list \<Rightarrow> 'v qjson list" where
  "logosMethodsToJsonArray params ms = map (logosMethodToQJson params) ms"

subsection \<open>What Qt documents\<close>

definition qt_json_laws :: "('v \<Rightarrow> bool) \<Rightarrow> (int \<Rightarrow> 'v) \<Rightarrow> 'v qt_json \<Rightarrow> bool" where
  "qt_json_laws finite_v of_int_v E =
     ((\<forall>v \<in> {QInvalid} \<union> range QBool \<union> range QReal \<union> range QString \<union> range (QSigned KLong) \<union> range (QUnsigned KULong).
         asObject E v = None \<and> asArray E v = None) \<and>
      fromVariant E QInvalid = JNull \<and> (\<forall>b. fromVariant E (QBool b) = JBool b) \<and>
      (\<forall>s. fromVariant E (QString s) = JString s) \<and>
      (\<forall>d. finite_v d \<longrightarrow> fromVariant E (QReal d) = JNumber d) \<and>
      (\<forall>i. fromVariant E (QSigned KLong i) = JNumber (of_int_v (sint i))) \<and>
      (\<forall>m. fromVariant E (QVariantMap m) = JObject (map (map_prod id (fromVariant E)) m)))"

lemma qt_json_scalars:
  assumes "qt_json_laws finite_v of_int_v E"
  shows "viaQJson E QInvalid = Null" "viaQJson E (QBool b) = Boolean b" "viaQJson E (QString s) = Str s"
    "finite_v d \<Longrightarrow> viaQJson E (QReal d) = Float d"
    "viaQJson E (QSigned KLong i) = Float (of_int_v (sint i))"
  using assms
  by (auto simp: qt_json_laws_def viaQJson_def viaQJsonArray_def viaQJsonValue_def)

subsection \<open>Round trips\<close>

text \<open>The variants that come back from JSON as they were.\<close>

primrec json_native :: "('v \<Rightarrow> bool) \<Rightarrow> 'v qvariant \<Rightarrow> bool" where
  "json_native fin QInvalid = True"
| "json_native fin (QBool b) = True"
| "json_native fin (QSigned k i) = (k = KLongLong)"
| "json_native fin (QUnsigned k u) = (k = KULongLong)"
| "json_native fin (QReal d) = fin d"
| "json_native fin (QString s) = True"
| "json_native fin (QBytes b) = True"
| "json_native fin (QStringList ss) = False"
| "json_native fin (QVariantList vs) = list_all id (map (json_native fin) vs)"
| "json_native fin (QVariantMap m) =
     (sorted_keys m \<and> \<not> (\<exists>s. m = [(bytesKey, QString s)]) \<and> list_all snd (map (map_prod id (json_native fin)) m))"
| "json_native fin (QJsonValue j) = False"
| "json_native fin (QJsonObject fs) = False"
| "json_native fin (QJsonArray js) = False"
| "json_native fin (QLogosResult ok v e) = False"
| "json_native fin (QOther x) = False"

lemma bytesVariant_bytesToJson [simp]: "bytesVariant (bytesToJson b) = QBytes b"
  by (simp add: bytesVariant_def taggedJsonToByteArray_def bytesFromJson_def b64_roundtrip)

text \<open>Only a string is spelled like a string.\<close>

lemma native_eq_Str:
  assumes "qt_json_laws fin of_int_v E" and "json_native fin v" and "qvariantToNlohmann E v = Str s"
  shows "v = QString s"
  using assms(2,3) qt_json_scalars[OF assms(1)] by (cases v) (auto simp: bytesToJson_def)

lemma nlohmannToQVariant_bytes [simp]: "nlohmannToQVariant (bytesToJson b) = QBytes b"
  by (simp add: bytesToJson_def bytesVariant_bytesToJson[unfolded bytesToJson_def]
      isTaggedBytes_bytesToJson[unfolded bytesToJson_def] del: isTaggedBytes.simps)

lemma native_round_trip:
  assumes laws: "qt_json_laws fin of_int_v E"
  shows "json_native fin v \<Longrightarrow> nlohmannToQVariant (qvariantToNlohmann E v) = v"
proof (induction v)
  case (QVariantMap m)
  let ?fs = "map (map_prod id (qvariantToNlohmann E)) m"
  from QVariantMap.prems have sorted: "sorted_keys m" and native: "\<forall>(k, v) \<in> set m. json_native fin v"
    by (auto simp: list_all_iff)
  then have fs: "put_all ?fs = ?fs" by (simp add: put_all_sorted)
  have plain: "\<not> isTaggedBytes (Object ?fs)"
  proof
    assume "isTaggedBytes (Object ?fs)"
    then obtain t where "?fs = [(bytesKey, Str t)]" by (auto simp: isTaggedBytes_iff simp del: isTaggedBytes.simps)
    then obtain v where "m = [(bytesKey, v)]" "qvariantToNlohmann E v = Str t" by auto
    with native native_eq_Str[OF laws, of v t] QVariantMap.prems show False by auto
  qed
  have "map (map_prod id nlohmannToQVariant) ?fs = m"
    using QVariantMap.IH native by (induction m) fastforce+
  moreover have "put_all m = m" using sorted by (simp add: put_all_sorted)
  ultimately show ?case using plain by (simp add: fs del: isTaggedBytes.simps map_map)
next
  case (QVariantList vs)
  then show ?case by (auto simp: list_all_iff intro: map_idI)
qed (use qt_json_scalars[OF laws] in \<open>auto\<close>)

lemma argument_conversion: "argumentToQVariant j = nlohmannToQVariant j"
  by (cases j) auto

text \<open>
  Values and results pass through the JSON of the C ABI. A variant made of booleans,
  \<open>long long\<close> and \<open>unsigned long long\<close> integers, finite doubles, strings, byte arrays, lists and
  maps is encoded and decoded to itself at any depth, except for the one map that is spelled
  like a byte array; arguments are decoded as values are; and of a \<open>LogosResult\<close> the success
  and the value come back, but an error comes back only when it is a text.
\<close>

theorem values_pass_the_c_abi:
  assumes "qt_json_laws fin of_int_v E"
  shows "(json_native fin v \<longrightarrow> nlohmannToQVariant (qvariantToNlohmann E v) = v) \<and>
    nlohmannArgsToQVariantList (Array js) = map nlohmannToQVariant js \<and>
    (registered E \<and> json_native fin v \<longrightarrow>
      jsonToLogosResult (qvariantToNlohmann E (QLogosResult ok v e)) =
        \<lparr>success = ok, result_value = v,
         result_error = (case fromVariant E e of JString s \<Rightarrow> QString s | _ \<Rightarrow> QInvalid)\<rparr>)"
proof (intro conjI impI)
  show "nlohmannArgsToQVariantList (Array js) = map nlohmannToQVariant js"
    by (simp add: argument_conversion)
  show "nlohmannToQVariant (qvariantToNlohmann E v) = v" if "json_native fin v"
    using native_round_trip[OF assms that] .
  show "jsonToLogosResult (qvariantToNlohmann E (QLogosResult ok v e)) =
      \<lparr>success = ok, result_value = v,
       result_error = (case fromVariant E e of JString s \<Rightarrow> QString s | _ \<Rightarrow> QInvalid)\<rparr>"
    if "registered E \<and> json_native fin v"
    using that native_round_trip[OF assms, of v]
    by (auto simp: jsonToLogosResult_def put_all_def object_get_def errorToJson_def split: qjson.splits)
qed

text \<open>
  An integer of metatype \<open>long\<close>, which is what \<open>int64_t\<close> is on 64-bit Linux, does not stay an
  integer: it is encoded as the double nearest to it, so that distinct integers with the same
  double are encoded alike and come back as a double, where \<open>long long\<close> integers come back as
  they were.
\<close>

theorem long_integers_become_doubles:
  assumes "qt_json_laws fin of_int_v E" and "of_int_v (sint i) = of_int_v (sint j)"
  shows "qvariantToNlohmann E (QSigned KLong i) = qvariantToNlohmann E (QSigned KLong j) \<and>
    nlohmannToQVariant (qvariantToNlohmann E (QSigned KLong i)) = QReal (of_int_v (sint i)) \<and>
    nlohmannToQVariant (qvariantToNlohmann E (QSigned KLongLong i)) = QSigned KLongLong i"
  using qt_json_scalars(5)[OF assms(1)] assms(2) by simp

subsection \<open>Concrete values\<close>

text \<open>A double is here an integer rounded down to a multiple of four.\<close>

definition coarse :: "int \<Rightarrow> int" where
  "coarse n = n - n mod 4"

primrec plain_qjson :: "int qvariant \<Rightarrow> int qjson" where
  "plain_qjson QInvalid = JNull"
| "plain_qjson (QBool b) = JBool b"
| "plain_qjson (QSigned k i) = JNumber (coarse (sint i))"
| "plain_qjson (QUnsigned k u) = JNumber (coarse (uint u))"
| "plain_qjson (QReal d) = JNumber d"
| "plain_qjson (QString s) = JString s"
| "plain_qjson (QBytes b) = JNull"
| "plain_qjson (QStringList ss) = JArray (map JString ss)"
| "plain_qjson (QVariantList vs) = JArray (map plain_qjson vs)"
| "plain_qjson (QVariantMap m) = JObject (map (map_prod id plain_qjson) m)"
| "plain_qjson (QJsonValue j) = j"
| "plain_qjson (QJsonObject fs) = JObject fs"
| "plain_qjson (QJsonArray js) = JArray js"
| "plain_qjson (QLogosResult ok v e) = JNull"
| "plain_qjson (QOther x) = JNull"

definition sample_qt :: "int qt_json" where
  "sample_qt = \<lparr>registered = True, fromVariant = plain_qjson,
     asObject = (\<lambda>v. case v of QJsonObject fs \<Rightarrow> Some fs | _ \<Rightarrow> None),
     asArray = (\<lambda>v. case v of QJsonArray js \<Rightarrow> Some js | _ \<Rightarrow> None), reparse = (\<lambda>j. None)\<rparr>"

lemma sample_qt_laws: "qt_json_laws (\<lambda>d. True) coarse sample_qt"
  by (auto simp: qt_json_laws_def sample_qt_def)

theorem values_pass_the_c_abi_witness:
  "jsonToLogosResult (qvariantToNlohmann sample_qt
      (QLogosResult True (QVariantList [QSigned KLongLong 5, QBytes [0, 255]]) (QVariantMap [(''why'', QString ''full'')]))) =
   \<lparr>success = True, result_value = QVariantList [QSigned KLongLong 5, QBytes [0, 255]], result_error = QInvalid\<rparr>"
  using values_pass_the_c_abi[OF sample_qt_laws, of "QVariantList [QSigned KLongLong 5, QBytes [0, 255]]" "[]" True
      "QVariantMap [(''why'', QString ''full'')]"]
  by (simp add: sample_qt_def)

theorem long_integers_become_doubles_witness:
  "qvariantToNlohmann sample_qt (QSigned KLong 8) = qvariantToNlohmann sample_qt (QSigned KLong 9)"
  using long_integers_become_doubles[OF sample_qt_laws, of 8 9] by (simp add: coarse_def)

end
