(* ===== verification/Plain_Host.thy ===== *)
theory Plain_Host
  imports Rpc_Connection Module_Proxy Qt_Rpc_Values
begin

text \<open>
  \<open>cpp/implementations/plain/plain_transport_host.cpp\<close>: what the serving side of the plain
  transport keeps between messages. Objects are published under names; the events they emit
  are written to the connections that subscribed; calls are queued to the object's thread.

  An object is a value of type \<open>'o\<close>, a connection (the opaque \<open>connectionId\<close>) a number, an event
  sink a value of type \<open>'s\<close>. \<open>m_published\<close> is a \<open>std::map\<close> in key order; the inner map of sinks is
  ordered by address, for which the order of the list stands. Qt's signal connections are the
  list \<open>hooks\<close>, its event queue the list \<open>posted\<close>. Every operation runs under \<open>m_mu\<close> as a whole,
  apart from replies and sinks, which are invoked after it has been released.
\<close>

subsection \<open>State\<close>

datatype transport_protocol = LocalSocket | Tcp | TcpSsl | Web

datatype 'd host_task =
  CallTask nat u64 qstring qstring "'d rpc_value list" qstring
| MethodsTask nat u64
| TokenTask qstring qstring qstring

datatype 'd host_reply = ResultReply nat "'d result_message" | MethodsReply nat "'d methods_result_message"

type_synonym 's sink_table = "(qstring, (nat, 's) qhash) qhash"

record ('o, 's, 'd) plain_host =
  protocol :: transport_protocol
  published :: "(qstring \<times> ('o \<times> nat)) list"
  sinks :: "(qstring, 's sink_table) qhash"
  hooks :: "(nat \<times> 'o \<times> qstring) list"
  nextHook :: nat
  posted :: "('o \<times> 'd host_task) list"
  replies :: "'d host_reply list"

definition newHost :: "transport_protocol \<Rightarrow> ('o, 's, 'd) plain_host" where
  "newHost proto = \<lparr>protocol = proto, published = [], sinks = [], hooks = [], nextHook = 0, posted = [], replies = []\<rparr>"

subsection \<open>Publishing\<close>

text \<open>\<open>is_proxy\<close> is \<open>qobject_cast<ModuleProxy*>\<close>; \<open>None\<close> the null pointer. The connection made is
  remembered in the entry; one remembered before is overwritten with it.\<close>

definition publishObject ::
  "('o \<Rightarrow> bool) \<Rightarrow> qstring \<Rightarrow> 'o option \<Rightarrow> ('o, 's, 'd) plain_host \<Rightarrow> bool \<times> ('o, 's, 'd) plain_host" where
  "publishObject is_proxy name obj h = (case obj of None \<Rightarrow> (False, h)
     | Some o1 \<Rightarrow>
       if \<not> is_proxy o1 then (False, h)
       else (True, h\<lparr>hooks := hooks h @ [(nextHook h, o1, name)], nextHook := Suc (nextHook h),
                    published := object_put name (o1, nextHook h) (published h)\<rparr>))"

definition unpublishObject :: "qstring \<Rightarrow> ('o, 's, 'd) plain_host \<Rightarrow> ('o, 's, 'd) plain_host" where
  "unpublishObject name h = (case map_of (published h) name of None \<Rightarrow> h
     | Some (o1, hook) \<Rightarrow> h\<lparr>hooks := filter (\<lambda>k. fst k \<noteq> hook) (hooks h),
                            published := hash_remove name (published h)\<rparr>)"

subsection \<open>Subscriptions\<close>

definition sinkTable :: "qstring \<Rightarrow> ('o, 's, 'd) plain_host \<Rightarrow> 's sink_table" where
  "sinkTable name h = hash_value (sinks h) name []"

definition sinkRow :: "'s sink_table \<Rightarrow> qstring \<Rightarrow> (nat, 's) qhash" where
  "sinkRow t ev = hash_value t ev []"

definition onSubscribe :: "subscribe_message \<Rightarrow> 's \<Rightarrow> nat \<Rightarrow> ('o, 's, 'd) plain_host \<Rightarrow> ('o, 's, 'd) plain_host" where
  "onSubscribe req sink cid h =
     (let t = sinkTable (sub_object req) h; row = hash_insert cid sink (sinkRow t (sub_eventName req))
      in h\<lparr>sinks := hash_insert (sub_object req) (hash_insert (sub_eventName req) row t) (sinks h)\<rparr>)"

text \<open>Dropping a key whose value has become empty.\<close>

definition put_or_drop :: "'k \<Rightarrow> ('a, 'b) qhash \<Rightarrow> ('k, ('a, 'b) qhash) qhash \<Rightarrow> ('k, ('a, 'b) qhash) qhash" where
  "put_or_drop k v m = (if v = [] then hash_remove k m else hash_insert k v m)"

definition onUnsubscribe :: "unsubscribe_message \<Rightarrow> nat \<Rightarrow> ('o, 's, 'd) plain_host \<Rightarrow> ('o, 's, 'd) plain_host" where
  "onUnsubscribe req cid h = (case hash_find (sinks h) (unsub_object req) of None \<Rightarrow> h
     | Some t \<Rightarrow> (case hash_find t (unsub_eventName req) of None \<Rightarrow> h
        | Some row \<Rightarrow>
          h\<lparr>sinks := put_or_drop (unsub_object req)
              (put_or_drop (unsub_eventName req) (hash_remove cid row) t) (sinks h)\<rparr>))"

definition nonempty :: "('k, ('a, 'b) qhash) qhash \<Rightarrow> ('k, ('a, 'b) qhash) qhash" where
  "nonempty m = filter (\<lambda>(k, v). v \<noteq> []) m"

definition closeIn :: "nat \<Rightarrow> 's sink_table \<Rightarrow> 's sink_table" where
  "closeIn cid t = nonempty (map (map_prod id (hash_remove cid)) t)"

definition onConnectionClosed :: "nat \<Rightarrow> ('o, 's, 'd) plain_host \<Rightarrow> ('o, 's, 'd) plain_host" where
  "onConnectionClosed cid h = h\<lparr>sinks := nonempty (map (map_prod id (closeIn cid)) (sinks h))\<rparr>"

subsection \<open>Events\<close>

text \<open>The sinks of one row that are not the connection's second.\<close>

primrec addSinks :: "(nat \<times> 's) list \<Rightarrow> nat list \<times> 's list \<Rightarrow> nat list \<times> 's list" where
  "addSinks [] acc = acc"
| "addSinks (e # row) acc =
     addSinks row (if fst e \<in> set (fst acc) then acc else (fst e # fst acc, snd acc @ [snd e]))"

definition fanOutEvent :: "qstring \<Rightarrow> qstring \<Rightarrow> ('o, 's, 'd) plain_host \<Rightarrow> 's list" where
  "fanOutEvent name ev h = (case hash_find (sinks h) name of None \<Rightarrow> []
     | Some t \<Rightarrow>
       let acc = (case hash_find t ev of None \<Rightarrow> ([], []) | Some row \<Rightarrow> addSinks row ([], []))
       in snd (if ev = [] then acc
               else (case hash_find t [] of None \<Rightarrow> acc | Some row \<Rightarrow> addSinks row acc)))"

text \<open>An object emits an event: every signal connection of it fans the event out, in the order
  in which they were made. The answer lists the sinks invoked with the message each gets.\<close>

definition eventMessage :: "('v qvariant list \<Rightarrow> 'v rpc_value list) \<Rightarrow> qstring \<Rightarrow> qstring \<Rightarrow> 'v qvariant list \<Rightarrow> 'v event_message" where
  "eventMessage conv name ev data = \<lparr>evt_object = name, evt_eventName = ev, evt_data = conv data\<rparr>"

definition emitEvent ::
  "('v qvariant list \<Rightarrow> 'v rpc_value list) \<Rightarrow> 'o \<Rightarrow> qstring \<Rightarrow> 'v qvariant list \<Rightarrow> ('o, 's, 'v) plain_host \<Rightarrow>
   ('s \<times> 'v event_message) list" where
  "emitEvent conv o1 ev data h =
     concat (map (\<lambda>(i, o2, name). map (\<lambda>s. (s, eventMessage conv name ev data)) (fanOutEvent name ev h))
       (filter (\<lambda>(i, o2, name). o2 = o1) (hooks h)))"

subsection \<open>Calls\<close>

definition transportLabel :: "('o, 's, 'd) plain_host \<Rightarrow> qstring" where
  "transportLabel h = (if protocol h = TcpSsl then ''tcp_ssl'' else ''tcp'')"

definition notPublishedResult :: "'d call_message \<Rightarrow> 'd result_message" where
  "notPublishedResult req = \<lparr>res_id = call_id req, res_ok = False, res_value = VNull,
     res_err = ''object not published: '' @ call_object req, res_errCode = ''MODULE_NOT_LOADED''\<rparr>"

definition onCall :: "'d call_message \<Rightarrow> nat \<Rightarrow> ('o, 's, 'd) plain_host \<Rightarrow> ('o, 's, 'd) plain_host" where
  "onCall req cid h = (case map_of (published h) (call_object req) of
       None \<Rightarrow> h\<lparr>replies := replies h @ [ResultReply cid (notPublishedResult req)]\<rparr>
     | Some (o1, hook) \<Rightarrow> h\<lparr>posted := posted h @
         [(o1, CallTask cid (call_id req) (call_authToken req) (call_method req) (call_args req) (transportLabel h))]\<rparr>)"

definition notPublishedMethods :: "methods_message \<Rightarrow> 'd methods_result_message" where
  "notPublishedMethods req = \<lparr>mres_id = mreq_id req, mres_ok = False, mres_methods = [], mres_err = ''object not published''\<rparr>"

definition onMethods :: "methods_message \<Rightarrow> nat \<Rightarrow> ('o, 's, 'd) plain_host \<Rightarrow> ('o, 's, 'd) plain_host" where
  "onMethods req cid h = (case map_of (published h) (mreq_object req) of
       None \<Rightarrow> h\<lparr>replies := replies h @ [MethodsReply cid (notPublishedMethods req)]\<rparr>
     | Some (o1, hook) \<Rightarrow> h\<lparr>posted := posted h @ [(o1, MethodsTask cid (mreq_id req))]\<rparr>)"

definition tokenTarget :: "token_message \<Rightarrow> ('o, 's, 'd) plain_host \<Rightarrow> 'o option" where
  "tokenTarget req h = (case map_of (published h) (tok_moduleName req) of
       Some (o1, hook) \<Rightarrow> Some o1
     | None \<Rightarrow> (case published h of [] \<Rightarrow> None | e # es \<Rightarrow> Some (fst (snd e))))"

definition onToken :: "token_message \<Rightarrow> ('o, 's, 'd) plain_host \<Rightarrow> ('o, 's, 'd) plain_host" where
  "onToken req h = (case tokenTarget req h of None \<Rightarrow> h
     | Some o1 \<Rightarrow> h\<lparr>posted := posted h @ [(o1, TokenTask (tok_authToken req) (tok_moduleName req) (tok_token req))]\<rparr>)"

subsection \<open>What an object's thread does with a task\<close>

definition runTask ::
  "json_dump \<Rightarrow> ('v \<Rightarrow> double_kind) \<Rightarrow> bool \<Rightarrow> ('v qvariant \<Rightarrow> qstring option) \<Rightarrow> ('p, 'v) provider_object option \<Rightarrow>
   'v host_task \<Rightarrow> ('p, 'v) proxy_state \<Rightarrow> 'v host_reply list \<times> ('p, 'v) proxy_state" where
  "runTask dump kind reg text_of provider t s = (case t of
       CallTask cid i token method args label \<Rightarrow>
         (let (ret, s') = callRemoteMethod dump provider token method (rpcListToQVariantList args) label s
          in ([ResultReply cid \<lparr>res_id = i, res_ok = True, res_value = qvariantToRpcValue kind reg text_of ret,
                res_err = [], res_errCode = []\<rparr>], s'))
     | MethodsTask cid i \<Rightarrow>
         (let (ms, s') = getPluginMethods provider s
          in ([MethodsReply cid \<lparr>mres_id = i, mres_ok = True, mres_methods = methodsFromJsonArray kind ms, mres_err = []\<rparr>], s'))
     | TokenTask auth name token \<Rightarrow> (let (ok, s') = informModuleToken provider auth name token s in ([], s')))"

subsection \<open>What arrives\<close>

text \<open>The sink a connection registers writes the event back to that connection: it is the
  connection itself.\<close>

fun hostInbound :: "nat \<Rightarrow> 'd any_message \<Rightarrow> ('o, nat, 'd) plain_host \<Rightarrow> ('o, nat, 'd) plain_host" where
  "hostInbound cid (CallMsg m) h = onCall m cid h"
| "hostInbound cid (MethodsMsg m) h = onMethods m cid h"
| "hostInbound cid (SubscribeMsg m) h = onSubscribe m cid cid h"
| "hostInbound cid (UnsubscribeMsg m) h = onUnsubscribe m cid h"
| "hostInbound cid (TokenMsg m) h = onToken m h"
| "hostInbound cid _ h = h"

subsection \<open>Runs of the host\<close>

datatype ('o, 'd) host_event =
  HFrom nat "'d any_message"
| HClosed nat
| HPublish qstring "'o option"
| HUnpublish qstring

fun host_step :: "('o \<Rightarrow> bool) \<Rightarrow> ('o, 'd) host_event \<Rightarrow> ('o, nat, 'd) plain_host \<Rightarrow> ('o, nat, 'd) plain_host" where
  "host_step is_proxy (HFrom cid m) h = hostInbound cid m h"
| "host_step is_proxy (HClosed cid) h = onConnectionClosed cid h"
| "host_step is_proxy (HPublish name obj) h = snd (publishObject is_proxy name obj h)"
| "host_step is_proxy (HUnpublish name) h = unpublishObject name h"

definition run_host ::
  "('o \<Rightarrow> bool) \<Rightarrow> ('o, 'd) host_event list \<Rightarrow> ('o, nat, 'd) plain_host \<Rightarrow> ('o, nat, 'd) plain_host" where
  "run_host is_proxy evs h = fold (host_step is_proxy) evs h"

subsection \<open>The table of sinks\<close>

text \<open>What a connection is subscribed to, and the shape of the table: distinct keys, no key with
  nothing under it, and each sink under its own connection.\<close>

definition subscribed :: "nat \<Rightarrow> ('o, 's, 'd) plain_host \<Rightarrow> event_key set" where
  "subscribed cid h = {(obj, ev). hash_contains (sinkRow (sinkTable obj h) ev) cid}"

definition rows_ok :: "(('a, 'b) qhash \<Rightarrow> bool) \<Rightarrow> ('k, ('a, 'b) qhash) qhash \<Rightarrow> bool" where
  "rows_ok P m = (hash_wf m \<and> (\<forall>k v. hash_find m k = Some v \<longrightarrow> v \<noteq> [] \<and> P v))"

definition row_ok :: "(nat, nat) qhash \<Rightarrow> bool" where
  "row_ok row = (hash_wf row \<and> (\<forall>c s. hash_find row c = Some s \<longrightarrow> s = c))"

definition sinks_ok :: "('o, nat, 'd) plain_host \<Rightarrow> bool" where
  "sinks_ok h = rows_ok (rows_ok row_ok) (sinks h)"

lemma rows_ok_Nil [simp]: "rows_ok P []" by (simp add: rows_ok_def)

lemma row_ok_Nil [simp]: "row_ok []" by (simp add: row_ok_def)

lemma hash_insert_not_Nil [simp]: "hash_insert k v m \<noteq> []"
proof
  assume "hash_insert k v m = []"
  then have "hash_find (hash_insert k v m) k = None" by simp
  then show False by simp
qed

lemma rows_ok_value: "rows_ok P m \<Longrightarrow> P [] \<Longrightarrow> P (hash_value m k [])"
  by (auto simp: rows_ok_def hash_value_def split: option.splits)

lemma rows_ok_insert: "rows_ok P m \<Longrightarrow> v \<noteq> [] \<Longrightarrow> P v \<Longrightarrow> rows_ok P (hash_insert k v m)"
  by (simp add: rows_ok_def)

lemma rows_ok_put_or_drop: "rows_ok P m \<Longrightarrow> P v \<Longrightarrow> rows_ok P (put_or_drop k v m)"
  by (simp add: put_or_drop_def rows_ok_def)

lemma hash_wf_filter: "hash_wf m \<Longrightarrow> hash_wf (filter P m)"
  by (simp add: hash_wf_def distinct_map_filterI)

lemma nonempty_wf: "hash_wf m \<Longrightarrow> hash_wf (nonempty (map (map_prod id f) m))"
  unfolding nonempty_def by (rule hash_wf_filter) (simp add: hash_wf_def comp_def)

lemma hash_find_nonempty:
  assumes "hash_wf m"
  shows "hash_find (nonempty (map (map_prod id f) m)) k =
    (case hash_find m k of None \<Rightarrow> None | Some v \<Rightarrow> if f v = [] then None else Some (f v))"
  using assms
  by (induction m) (auto simp: nonempty_def hash_wf_def map_of_eq_None_iff image_iff split: option.splits)

lemma rows_ok_nonempty:
  "rows_ok P m \<Longrightarrow> (\<And>v. P v \<Longrightarrow> P (f v)) \<Longrightarrow> rows_ok P (nonempty (map (map_prod id f) m))"
  by (auto simp: rows_ok_def nonempty_wf hash_find_nonempty split: option.splits if_splits)

lemma hash_value_put_or_drop [simp]:
  "hash_value (put_or_drop k v m) k' [] = (if k' = k then v else hash_value m k' [])"
  by (simp add: put_or_drop_def)

lemma hash_value_nonempty:
  "hash_wf m \<Longrightarrow> f [] = [] \<Longrightarrow> hash_value (nonempty (map (map_prod id f) m)) k [] = f (hash_value m k [])"
  by (auto simp: hash_value_def hash_find_nonempty split: option.splits)

lemma closeIn_Nil [simp]: "closeIn cid [] = []" by (simp add: closeIn_def nonempty_def)

lemma hash_remove_Nil [simp]: "hash_remove k [] = []" by (simp add: hash_remove_def)

lemma sinks_ok_step: "sinks_ok h \<Longrightarrow> sinks_ok (host_step is_proxy e h)"
proof (induction is_proxy e h rule: host_step.induct)
  case (1 is_proxy cid m h)
  have row: "rows_ok row_ok (sinkTable obj h)" for obj
    using 1 unfolding sinkTable_def sinks_ok_def by (rule rows_ok_value) simp
  have inner: "row_ok (sinkRow (sinkTable obj h) ev)" for obj ev
    unfolding sinkRow_def using row by (rule rows_ok_value) simp
  show ?case
  proof (cases m)
    case (SubscribeMsg req)
    have "row_ok (hash_insert cid cid (sinkRow (sinkTable (sub_object req) h) (sub_eventName req)))"
      using inner[of "sub_object req" "sub_eventName req"] by (simp add: row_ok_def)
    then show ?thesis
      using 1 row by (simp add: SubscribeMsg onSubscribe_def sinks_ok_def Let_def rows_ok_insert)
  next
    case (UnsubscribeMsg req)
    show ?thesis
    proof (cases "hash_find (sinks h) (unsub_object req)")
      case (Some t)
      then have t: "rows_ok row_ok t" using row[of "unsub_object req"] by (simp add: sinkTable_def hash_value_def)
      have "row_ok (hash_remove cid row)" if "hash_find t (unsub_eventName req) = Some row" for row
        using t that by (auto simp: rows_ok_def row_ok_def)
      then show ?thesis
        using 1 t Some
        by (auto simp: UnsubscribeMsg onUnsubscribe_def sinks_ok_def rows_ok_put_or_drop split: option.splits)
    qed (use 1 in \<open>simp add: UnsubscribeMsg onUnsubscribe_def\<close>)
  qed (use 1 in \<open>auto simp: sinks_ok_def onCall_def onMethods_def onToken_def split: option.splits\<close>)
next
  case (2 is_proxy cid h)
  have "rows_ok row_ok t \<Longrightarrow> rows_ok row_ok (closeIn cid t)" for t
    using rows_ok_nonempty[of row_ok t "hash_remove cid"] by (simp add: closeIn_def row_ok_def)
  with 2 show ?case
    using rows_ok_nonempty[of "rows_ok row_ok" "sinks h" "closeIn cid"]
    by (simp add: sinks_ok_def onConnectionClosed_def)
qed (auto simp: sinks_ok_def publishObject_def unpublishObject_def split: option.splits)

text \<open>The effect of each operation on what a connection is subscribed to.\<close>

lemma subscribed_frame: "sinks h' = sinks h \<Longrightarrow> subscribed c h' = subscribed c h"
  by (simp add: subscribed_def sinkTable_def)

lemma subscribed_subscribe:
  "subscribed c (onSubscribe req s cid h) =
     (if c = cid then insert (sub_object req, sub_eventName req) (subscribed c h) else subscribed c h)"
  by (auto simp: subscribed_def sinkTable_def sinkRow_def onSubscribe_def Let_def split: if_splits)

lemma subscribed_unsubscribe:
  "subscribed c (onUnsubscribe req cid h) =
     (if c = cid then subscribed c h - {(unsub_object req, unsub_eventName req)} else subscribed c h)"
proof (cases "hash_find (sinks h) (unsub_object req)")
  case None
  then show ?thesis by (auto simp: onUnsubscribe_def subscribed_def sinkTable_def sinkRow_def hash_value_def[of "sinks h"])
next
  case (Some t)
  then have t: "sinkTable (unsub_object req) h = t" by (simp add: sinkTable_def hash_value_def)
  show ?thesis
  proof (cases "hash_find t (unsub_eventName req)")
    case None
    with Some t show ?thesis
      by (auto simp: onUnsubscribe_def subscribed_def sinkRow_def hash_value_def[of t])
  next
    case row: (Some row)
    have "sinkRow (sinkTable obj (onUnsubscribe req cid h)) ev =
        (if (obj, ev) = (unsub_object req, unsub_eventName req) then hash_remove cid row else sinkRow (sinkTable obj h) ev)"
      for obj ev
      using Some row t by (auto simp: onUnsubscribe_def sinkTable_def sinkRow_def)
    moreover have "sinkRow (sinkTable (unsub_object req) h) (unsub_eventName req) = row"
      using row t by (simp add: sinkRow_def hash_value_def)
    ultimately show ?thesis by (auto simp: subscribed_def split: if_splits)
  qed
qed

lemma subscribed_closed:
  assumes "sinks_ok h"
  shows "subscribed c (onConnectionClosed cid h) = (if c = cid then {} else subscribed c h)"
proof -
  have wf: "hash_wf (sinks h)" using assms by (simp add: sinks_ok_def rows_ok_def)
  have tab: "hash_wf (sinkTable obj h)" for obj
    using assms by (auto simp: sinks_ok_def rows_ok_def sinkTable_def hash_value_def split: option.splits)
  have "sinkTable obj (onConnectionClosed cid h) = closeIn cid (sinkTable obj h)" for obj
    by (simp add: sinkTable_def onConnectionClosed_def hash_value_nonempty[OF wf])
  then have "sinkRow (sinkTable obj (onConnectionClosed cid h)) ev = hash_remove cid (sinkRow (sinkTable obj h) ev)" for obj ev
    unfolding sinkRow_def by (simp add: closeIn_def hash_value_nonempty[OF tab])
  then show ?thesis by (auto simp: subscribed_def)
qed

fun row_effect :: "nat \<Rightarrow> ('o, 'd) host_event \<Rightarrow> event_key set \<Rightarrow> event_key set" where
  "row_effect c (HFrom cid (SubscribeMsg m)) K = (if cid = c then insert (sub_object m, sub_eventName m) K else K)"
| "row_effect c (HFrom cid (UnsubscribeMsg m)) K = (if cid = c then K - {(unsub_object m, unsub_eventName m)} else K)"
| "row_effect c (HClosed cid) K = (if cid = c then {} else K)"
| "row_effect c _ K = K"

lemma subscribed_step:
  assumes "sinks_ok h"
  shows "subscribed c (host_step is_proxy e h) = row_effect c e (subscribed c h)"
proof (cases e)
  case (HFrom cid m)
  then show ?thesis
    by (cases m) (auto simp: subscribed_subscribe subscribed_unsubscribe onCall_def onMethods_def onToken_def
        intro!: subscribed_frame split: option.splits)
next
  case (HPublish name obj)
  then show ?thesis by (auto simp: publishObject_def intro!: subscribed_frame split: option.splits)
next
  case (HUnpublish name)
  then show ?thesis by (auto simp: unpublishObject_def intro!: subscribed_frame split: option.splits)
qed (use subscribed_closed[OF assms] in auto)

lemma sinks_ok_run: "sinks_ok h \<Longrightarrow> sinks_ok (run_host is_proxy evs h)"
  unfolding run_host_def by (induction evs arbitrary: h) (simp_all add: sinks_ok_step)

lemma sinks_ok_new [simp]: "sinks_ok (newHost proto)"
  by (simp add: sinks_ok_def newHost_def)

lemma subscribed_run:
  "sinks_ok h \<Longrightarrow> subscribed c (run_host is_proxy evs h) = fold (row_effect c) evs (subscribed c h)"
  unfolding run_host_def by (induction evs arbitrary: h) (simp_all add: sinks_ok_step subscribed_step)

subsection \<open>Fan-out\<close>

lemma addSinks_eq:
  "distinct (map fst row) \<Longrightarrow>
   addSinks row (seen, res) = (rev (map fst (filter (\<lambda>e. fst e \<notin> set seen) row)) @ seen,
     res @ map snd (filter (\<lambda>e. fst e \<notin> set seen) row))"
proof (induction row arbitrary: seen res)
  case (Cons e row)
  then have "fst x \<noteq> fst e" if "x \<in> set row" for x using that by (metis distinct.simps(2) image_eqI list.map(2) set_map)
  then have "filter (\<lambda>x. fst x \<notin> set (fst e # seen)) row = filter (\<lambda>x. fst x \<notin> set seen) row"
    by (intro filter_cong) auto
  with Cons show ?case by simp
qed simp

lemma row_ok_keys: "row_ok row \<Longrightarrow> map snd row = map fst row"
  unfolding row_ok_def by (metis (no_types, lifting) hash_wf_in map_eq_conv prod.collapse)

lemma row_ok_distinct: "row_ok row \<Longrightarrow> distinct (map fst row)"
  by (simp add: row_ok_def hash_wf_def)

lemma snd_filter_row: "row_ok row \<Longrightarrow> map snd (filter P row) = map fst (filter P row)"
  using row_ok_keys[of row] by (simp add: map_eq_conv)

lemma fan_out_targets:
  assumes "sinks_ok h"
  shows "distinct (fanOutEvent name ev h) \<and>
    set (fanOutEvent name ev h) = {c. (name, ev) \<in> subscribed c h \<or> (name, []) \<in> subscribed c h}"
proof -
  let ?t = "sinkTable name h"
  let ?named = "sinkRow ?t ev" and ?wild = "if ev = [] then [] else sinkRow ?t []"
  have t: "rows_ok row_ok ?t" using assms unfolding sinkTable_def sinks_ok_def by (rule rows_ok_value) simp
  have row: "row_ok (sinkRow ?t e)" for e unfolding sinkRow_def using t by (rule rows_ok_value) simp
  have eq: "fanOutEvent name ev h = snd (addSinks ?wild (addSinks ?named ([], [])))"
    by (auto simp: fanOutEvent_def sinkTable_def sinkRow_def hash_value_def Let_def split: option.splits)
  have named: "addSinks ?named ([], []) = (rev (map fst ?named), map fst ?named)"
    using addSinks_eq[OF row_ok_distinct[OF row], of ev "[]" "[]"] row_ok_keys[OF row[of ev]] by simp
  have wild: "row_ok ?wild" using row by simp
  have res: "fanOutEvent name ev h = map fst ?named @ map fst (filter (\<lambda>e. fst e \<notin> fst ` set ?named) ?wild)"
    unfolding eq named addSinks_eq[OF row_ok_distinct[OF wild]] by (simp add: snd_filter_row[OF wild, simplified])
  have "(name, e) \<in> subscribed c h \<longleftrightarrow> c \<in> fst ` set (sinkRow ?t e)" for c e
    by (auto simp: subscribed_def hash_contains_def map_of_eq_None_iff)
  then show ?thesis
    unfolding res using row_ok_distinct[OF row[of ev]] row_ok_distinct[OF wild]
    by (auto simp: distinct_map_filterI) force+
qed

text \<open>
  C22: The table of sinks is exact. After any sequence of messages from any connections,
  closings, publications and withdrawals, each connection is subscribed to what its own
  messages since it was last closed say, whatever the others sent and whether or not the
  object was published; the table keeps nothing under a connection or an event that is
  gone; and an event of an object goes to the connections subscribed to it by name or to
  every event of the object, once each.
\<close>

theorem event_sinks_are_exact:
  fixes is_proxy :: "'o \<Rightarrow> bool" and evs :: "('o, 'd) host_event list" and proto
  defines "h \<equiv> run_host is_proxy evs (newHost proto)"
  shows "subscribed c h = fold (row_effect c) evs {} \<and> sinks_ok h \<and>
    distinct (fanOutEvent name ev h) \<and>
    set (fanOutEvent name ev h) = {c. (name, ev) \<in> subscribed c h \<or> (name, []) \<in> subscribed c h}"
proof -
  have "sinks_ok h" unfolding h_def by (rule sinks_ok_run) simp
  moreover have "subscribed c (newHost proto :: ('o, nat, 'd) plain_host) = {}"
    by (simp add: subscribed_def newHost_def sinkTable_def sinkRow_def)
  then have "subscribed c h = fold (row_effect c) evs {}"
    unfolding h_def using subscribed_run[OF sinks_ok_new, of c is_proxy evs proto] by simp
  ultimately show ?thesis using fan_out_targets[of h name ev] by blast
qed

end
