(* ===== verification/Plain_Delivery.thy ===== *)
theory Plain_Delivery
  imports Plain_Host
begin

text \<open>
  The plain transport end to end: a consumer's \<open>RpcPeer\<close>, the wire, the host's table of sinks
  and back (\<open>Rpc_Peer\<close>, \<open>Rpc_Connection\<close>, \<open>Plain_Host\<close>), and a call from the wire through the
  proxy that admits it (\<open>Module_Proxy\<close>).
\<close>

subsection \<open>Events reach their subscribers once\<close>

definition emitted_messages :: "('h, 'd) peer_output list \<Rightarrow> 'd any_message list" where
  "emitted_messages os = List.map_filter (\<lambda>o1. case o1 of Emit m \<Rightarrow> Some m | _ \<Rightarrow> None) os"

definition messages_from :: "nat \<Rightarrow> ('o, 'd) host_event list \<Rightarrow> 'd any_message list" where
  "messages_from c evs = List.map_filter (\<lambda>e. case e of HFrom cid m \<Rightarrow> if cid = c then Some m else None | _ \<Rightarrow> None) evs"

fun message_effect :: "'d any_message \<Rightarrow> event_key set \<Rightarrow> event_key set" where
  "message_effect (SubscribeMsg m) K = insert (sub_object m, sub_eventName m) K"
| "message_effect (UnsubscribeMsg m) K = K - {(unsub_object m, unsub_eventName m)}"
| "message_effect _ K = K"

lemma map_filter_Cons:
  "List.map_filter f (x # xs) = (case f x of None \<Rightarrow> List.map_filter f xs | Some y \<Rightarrow> y # List.map_filter f xs)"
  by (simp add: List.map_filter_def split: option.split)

lemma row_effects_of_messages:
  "HClosed c \<notin> set evs \<Longrightarrow> fold (row_effect c) evs K = fold message_effect (messages_from c evs) K"
proof (induction evs arbitrary: K)
  case (Cons e evs)
  show ?case
  proof (cases e)
    case (HFrom cid m)
    with Cons show ?thesis by (cases m) (auto simp: messages_from_def map_filter_Cons)
  qed (use Cons in \<open>auto simp: messages_from_def map_filter_Cons\<close>)
qed (simp add: messages_from_def List.map_filter_def)

lemma host_sees_messages:
  "CloseTransport \<notin> set os \<Longrightarrow> fold host_sees os K = fold message_effect (emitted_messages os) K"
proof (induction os arbitrary: K)
  case (Cons o1 os)
  show ?case
  proof (cases o1)
    case (Emit m)
    with Cons show ?thesis by (cases m) (auto simp: emitted_messages_def map_filter_Cons)
  qed (use Cons in \<open>auto simp: emitted_messages_def map_filter_Cons\<close>)
qed (simp add: emitted_messages_def List.map_filter_def)

text \<open>An open peer has not closed its transport.\<close>

lemma open_peer_step:
  "\<not> stopped (peer_op_step oper p) \<Longrightarrow> CloseTransport \<in> set (outputs (peer_op_step oper p)) \<Longrightarrow>
   \<not> stopped p \<and> CloseTransport \<in> set (outputs p)"
proof (cases oper)
  case (OpIncoming m)
  then show "\<not> stopped (peer_op_step oper p) \<Longrightarrow> CloseTransport \<in> set (outputs (peer_op_step oper p)) \<Longrightarrow> ?thesis"
    by (cases m) (auto split: option.splits if_splits)
qed (auto simp: sendCallAsync_def sendMethods_def sendSubscribe_def sendUnsubscribe_def sendEvent_def sendToken_def
    cancelPending_def setErrorHandler_def stop_def fail_def sweepPending_def registerCall_def registerMethods_def
    Let_def split: option.splits if_splits)

lemma open_peer_run:
  "\<not> stopped (run_peer ops (newPeer b)) \<Longrightarrow> CloseTransport \<notin> set (outputs (run_peer ops (newPeer b)))"
  unfolding run_peer_def
  by (induction ops rule: rev_induct) (auto simp: newPeer_def dest: open_peer_step)

lemma targets_iff: "eventTargets m p = [] \<longleftrightarrow>
    subscribers (evt_object m, evt_eventName m) p = [] \<and> subscribers (evt_object m, []) p = []"
  by (auto simp: eventTargets_def)


subsection \<open>A sink that outlives its connection\<close>

text \<open>What the host sees of one of its own connections: the requests it hands on and its end.\<close>

fun host_hears :: "nat \<Rightarrow> ('h, 'd) peer_output \<Rightarrow> ('o, 'd) host_event list" where
  "host_hears cid (Inbound m) = [HFrom cid m]"
| "host_hears cid ConnectionClosed = [HClosed cid]"
| "host_hears cid _ = []"

definition heard :: "nat \<Rightarrow> ('h, 'd) peer_output list \<Rightarrow> ('o, 'd) host_event list" where
  "heard cid os = concat (map (host_hears cid) os)"

lemma heard_append [simp]: "heard cid (os @ os') = heard cid os @ heard cid os'"
  by (simp add: heard_def)

lemma heard_answers [simp]:
  "heard cid (map (\<lambda>(i, h). Answer h (f i)) xs) = []" "heard cid (map (\<lambda>(i, h). AnswerMethods h (g i)) xs) = []"
  by (induction xs) (auto simp: heard_def)

lemma row_effect_others:
  "(\<forall>e \<in> set evs. e \<noteq> HClosed c \<and> (\<forall>m. e \<noteq> HFrom c m)) \<Longrightarrow> fold (row_effect c) evs K = K"
proof (induction evs arbitrary: K)
  case (Cons e evs)
  then have "row_effect c e K = K"
  proof (cases e)
    case (HFrom cid m)
    with Cons.prems show ?thesis by (cases m) auto
  qed auto
  with Cons show ?case by simp
qed simp

text \<open>
  A dead connection keeps a sink. When a frame that does not decode is followed, in the same
  read, by a Subscribe, the host hears of the end of the connection first and of the
  subscription after it: the sink is entered for a connection that is already closed, and
  nothing removes it as long as the host lives, since the connection's end is reported once.
\<close>

theorem dead_connection_keeps_sink:
  fixes c :: "('h, 'd) connection" and is_proxy :: "'o \<Rightarrow> bool" and h :: "('o, nat, 'd) plain_host"
  assumes "\<not> stopped (rpeer c)" and "hasHandler (rpeer c)" and "drainFrames (reader c @ data) = (f # fs, Inr buf)"
    and "codecDecode trunc parse (fst f) (snd f) = Inl e"
    and "list_all2 (\<lambda>f m. codecDecode trunc parse (fst f) (snd f) = Inr m) fs [SubscribeMsg req]"
    and "onRead trunc parse what fwhat data c = (again, c')" and "outputs (rpeer c') = outputs (rpeer c) @ os"
    and "sinks_ok h" and "\<forall>e \<in> set later. e \<noteq> HClosed cid \<and> (\<forall>m. e \<noteq> HFrom cid m)"
  shows "stopped (rpeer c') \<and>
    subscribed cid (run_host is_proxy (heard cid os @ later) h) = {(sub_object req, sub_eventName req)} \<and>
    fail reason (rpeer c') = rpeer c'"
proof -
  let ?dead = "fail (''decode error: '' @ what e) (rpeer c)"
  have c': "rpeer c' = dispatchIncoming (SubscribeMsg req) ?dead"
    using onRead_behind_bad_frame[OF assms(1,3,4,5), of what fwhat] assms(6) by simp
  then have st: "stopped (rpeer c')" using assms(1) by (simp add: fail_def sweepPending_def)
  have "heard cid os = ([HClosed cid, HFrom cid (SubscribeMsg req)] :: ('o, 'd) host_event list)"
  proof -
    have "outputs (rpeer c) @ os = outputs ?dead @ [Inbound (SubscribeMsg req)]"
      using c' assms(1,2,7) by (simp add: fail_def sweepPending_def)
    then show ?thesis
      using assms(1,2) by (auto simp: fail_def sweepPending_def heard_def[of cid "[_]"] heard_def[of cid "_ # _"] split: option.splits)
  qed
  then have "subscribed cid (run_host is_proxy (heard cid os @ later) h) = {(sub_object req, sub_eventName req)}"
    using subscribed_run[OF assms(8), of cid is_proxy "heard cid os @ later"] row_effect_others[OF assms(9)] by simp
  with st show ?thesis by (simp add: fail_def)
qed

subsection \<open>A call over the wire\<close>

lemma transportLabel_remote: "transportLabel h \<noteq> ''local'' \<and> transportLabel h \<in> {''tcp'', ''tcp_ssl''}"
  by (simp add: transportLabel_def)

lemma rpcList_Nil [simp]: "rpcListToQVariantList args = [] \<longleftrightarrow> args = []"
  by (simp add: rpcListToQVariantList_def)


subsection \<open>Publishing twice\<close>

text \<open>
  A name that is published again keeps the signal connection of the first time: each event
  the object emits is then written twice to every subscriber, and once more even after the
  name has been withdrawn, since only the last connection is remembered.
\<close>

theorem republished_object_repeats_events:
  assumes "is_proxy obj" and "\<forall>k \<in> set (hooks h). fst (snd k) \<noteq> obj"
    and "h1 = snd (publishObject is_proxy name (Some obj) h)" and "h2 = snd (publishObject is_proxy name (Some obj) h1)"
    and "copies = map (\<lambda>s. (s, eventMessage conv name ev data)) (fanOutEvent name ev h)"
  shows "emitEvent conv obj ev data h1 = copies \<and> emitEvent conv obj ev data h2 = copies @ copies \<and>
    emitEvent conv obj ev data (unpublishObject name h2) = copies"
proof -
  have pub: "map_of (object_put k v m) k = Some v" for k and v :: "'a \<times> nat" and m
    by (induction m rule: object_put.induct[where ?a0.0 = k and ?a1.0 = v]) auto
  have fan: "fanOutEvent name ev g = fanOutEvent name ev h" if "sinks g = sinks h" for g
    using that by (simp add: fanOutEvent_def)
  have sinks: "sinks h1 = sinks h" "sinks h2 = sinks h" "sinks (unpublishObject name h2) = sinks h"
    using assms(1) by (simp_all add: assms(3,4) publishObject_def unpublishObject_def pub)
  define n where "n = nextHook h"
  have hooks: "hooks h1 = hooks h @ [(n, obj, name)]" "hooks h2 = hooks h @ [(n, obj, name), (Suc n, obj, name)]"
    "hooks (unpublishObject name h2) = filter (\<lambda>k. fst k \<noteq> Suc n) (hooks h) @ [(n, obj, name)]"
    using assms(1) by (simp_all add: assms(3,4) publishObject_def unpublishObject_def pub n_def)
  have none: "filter (\<lambda>(i, o2, name). o2 = obj) ks = []" if "set ks \<subseteq> set (hooks h)" for ks
    using assms(2) that by (force simp: filter_empty_conv)
  have "filter (\<lambda>(i, o2, name). o2 = obj) (hooks h1) = [(n, obj, name)]"
    "filter (\<lambda>(i, o2, name). o2 = obj) (hooks h2) = [(n, obj, name), (Suc n, obj, name)]"
    "filter (\<lambda>(i, o2, name). o2 = obj) (hooks (unpublishObject name h2)) = [(n, obj, name)]"
    unfolding hooks filter_append using none[of "hooks h"] none[of "filter (\<lambda>k. fst k \<noteq> Suc n) (hooks h)"] by simp_all
  then show ?thesis
    unfolding emitEvent_def assms(5) by (simp add: fan[OF sinks(1)] fan[OF sinks(2)] fan[OF sinks(3)])
qed

subsection \<open>Concrete runs\<close>

definition subscribe_e :: "nat any_message" where
  "subscribe_e = SubscribeMsg \<lparr>sub_object = ''o'', sub_eventName = ''e''\<rparr>"

definition two_connections :: "(nat, nat) host_event list" where
  "two_connections = [HFrom 7 subscribe_e, HPublish ''o'' (Some 1), HFrom 8 subscribe_e, HFrom 7 subscribe_e]"


theorem dead_connection_keeps_sink_witness:
  "subscribed 7 (run_host (\<lambda>o1 :: nat. True)
     (heard 7 (outputs (rpeer (snd (onRead (\<lambda>_. 0) (\<lambda>bs. Some (Object [])) (\<lambda>_. []) (\<lambda>_. [])
         [0, 0, 0, 1, 99, 0, 0, 0, 1, 3] \<lparr>rpeer = (newPeer True :: (nat, nat) rpc_peer), reader = []\<rparr>)))) @ [])
     (newHost Tcp)) = {([], [])}"
proof -
  let ?c = "\<lparr>rpeer = (newPeer True :: (nat, nat) rpc_peer), reader = []\<rparr>"
  have "list_all2 (\<lambda>f w. encodeFrame (fst f) (snd f) = Inr w) [(99, []), (3, [])] [[0, 0, 0, 1, 99], [0, 0, 0, 1, 3]]"
    by (simp add: encodeFrame_def kMaxFrameLength_def writeBe32_def Let_def)
  from frames.drain_encoded[OF this]
  have drain: "drainFrames (reader ?c @ [0, 0, 0, 1, 99, 0, 0, 0, 1, 3]) = ((99, []) # [(3, [])], Inr [])" by simp
  have open_c: "\<not> stopped (rpeer ?c)" "hasHandler (rpeer ?c)" "outputs (rpeer ?c) = []"
    by (simp_all add: newPeer_def)
  have bad: "codecDecode (\<lambda>_. 0) (\<lambda>bs. Some (Object [] :: nat json)) (fst (99, [])) (snd (99 :: u8, [])) = Inl UnknownTag"
    by (simp add: codecDecode_def jsonToMessage_def)
  have sub: "list_all2 (\<lambda>f m. codecDecode (\<lambda>_. 0) (\<lambda>bs. Some (Object [] :: nat json)) (fst f) (snd f) = Inr m) [(3, [])]
      [SubscribeMsg \<lparr>sub_object = [], sub_eventName = []\<rparr>]"
    by (simp add: codecDecode_def jsonToMessage_def value_string_def object_get_def)
  obtain again c' where r: "onRead (\<lambda>_. 0) (\<lambda>bs. Some (Object [])) (\<lambda>_. []) (\<lambda>_. [])
      [0, 0, 0, 1, 99, 0, 0, 0, 1, 3] ?c = (again, c')" by fastforce
  have os: "outputs (rpeer c') = outputs (rpeer ?c) @ outputs (rpeer c')" using open_c(3) by simp
  show ?thesis
    using dead_connection_keeps_sink[OF open_c(1,2) drain bad sub r os, of "newHost Tcp" "[]" 7 "\<lambda>o1 :: nat. True"] r
    by simp
qed

definition say_hello :: "nat call_message" where
  "say_hello = \<lparr>call_id = 5, call_authToken = ''stale'', call_object = ''chat'', call_method = ''send'',
     call_args = [VString ''hello''], call_caller = []\<rparr>"

definition chat_host :: "(nat, nat, nat) plain_host" where
  "chat_host = snd (publishObject (\<lambda>o1. True) ''chat'' (Some 1) (newHost Tcp))"


theorem republished_object_repeats_events_witness:
  "emitEvent (\<lambda>_. []) (1 :: nat) ''e'' [] (snd (publishObject (\<lambda>o1. True) ''o'' (Some 1)
     (snd (publishObject (\<lambda>o1. True) ''o'' (Some 1) (hostInbound 7 subscribe_e (newHost Tcp)))))) =
   [(7, \<lparr>evt_object = ''o'', evt_eventName = ''e'', evt_data = []\<rparr>), (7, \<lparr>evt_object = ''o'', evt_eventName = ''e'', evt_data = []\<rparr>)]"
proof -
  let ?h = "hostInbound 7 subscribe_e (newHost Tcp :: (nat, nat, nat) plain_host)"
  have "\<forall>k \<in> set (hooks ?h). fst (snd k) \<noteq> 1" "fanOutEvent ''o'' ''e'' ?h = [7]"
    by (simp_all add: subscribe_e_def onSubscribe_def newHost_def Let_def fanOutEvent_def sinkTable_def sinkRow_def hash_insert_def)
  then show ?thesis
    using republished_object_repeats_events[of "\<lambda>o1. True" 1 ?h "snd (publishObject (\<lambda>o1. True) ''o'' (Some 1) ?h)" "''o''",
        OF TrueI _ refl refl refl, of "\<lambda>_. []" "''e''" "[]"]
    by (simp add: eventMessage_def)
qed

end
