(* ===== verification/Plain_Server.thy ===== *)
theory Plain_Server
  imports Plain_Host
begin

text \<open>
  The sockets of the plain transport: \<open>cpp/implementations/plain/rpc_server.cpp\<close> (the accept
  loop, with and without TLS), the listening half of \<open>plain_transport_host.cpp\<close> and the
  connecting side, \<open>plain_transport_connection.cpp\<close>.

  The two servers differ by the handshake only; \<open>tls\<close> selects the server. A step is what one
  thread does between two points where another can come in: under \<open>m_mu\<close>, on the strand, or
  in one completion handler. Connections are numbers. Boost.Asio decides when an accept, a
  handshake or a connection ends, and how; an accept may fail at any time, which is also what
  closing the acceptor makes of it. Binding and listening, the resolver and the TLS
  context answer as the environment says.
\<close>

subsection \<open>The accept loop\<close>

record server =
  serverStopped :: bool
  conns :: "nat list"
  accepting :: bool
  handshaking :: "nat list"
  unstarted :: "nat list"
  stopping :: "nat list"
  opened :: "nat list"
  dead :: "nat list"
  told :: "nat list"

text \<open>After \<open>start\<close>: listening, with the first accept armed on the strand.\<close>

definition listening :: server where
  "listening = \<lparr>serverStopped = False, conns = [], accepting = True, handshaking = [],
     unstarted = [], stopping = [], opened = [], dead = [], told = []\<rparr>"

text \<open>The test of \<open>m_stopped\<close> and the publication of the connection, under one lock.\<close>

definition openConnection :: "nat \<Rightarrow> server \<Rightarrow> server" where
  "openConnection c s = (if serverStopped s then s
     else s\<lparr>conns := conns s @ [c], opened := opened s @ [c], unstarted := unstarted s @ [c]\<rparr>)"

text \<open>\<open>fail\<close> of a connection: once, telling the incoming-call handler, then the error handler,
  which erases the connection from the list. It is set before the connection is started; a
  connection that fails before that was stopped, and is not in the list any more.\<close>

definition failConnection :: "nat \<Rightarrow> server \<Rightarrow> server" where
  "failConnection c s = (if c \<in> set (dead s) then s
     else s\<lparr>dead := c # dead s, told := told s @ [c],
            conns := filter (\<lambda>d. d \<noteq> c) (conns s)\<rparr>)"

definition stopServer :: "server \<Rightarrow> server" where
  "stopServer s = s\<lparr>serverStopped := True, stopping := stopping s @ conns s, conns := []\<rparr>"

inductive server_step :: "bool \<Rightarrow> server \<Rightarrow> server \<Rightarrow> bool" for tls where
  AcceptFails: "accepting s \<Longrightarrow> server_step tls s (s\<lparr>accepting := False\<rparr>)"
| AcceptedTcp: "\<not> tls \<Longrightarrow> accepting s \<Longrightarrow> c \<notin> set (opened s) \<union> set (handshaking s) \<Longrightarrow>
    server_step tls s (openConnection c (s\<lparr>accepting := False\<rparr>))"
| AcceptedTls: "tls \<Longrightarrow> accepting s \<Longrightarrow> c \<notin> set (opened s) \<union> set (handshaking s) \<Longrightarrow>
    server_step tls s (s\<lparr>handshaking := handshaking s @ [c]\<rparr>)"
| HandshakeFails: "c \<in> set (handshaking s) \<Longrightarrow>
    server_step tls s (s\<lparr>handshaking := remove1 c (handshaking s)\<rparr>)"
| HandshakeDone: "c \<in> set (handshaking s) \<Longrightarrow>
    server_step tls s (openConnection c (s\<lparr>handshaking := remove1 c (handshaking s)\<rparr>))"
| Started: "c \<in> set (unstarted s) \<Longrightarrow>
    server_step tls s (s\<lparr>unstarted := remove1 c (unstarted s), accepting := (accepting s \<or> \<not> tls)\<rparr>)"
| ConnectionFails: "c \<in> set (opened s) \<Longrightarrow> c \<notin> set (unstarted s) \<Longrightarrow> server_step tls s (failConnection c s)"
| StopCalled: "server_step tls s (stopServer s)"
| StopsNext: "stopping s = c # cs \<Longrightarrow> server_step tls s (failConnection c (s\<lparr>stopping := cs\<rparr>))"

inductive server_reaches :: "bool \<Rightarrow> server \<Rightarrow> bool" for tls where
  Listening: "server_reaches tls listening"
| Step: "server_reaches tls s \<Longrightarrow> server_step tls s s' \<Longrightarrow> server_reaches tls s'"

text \<open>
  A connection opened is in the list, on its way to be stopped, or dead; a stopped server has
  none in the list; the handler has been told of the dead ones, once each; a connection that
  has not been started yet is either in the list, on its way to be stopped or dead.
\<close>

definition server_ok :: "server \<Rightarrow> bool" where
  "server_ok s = (set (opened s) \<subseteq> set (conns s) \<union> set (stopping s) \<union> set (dead s) \<and>
     set (conns s) \<union> set (stopping s) \<union> set (dead s) \<union> set (unstarted s) \<subseteq> set (opened s) \<and>
     (serverStopped s \<longrightarrow> conns s = []) \<and> distinct (opened s) \<and>
     distinct (unstarted s) \<and> distinct (told s) \<and> set (told s) = set (dead s) \<and>
     set (handshaking s) \<inter> set (opened s) = {} \<and> distinct (handshaking s) \<and>
     set (conns s) \<inter> set (dead s) = {} \<and> set (conns s) \<inter> set (stopping s) = {})"

lemma server_ok_open: "server_ok s \<Longrightarrow> c \<notin> set (opened s) \<Longrightarrow> c \<notin> set (handshaking s) \<Longrightarrow> server_ok (openConnection c s)"
  by (auto simp: server_ok_def openConnection_def)

lemma server_ok_fail: "server_ok s \<Longrightarrow> c \<in> set (opened s) \<Longrightarrow> server_ok (failConnection c s)"
  by (auto simp: server_ok_def failConnection_def)

lemma server_ok_stop: "server_ok s \<Longrightarrow> server_ok (stopServer s)"
  by (auto simp: server_ok_def stopServer_def)

lemma server_ok_step: "server_step tls s s' \<Longrightarrow> server_ok s \<Longrightarrow> server_ok s'"
proof (induction rule: server_step.induct)
  case (AcceptedTcp s c)
  then have "server_ok (s\<lparr>accepting := False\<rparr>)" by (simp add: server_ok_def)
  with AcceptedTcp show ?case by (intro server_ok_open) auto
next
  case (HandshakeDone c s)
  then have "server_ok (s\<lparr>handshaking := remove1 c (handshaking s)\<rparr>)"
    by (auto simp: server_ok_def dest: set_remove1_subset[THEN subsetD] notin_set_remove1)
  then show ?case
    using HandshakeDone by (intro server_ok_open) (auto simp: server_ok_def)
next
  case (StopsNext s c cs)
  show ?case
  proof (cases "c \<in> set (dead s)")
    case True
    with StopsNext show ?thesis by (auto simp: server_ok_def failConnection_def)
  next
    case False
    with StopsNext show ?thesis by (auto simp: server_ok_def failConnection_def)
  qed
qed (auto simp: server_ok_def stopServer_def failConnection_def dest: set_remove1_subset[THEN subsetD] notin_set_remove1)

lemma server_ok_reaches: "server_reaches tls s \<Longrightarrow> server_ok s"
proof (induction rule: server_reaches.induct)
  case Listening
  show ?case by (simp add: listening_def server_ok_def)
qed (rule server_ok_step)


text \<open>A connection accepted and not started yet when the server is stopped.\<close>

definition stopped_in_time :: server where
  "stopped_in_time = failConnection 1 ((stopServer (openConnection 1 (listening\<lparr>accepting := False\<rparr>)))\<lparr>stopping := []\<rparr>)"

lemma stopped_in_time_reached: "server_reaches False stopped_in_time"
proof -
  let ?s1 = "openConnection 1 (listening\<lparr>accepting := False\<rparr>)"
  have "server_reaches False ?s1"
    by (rule server_reaches.Step[OF server_reaches.Listening AcceptedTcp]) (simp_all add: listening_def)
  then have "server_reaches False (stopServer ?s1)"
    by (rule server_reaches.Step) (rule StopCalled)
  then show ?thesis
    unfolding stopped_in_time_def
    by (rule server_reaches.Step) (rule StopsNext, simp add: stopServer_def openConnection_def listening_def)
qed


subsection \<open>Listening\<close>

text \<open>
  \<open>PlainTransportHost::start\<close> and \<open>endpoint\<close>. What the operating system answers to bind and
  listen is \<open>bound\<close>: the port, or \<open>None\<close>; \<open>context_ok\<close> says whether the TLS context could be
  built from the configured files.
\<close>

record listener =
  cfgProtocol :: transport_protocol
  cfgHost :: qstring
  hostStarted :: bool
  servers :: "transport_protocol list"
  boundPort :: nat

definition newListener :: "transport_protocol \<Rightarrow> qstring \<Rightarrow> listener" where
  "newListener proto host = \<lparr>cfgProtocol = proto, cfgHost = host, hostStarted = False, servers = [], boundPort = 0\<rparr>"

definition startHost :: "bool \<Rightarrow> nat option \<Rightarrow> listener \<Rightarrow> bool \<times> listener" where
  "startHost context_ok bound l =
     (if hostStarted l then (True, l)
      else (case cfgProtocol l of
        LocalSocket \<Rightarrow> (False, l)
      | Web \<Rightarrow> (False, l)
      | Tcp \<Rightarrow> (case bound of None \<Rightarrow> (False, l)
          | Some port \<Rightarrow> (True, l\<lparr>servers := servers l @ [Tcp], boundPort := port, hostStarted := True\<rparr>))
      | TcpSsl \<Rightarrow> if \<not> context_ok then (False, l)
          else (case bound of None \<Rightarrow> (False, l)
            | Some port \<Rightarrow> (True, l\<lparr>servers := servers l @ [TcpSsl], boundPort := port, hostStarted := True\<rparr>))))"

definition endpoint :: "listener \<Rightarrow> qstring" where
  "endpoint l = (if boundPort l = 0 then [] else ''tcp://'' @ cfgHost l @ '':'' @ nat_digits (boundPort l))"

text \<open>Starting again changes nothing, a failed start leaves nothing behind, and at most one
  server is ever listening, of the configured kind.\<close>

lemma start_is_idempotent:
  "fst (startHost ok port l) \<Longrightarrow> startHost ok' port' (snd (startHost ok port l)) = (True, snd (startHost ok port l))"
  "\<not> fst (startHost ok port l) \<Longrightarrow> snd (startHost ok port l) = l"
  by (auto simp: startHost_def split: transport_protocol.splits option.splits if_splits)

definition one_server :: "transport_protocol \<Rightarrow> listener \<Rightarrow> bool" where
  "one_server proto l = (cfgProtocol l = proto \<and> servers l = (if hostStarted l then [proto] else []))"

lemma one_server_start: "one_server proto l \<Longrightarrow> one_server proto (snd (startHost ok port l))"
  by (auto simp: one_server_def startHost_def split: transport_protocol.splits option.splits if_splits)

lemma one_server_run:
  "one_server proto (fold (\<lambda>(ok, port) l. snd (startHost ok port l)) starts (newListener proto host))"
proof -
  have "one_server proto l \<Longrightarrow> one_server proto (fold (\<lambda>(ok, port) l. snd (startHost ok port l)) starts l)" for l
    by (induction starts arbitrary: l) (auto intro: one_server_start)
  then show ?thesis by (simp add: newListener_def one_server_def)
qed

subsection \<open>The connecting side\<close>

text \<open>
  \<open>PlainTransportConnection\<close>. \<open>dialled\<close> is the connection that the resolver, the socket and the
  TLS handshake produce, which is then started, or \<open>None\<close> when one of them throws.
\<close>

record link =
  linkProtocol :: transport_protocol
  linkConn :: "nat option"
  linkConnected :: bool
  linkOpened :: "nat list"
  linkStopped :: "nat list"

definition newLink :: "transport_protocol \<Rightarrow> link" where
  "newLink proto = \<lparr>linkProtocol = proto, linkConn = None, linkConnected = False, linkOpened = [], linkStopped = []\<rparr>"

definition connectToHost :: "nat option \<Rightarrow> link \<Rightarrow> bool \<times> link" where
  "connectToHost dialled l =
     (if linkConnected l then (True, l)
      else if linkProtocol l \<noteq> Tcp \<and> linkProtocol l \<noteq> TcpSsl then (False, l)
      else (case dialled of None \<Rightarrow> (False, l\<lparr>linkConnected := False\<rparr>)
         | Some c \<Rightarrow> (True, l\<lparr>linkConn := Some c, linkConnected := True, linkOpened := linkOpened l @ [c]\<rparr>)))"

definition linkIsConnected :: "(nat \<Rightarrow> bool) \<Rightarrow> link \<Rightarrow> bool" where
  "linkIsConnected is_open l = (linkConnected l \<and> (case linkConn l of None \<Rightarrow> False | Some c \<Rightarrow> is_open c))"

definition stopCurrent :: "link \<Rightarrow> link" where
  "stopCurrent l = (case linkConn l of None \<Rightarrow> l | Some c \<Rightarrow> l\<lparr>linkStopped := linkStopped l @ [c]\<rparr>)"

definition reconnectLink :: "nat option \<Rightarrow> link \<Rightarrow> bool \<times> link" where
  "reconnectLink dialled l = connectToHost dialled ((stopCurrent l)\<lparr>linkConn := None, linkConnected := False\<rparr>)"

definition requestObjectOn :: "(nat \<Rightarrow> bool) \<Rightarrow> qstring \<Rightarrow> link \<Rightarrow> (qstring \<times> nat) option" where
  "requestObjectOn is_open name l =
     (if \<not> linkIsConnected is_open l then None
      else (case linkConn l of None \<Rightarrow> None | Some c \<Rightarrow> Some (name, c)))"

definition destroyLink :: "link \<Rightarrow> link" where
  "destroyLink l = stopCurrent l"

datatype link_op = Connect "nat option" | Reconnect "nat option"

fun link_step :: "link_op \<Rightarrow> link \<Rightarrow> link" where
  "link_step (Connect d) l = snd (connectToHost d l)"
| "link_step (Reconnect d) l = snd (reconnectLink d l)"

fun dialled_by :: "link_op \<Rightarrow> nat list" where
  "dialled_by (Connect d) = (case d of None \<Rightarrow> [] | Some c \<Rightarrow> [c])"
| "dialled_by (Reconnect d) = (case d of None \<Rightarrow> [] | Some c \<Rightarrow> [c])"

definition link_ok :: "link \<Rightarrow> bool" where
  "link_ok l = (linkConnected l = (linkConn l \<noteq> None) \<and>
     linkOpened l = linkStopped l @ (case linkConn l of None \<Rightarrow> [] | Some c \<Rightarrow> [c]))"

lemma link_ok_step: "link_ok l \<Longrightarrow> link_ok (link_step e l)"
  by (cases e) (auto simp: link_ok_def connectToHost_def reconnectLink_def stopCurrent_def split: option.splits)

lemma link_ok_run: "link_ok l \<Longrightarrow> link_ok (fold link_step es l)"
  by (induction es arbitrary: l) (auto intro: link_ok_step)

text \<open>
  A transport owns one connection at a time. After any sequence of connects and reconnects,
  every connection that was opened has been stopped, in the order of opening, except the one
  in use; objects are handed out on that one only, and only while it is open; and destroying
  the transport stops it.
\<close>

theorem one_connection_at_a_time:
  fixes es proto
  defines "l \<equiv> fold link_step es (newLink proto)"
  shows "linkOpened l = linkStopped l @ (case linkConn l of None \<Rightarrow> [] | Some c \<Rightarrow> [c]) \<and>
    linkStopped (destroyLink l) = linkOpened l \<and>
    requestObjectOn is_open name l =
      (case linkConn l of None \<Rightarrow> None | Some c \<Rightarrow> if is_open c then Some (name, c) else None)"
proof -
  have "link_ok l" unfolding l_def by (rule link_ok_run) (simp add: link_ok_def newLink_def)
  then show ?thesis
    by (auto simp: link_ok_def destroyLink_def stopCurrent_def requestObjectOn_def linkIsConnected_def split: option.splits)
qed

end
