(* ===== verification/Plain_Object.thy ===== *)
theory Plain_Object
  imports Plain_Host
begin

text \<open>
  \<open>cpp/implementations/plain/plain_logos_object.cpp\<close>: a handle on a remote object over the plain
  transport. Here are its parts, one definition per stretch of code that runs under a lock
  or between two: the shared call state with its parked completions, the wait of a
  synchronous call, event subscriptions, tokens, the choice of where a callback is delivered
  and the count of live references. \<open>Plain_Object_Calls\<close> interleaves the asynchronous calls.

  An asynchronous call is named by a number. A wait on a condition variable or a future ends
  when the environment says so; what the code does then is defined here.
\<close>

subsection \<open>The pending-call sentinel\<close>

text \<open>\<open>logos_async_dispatch.h\<close>.\<close>

definition pendingCallKey :: qstring where
  "pendingCallKey = ''__logos_pending_call__''"

definition callCompleteEvent :: qstring where
  "callCompleteEvent = ''__logos_call_complete__''"

definition held_string :: "'v qvariant option \<Rightarrow> qstring option" where
  "held_string v = (case v of Some (QString s) \<Rightarrow> Some s | _ \<Rightarrow> None)"

definition held_json_string :: "'v qjson option \<Rightarrow> qstring option" where
  "held_json_string v = (case v of Some (JString s) \<Rightarrow> Some s | _ \<Rightarrow> None)"

definition isPendingCallSentinel :: "'v qvariant \<Rightarrow> qstring option" where
  "isPendingCallSentinel v =
     (let candidate =
        (case v of
           QVariantMap m \<Rightarrow> if length m \<noteq> 1 then None else held_string (hash_find m pendingCallKey)
         | QJsonObject fs \<Rightarrow> if length fs \<noteq> 1 then None else held_json_string (hash_find fs pendingCallKey)
         | _ \<Rightarrow> None)
      in case candidate of None \<Rightarrow> None | Some i \<Rightarrow> if i = [] then None else Some i)"

subsection \<open>The call state\<close>

record 'v call_state =
  completions :: "(qstring, 'v qvariant) qhash"
  completionOrder :: "qstring list"
  syncOutstanding :: nat
  inflightCalls :: "(u64, nat) qhash"
  deferredCalls :: "(qstring, nat) qhash"
  stoppingFlag :: bool

definition newCallState :: "'v call_state" where
  "newCallState = \<lparr>completions = [], completionOrder = [], syncOutstanding = 0, inflightCalls = [],
     deferredCalls = [], stoppingFlag = False\<rparr>"

definition busy :: "'v call_state \<Rightarrow> bool" where
  "busy st = (0 < syncOutstanding st \<or> inflightCalls st \<noteq> [] \<or> deferredCalls st \<noteq> [])"

definition kParkedCompletionCap :: nat where
  "kParkedCompletionCap = 512"

function evictOldest :: "'v call_state \<Rightarrow> 'v call_state" where
  "evictOldest st = (case completionOrder st of [] \<Rightarrow> st
     | k # ks \<Rightarrow> if kParkedCompletionCap < length (k # ks)
                 then evictOldest (st\<lparr>completions := hash_remove k (completions st), completionOrder := ks\<rparr>)
                 else st)"
  by pat_completeness auto

termination
  by (relation "measure (\<lambda>st. length (completionOrder st))") auto

declare evictOldest.simps [simp del]

definition parkCompletion :: "qstring \<Rightarrow> 'v qvariant \<Rightarrow> 'v call_state \<Rightarrow> 'v call_state" where
  "parkCompletion callId v st =
     (if \<not> busy st then st
      else if hash_contains (completions st) callId
      then st\<lparr>completions := hash_insert callId v (completions st)\<rparr>
      else evictOldest (st\<lparr>completions := hash_insert callId v (completions st),
                          completionOrder := completionOrder st @ [callId]\<rparr>))"

definition takeCompletion :: "qstring \<Rightarrow> 'v call_state \<Rightarrow> 'v qvariant option \<times> 'v call_state" where
  "takeCompletion callId st = (case hash_find (completions st) callId of None \<Rightarrow> (None, st)
     | Some v \<Rightarrow> (Some v, st\<lparr>completions := hash_remove callId (completions st),
                            completionOrder := remove1 callId (completionOrder st)\<rparr>))"

definition dropUnclaimedIfIdle :: "'v call_state \<Rightarrow> 'v call_state" where
  "dropUnclaimedIfIdle st = (if busy st then st else st\<lparr>completions := [], completionOrder := []\<rparr>)"

text \<open>\<open>deliver\<close>, the part under the lock; the callId is empty unless the call was deferred.\<close>

definition leaveRegistries :: "u64 \<Rightarrow> qstring \<Rightarrow> 'v call_state \<Rightarrow> 'v call_state" where
  "leaveRegistries i callId st = dropUnclaimedIfIdle
     (st\<lparr>inflightCalls := hash_remove i (inflightCalls st),
         deferredCalls := (if callId = [] then deferredCalls st else hash_remove callId (deferredCalls st))\<rparr>)"

text \<open>The completion subscription's handler: the deferred call it resolves, or the completion
  parked; and the reply of a deferred call: an answer already parked, or the call filed.\<close>

definition completionArrives :: "qstring \<Rightarrow> 'v qvariant \<Rightarrow> 'v call_state \<Rightarrow> nat option \<times> 'v call_state" where
  "completionArrives callId v st = (case hash_find (deferredCalls st) callId of
       Some n \<Rightarrow> (Some n, st\<lparr>deferredCalls := hash_remove callId (deferredCalls st)\<rparr>)
     | None \<Rightarrow> (None, parkCompletion callId v st))"

datatype 'v filing = Buffered "'v qvariant" | Refused | Filed

definition fileDeferred :: "nat \<Rightarrow> qstring \<Rightarrow> 'v call_state \<Rightarrow> 'v filing \<times> 'v call_state" where
  "fileDeferred n callId st = (case takeCompletion callId st of
       (Some v, st') \<Rightarrow> (Buffered v, st')
     | (None, st') \<Rightarrow> if stoppingFlag st' then (Refused, st')
                     else (Filed, st'\<lparr>deferredCalls := hash_insert callId n (deferredCalls st')\<rparr>))"

definition registerInflight :: "u64 \<Rightarrow> nat \<Rightarrow> 'v call_state \<Rightarrow> bool \<times> 'v call_state" where
  "registerInflight i n st = (if stoppingFlag st then (False, st)
     else (True, st\<lparr>inflightCalls := (if hash_contains (inflightCalls st) i then inflightCalls st
                                     else hash_insert i n (inflightCalls st))\<rparr>))"

definition stopAndCancel :: "'v call_state \<Rightarrow> nat list \<times> 'v call_state" where
  "stopAndCancel st = (map snd (inflightCalls st), st\<lparr>stoppingFlag := True, inflightCalls := [], deferredCalls := [],
     completions := [], completionOrder := []\<rparr>)"

definition enterSync :: "'v call_state \<Rightarrow> 'v call_state" where
  "enterSync st = st\<lparr>syncOutstanding := Suc (syncOutstanding st)\<rparr>"

definition leaveSync :: "'v call_state \<Rightarrow> 'v call_state" where
  "leaveSync st = dropUnclaimedIfIdle (st\<lparr>syncOutstanding := syncOutstanding st - 1\<rparr>)"

subsection \<open>The wait for a completion\<close>

definition kDeferredFallbackMs :: int where
  "kDeferredFallbackMs = 30000"

definition effectiveMs :: "int \<Rightarrow> int" where
  "effectiveMs t = (if 0 < t then t else kDeferredFallbackMs)"

definition callErrorReleased :: "qstring \<Rightarrow> qstring \<Rightarrow> call_error" where
  "callErrorReleased obj m = callErrorTransport obj
     (''call to '' @ [CHR 0x27] @ obj @ ''.'' @ m @ [CHR 0x27] @
      '' was abandoned: the object was released while the call was in flight'')"

definition notOpenError :: "qstring \<Rightarrow> call_error" where
  "notOpenError obj = callErrorTransport obj (''connection to '' @ [CHR 0x27] @ obj @ [CHR 0x27] @ '' is not open'')"

text \<open>\<open>awaitCompletion\<close> once its wait has ended, by an answer, a stop or the deadline.\<close>

definition awaitCompletion ::
  "qstring \<Rightarrow> qstring \<Rightarrow> qstring \<Rightarrow> int \<Rightarrow> 'v call_state \<Rightarrow> ('v qvariant \<times> call_error) \<times> 'v call_state" where
  "awaitCompletion obj m callId t st = (case takeCompletion callId st of
       (Some v, st') \<Rightarrow> ((v, no_error), st')
     | (None, st') \<Rightarrow>
         if stoppingFlag st' then ((QInvalid, callErrorReleased obj m), st')
         else ((QInvalid, callErrorTimeout obj m (effectiveMs t)), st'))"

subsection \<open>Where a callback runs\<close>

datatype vehicle = QtLoop | DeliveryThread | Dropped

text \<open>\<open>postDelivery\<close>: whether an application exists now, and the latch that one has been seen.\<close>

definition postDelivery :: "bool \<Rightarrow> bool \<Rightarrow> vehicle \<times> bool" where
  "postDelivery app hadLoop =
     (if app then (QtLoop, True) else if hadLoop then (Dropped, hadLoop) else (DeliveryThread, hadLoop))"

subsection \<open>Events and tokens\<close>

text \<open>
  A handle: its own subscriptions, whether the completion channel has been subscribed to, the
  call state, and the connection, which other handles share. Each operation here runs between
  the operations others perform on that connection. Handlers and promises are names.
\<close>

record ('h, 'v) plain_object =
  subs :: "subscription_id list"
  completionSubscribed :: bool
  callState :: "'v call_state"
  connection :: "('h, 'v) rpc_peer"

definition newObject :: "('h, 'v) rpc_peer \<Rightarrow> ('h, 'v) plain_object" where
  "newObject p = \<lparr>subs = [], completionSubscribed = False, callState = newCallState, connection = p\<rparr>"

definition objectOnEvent ::
  "qstring \<Rightarrow> qstring \<Rightarrow> 'h option \<Rightarrow> ('h, 'v) plain_object \<Rightarrow> ('h, 'v) plain_object" where
  "objectOnEvent obj ev cb s = (case cb of None \<Rightarrow> s
     | Some h \<Rightarrow> if \<not> isOpen (connection s) then s
                else let (sid, p) = sendSubscribe \<lparr>sub_object = obj, sub_eventName = ev\<rparr> h (connection s)
                     in s\<lparr>subs := subs s @ [sid], connection := p\<rparr>)"

definition disconnectEvents :: "('h, 'v) plain_object \<Rightarrow> ('h, 'v) plain_object" where
  "disconnectEvents s = s\<lparr>subs := [], connection := fold sendUnsubscribe (subs s) (connection s)\<rparr>"

definition ensureCompletionSub :: "qstring \<Rightarrow> 'h \<Rightarrow> ('h, 'v) plain_object \<Rightarrow> ('h, 'v) plain_object" where
  "ensureCompletionSub obj onComplete s =
     (if completionSubscribed s then s
      else (objectOnEvent obj callCompleteEvent (Some onComplete) s)\<lparr>completionSubscribed := True\<rparr>)"

definition objectInformToken ::
  "qstring \<Rightarrow> qstring \<Rightarrow> qstring \<Rightarrow> ('h, 'v) plain_object \<Rightarrow> bool \<times> ('h, 'v) plain_object" where
  "objectInformToken auth moduleName token s =
     (if \<not> isOpen (connection s) then (False, s)
      else (True, s\<lparr>connection := sendToken \<lparr>tok_authToken = auth, tok_moduleName = moduleName, tok_token = token\<rparr>
                                   (connection s)\<rparr>))"

definition objectEmitEvent ::
  "('v qvariant list \<Rightarrow> 'v rpc_value list) \<Rightarrow> qstring \<Rightarrow> qstring \<Rightarrow> 'v qvariant list \<Rightarrow>
   ('h, 'v) plain_object \<Rightarrow> ('h, 'v) plain_object" where
  "objectEmitEvent toRpc obj ev data s =
     (if \<not> isOpen (connection s) then s
      else s\<lparr>connection := sendEvent \<lparr>evt_object = obj, evt_eventName = ev, evt_data = toRpc data\<rparr> (connection s)\<rparr>)"

text \<open>\<open>getMethods\<close>: \<open>meanwhile\<close> is what happens to the connection during the wait, \<open>None\<close> the five
  seconds running out.\<close>

definition objectGetMethods ::
  "(int \<Rightarrow> 'v) \<Rightarrow> qstring \<Rightarrow> 'h \<Rightarrow> 'v methods_result_message option \<Rightarrow>
   (('h, 'v) plain_object \<Rightarrow> ('h, 'v) plain_object) \<Rightarrow> ('h, 'v) plain_object \<Rightarrow> 'v qjson list \<times> ('h, 'v) plain_object" where
  "objectGetMethods of_int_v obj promise reply meanwhile s =
     (if \<not> isOpen (connection s) then ([], s)
      else let (i, p) = nextId (connection s);
               s1 = meanwhile (s\<lparr>connection := sendMethods \<lparr>mreq_id = i, mreq_authToken = [], mreq_object = obj\<rparr> promise p\<rparr>)
           in case reply of
                None \<Rightarrow> ([], s1\<lparr>connection := cancelPending i (connection s1)\<rparr>)
              | Some r \<Rightarrow> (if \<not> mres_ok r then [] else methodsToJsonArray of_int_v (mres_methods r), s1))"

subsection \<open>Synchronous calls\<close>

text \<open>
  \<open>callSync\<close>. The environment is what the future held when the wait ended (\<open>None\<close> when the time
  was up) and what other threads did to the handle and its connection during the wait for the
  reply (\<open>before\<close>) and the wait for a completion (\<open>meanwhile\<close>).
\<close>

definition callMessage ::
  "qstring \<Rightarrow> ('v qvariant list \<Rightarrow> 'v rpc_value list) \<Rightarrow> qstring \<Rightarrow> qstring \<Rightarrow> qstring \<Rightarrow> 'v qvariant list \<Rightarrow> u64 \<Rightarrow>
   'v call_message" where
  "callMessage obj toRpc caller auth m args i =
     \<lparr>call_id = i, call_authToken = auth, call_object = obj, call_method = m, call_args = toRpc args, call_caller = caller\<rparr>"

definition onCallState :: "('v call_state \<Rightarrow> 'v call_state) \<Rightarrow> ('h, 'v) plain_object \<Rightarrow> ('h, 'v) plain_object" where
  "onCallState f s = s\<lparr>callState := f (callState s)\<rparr>"

definition syncOutcome ::
  "qstring \<Rightarrow> qstring \<Rightarrow> int \<Rightarrow> u64 \<Rightarrow> 'v result_message option \<Rightarrow> (('h, 'v) plain_object \<Rightarrow> ('h, 'v) plain_object) \<Rightarrow>
   ('h, 'v) plain_object \<Rightarrow> ('v qvariant \<times> call_error) \<times> ('h, 'v) plain_object" where
  "syncOutcome obj m t i reply meanwhile s = (case reply of
       None \<Rightarrow> ((QInvalid, callErrorTimeout obj m t), s\<lparr>connection := cancelPending i (connection s)\<rparr>)
     | Some r \<Rightarrow>
         if \<not> res_ok r then ((QInvalid, callErrorFromWire obj (res_errCode r) (res_err r)), s)
         else let v = rpcValueToQVariant (res_value r)
              in (case isPendingCallSentinel v of
                    None \<Rightarrow> ((v, no_error), s)
                  | Some callId \<Rightarrow>
                      let s1 = meanwhile s; (res, st) = awaitCompletion obj m callId t (callState s1)
                      in (res, s1\<lparr>callState := st\<rparr>)))"

definition callSync ::
  "qstring \<Rightarrow> ('v qvariant list \<Rightarrow> 'v rpc_value list) \<Rightarrow> 'h \<Rightarrow> 'h \<Rightarrow> qstring \<Rightarrow> qstring \<Rightarrow> qstring \<Rightarrow> 'v qvariant list \<Rightarrow> int \<Rightarrow>
   'v result_message option \<Rightarrow> (('h, 'v) plain_object \<Rightarrow> ('h, 'v) plain_object) \<Rightarrow>
   (('h, 'v) plain_object \<Rightarrow> ('h, 'v) plain_object) \<Rightarrow>
   ('h, 'v) plain_object \<Rightarrow> ('v qvariant \<times> call_error) \<times> ('h, 'v) plain_object" where
  "callSync obj toRpc onComplete promise caller auth m args t reply before meanwhile s =
     (if \<not> isOpen (connection s) then ((QInvalid, notOpenError obj), s)
      else let s1 = onCallState enterSync (ensureCompletionSub obj onComplete s);
               (i, p) = nextId (connection s1);
               s2 = s1\<lparr>connection := sendCallAsync (callMessage obj toRpc caller auth m args i) (Some promise) p\<rparr>;
               (res, s3) = syncOutcome obj m t i reply meanwhile (before s2)
           in (res, onCallState leaveSync s3))"

text \<open>\<open>release\<close> without its reference count: the calls it cancels, and what is left behind.\<close>

definition tearDown :: "('h, 'v) plain_object \<Rightarrow> nat list \<times> ('h, 'v) plain_object" where
  "tearDown s = (let s1 = disconnectEvents s; (calls, st) = stopAndCancel (callState s1) in (calls, s1\<lparr>callState := st\<rparr>))"

subsection \<open>The parked completions\<close>

text \<open>The map and the order of arrival name the same callIds, once each, and at most 512.\<close>

definition parked_ok :: "'v call_state \<Rightarrow> bool" where
  "parked_ok st = (hash_wf (completions st) \<and> distinct (completionOrder st) \<and>
     set (completionOrder st) = set (hash_keys (completions st)) \<and> length (completionOrder st) \<le> kParkedCompletionCap)"

lemma evict_nothing: "length (completionOrder st) \<le> kParkedCompletionCap \<Longrightarrow> evictOldest st = st"
  by (subst evictOldest.simps) (auto split: list.split)

lemma evict_frame:
  "syncOutstanding (evictOldest st) = syncOutstanding st \<and> inflightCalls (evictOldest st) = inflightCalls st \<and>
   deferredCalls (evictOldest st) = deferredCalls st \<and> stoppingFlag (evictOldest st) = stoppingFlag st"
proof (induction st rule: evictOldest.induct)
  case (1 st)
  then show ?case by (subst (1 2 3 4) evictOldest.simps) (auto split: list.split)
qed

lemmas evictOldest_other [simp] = evict_frame[THEN conjunct1] evict_frame[THEN conjunct2, THEN conjunct1]
  evict_frame[THEN conjunct2, THEN conjunct2, THEN conjunct1] evict_frame[THEN conjunct2, THEN conjunct2, THEN conjunct2]

lemma set_hash_keys_remove [simp]: "set (hash_keys (hash_remove k m)) = set (hash_keys m) - {k}"
  by (auto simp: set_hash_keys)

lemma parked_ok_evict:
  "hash_wf (completions st) \<Longrightarrow> distinct (completionOrder st) \<Longrightarrow> set (completionOrder st) = set (hash_keys (completions st)) \<Longrightarrow>
   parked_ok (evictOldest st)"
proof (induction st rule: evictOldest.induct)
  case (1 st)
  show ?case
  proof (cases "completionOrder st")
    case Nil
    with 1 show ?thesis by (subst evictOldest.simps) (simp add: parked_ok_def)
  next
    case (Cons k ks)
    show ?thesis
    proof (cases "kParkedCompletionCap < length (k # ks)")
      case True
      have "parked_ok (evictOldest (st\<lparr>completions := hash_remove k (completions st), completionOrder := ks\<rparr>))"
        by (rule "1.IH"[OF Cons True]) (use "1.prems" Cons in auto)
      with Cons True show ?thesis by (subst evictOldest.simps) simp
    next
      case False
      with 1 Cons show ?thesis by (subst evictOldest.simps) (simp add: parked_ok_def)
    qed
  qed
qed

lemma parked_ok_park: "parked_ok st \<Longrightarrow> parked_ok (parkCompletion callId v st)"
proof (cases "hash_contains (completions st) callId")
  case True
  then show "parked_ok st \<Longrightarrow> ?thesis"
    by (auto simp: parkCompletion_def parked_ok_def set_hash_keys)
next
  case False
  assume ok: "parked_ok st"
  let ?s = "st\<lparr>completions := hash_insert callId v (completions st), completionOrder := completionOrder st @ [callId]\<rparr>"
  have "parked_ok (evictOldest ?s)"
    by (rule parked_ok_evict) (use ok False in \<open>auto simp: parked_ok_def set_hash_keys\<close>)
  with ok False show ?thesis by (simp add: parkCompletion_def)
qed

lemma parked_ok_take: "parked_ok st \<Longrightarrow> parked_ok (snd (takeCompletion callId st))"
  by (auto simp: takeCompletion_def parked_ok_def length_remove1 split: option.split)

lemma parked_ok_frame:
  "completions st' = completions st \<Longrightarrow> completionOrder st' = completionOrder st \<Longrightarrow> parked_ok st' = parked_ok st"
  by (simp add: parked_ok_def)

lemma parked_ok_drop: "parked_ok st \<Longrightarrow> parked_ok (dropUnclaimedIfIdle st)"
  by (simp add: dropUnclaimedIfIdle_def parked_ok_def hash_keys_def)

subsection \<open>A completion that overtakes its reply\<close>

text \<open>What any thread does to the shared state of a handle.\<close>

datatype 'v state_op =
  SArrive qstring "'v qvariant"
| STake qstring
| SLeave u64 qstring
| SFile nat qstring
| SRegister u64 nat
| SEnter
| SExit
| SStop

fun state_step :: "'v state_op \<Rightarrow> 'v call_state \<Rightarrow> 'v call_state" where
  "state_step (SArrive callId v) st = snd (completionArrives callId v st)"
| "state_step (STake callId) st = snd (takeCompletion callId st)"
| "state_step (SLeave i callId) st = leaveRegistries i callId st"
| "state_step (SFile n callId) st = snd (fileDeferred n callId st)"
| "state_step (SRegister i n) st = snd (registerInflight i n st)"
| "state_step SEnter st = enterSync st"
| "state_step SExit st = leaveSync st"
| "state_step SStop st = snd (stopAndCancel st)"

lemma parked_ok_step: "parked_ok st \<Longrightarrow> parked_ok (state_step e st)"
proof (induction e st rule: state_step.induct)
  case (1 callId v st)
  then show ?case
    by (auto simp: completionArrives_def parked_ok_park split: option.split) (simp add: parked_ok_def)
next
  case (3 i callId st)
  then show ?case unfolding state_step.simps leaveRegistries_def by (intro parked_ok_drop) (simp add: parked_ok_def)
next
  case (4 n callId st)
  then show ?case
    using parked_ok_take[of st callId] by (auto simp: fileDeferred_def parked_ok_def split: prod.split option.split)
next
  case (7 st)
  then show ?case unfolding state_step.simps leaveSync_def by (intro parked_ok_drop) (simp add: parked_ok_def)
next
  case (8 st)
  then show ?case by (simp add: stopAndCancel_def parked_ok_def hash_keys_def)
next
  case (2 callId st)
  then show ?case by (simp add: parked_ok_take)
qed (auto simp: registerInflight_def enterSync_def parked_ok_def)

text \<open>A parked completion with at most so many behind it.\<close>

definition parked_within :: "nat \<Rightarrow> qstring \<Rightarrow> 'v qvariant \<Rightarrow> 'v call_state \<Rightarrow> bool" where
  "parked_within n callId v st = (hash_find (completions st) callId = Some v \<and>
     (\<exists>xs ys. completionOrder st = xs @ callId # ys \<and> length ys \<le> n))"

text \<open>Operations under which a completion stays parked: none takes it, replaces it or stops the
  handle, and a synchronous call is outstanding throughout.\<close>

fun leaves_parked :: "qstring \<Rightarrow> 'v state_op \<Rightarrow> bool" where
  "leaves_parked callId (SArrive c v) = (c \<noteq> callId)"
| "leaves_parked callId (STake c) = (c \<noteq> callId)"
| "leaves_parked callId (SFile n c) = (c \<noteq> callId)"
| "leaves_parked callId SStop = False"
| "leaves_parked callId _ = True"

fun keeps_parked :: "qstring \<Rightarrow> 'v state_op list \<Rightarrow> 'v call_state \<Rightarrow> bool" where
  "keeps_parked callId [] st = (0 < syncOutstanding st)"
| "keeps_parked callId (e # es) st =
     (0 < syncOutstanding st \<and> leaves_parked callId e \<and> keeps_parked callId es (state_step e st))"

fun arrivals :: "'v state_op list \<Rightarrow> nat" where
  "arrivals [] = 0"
| "arrivals (SArrive c v # es) = Suc (arrivals es)"
| "arrivals (_ # es) = arrivals es"

lemma evict_keeps:
  assumes "completionOrder st = xs @ callId # ys" and "length ys < kParkedCompletionCap" and "distinct (completionOrder st)"
    and "hash_find (completions st) callId = Some v"
  shows "\<exists>zs. completionOrder (evictOldest st) = zs @ callId # ys \<and> hash_find (completions (evictOldest st)) callId = Some v"
  using assms
proof (induction st arbitrary: xs rule: evictOldest.induct)
  case (1 st)
  show ?case
  proof (cases "kParkedCompletionCap < length (completionOrder st)")
    case True
    with "1.prems" obtain k xs' where xs: "xs = k # xs'" by (cases xs) auto
    with "1.prems" have o1: "completionOrder st = k # xs' @ callId # ys" "k \<noteq> callId" by auto
    then have "\<exists>zs. completionOrder (evictOldest (st\<lparr>completions := hash_remove k (completions st), completionOrder := xs' @ callId # ys\<rparr>))
        = zs @ callId # ys \<and>
      hash_find (completions (evictOldest (st\<lparr>completions := hash_remove k (completions st), completionOrder := xs' @ callId # ys\<rparr>))) callId = Some v"
      by (intro "1.IH") (use "1.prems" True in auto)
    with o1 True show ?thesis by (subst (1 2) evictOldest.simps) simp
  next
    case False
    with "1.prems" show ?thesis by (simp add: evict_nothing)
  qed
qed

lemma order_suffix: "length ys \<le> n \<Longrightarrow> \<exists>xs' ys'. xs @ k # ys = xs' @ k # ys' \<and> length ys' \<le> n"
  by blast

lemma parked_within_frame:
  "completions st' = completions st \<Longrightarrow> completionOrder st' = completionOrder st \<Longrightarrow> n \<le> m \<Longrightarrow>
   parked_within n callId v st \<Longrightarrow> parked_within m callId v st'"
  by (auto simp: parked_within_def intro!: order_suffix)

lemma parked_within_park:
  assumes "parked_within n callId v st" and "parked_ok st" and "Suc n < kParkedCompletionCap" and "0 < syncOutstanding st"
    and "c \<noteq> callId"
  shows "parked_within (Suc n) callId v (parkCompletion c w st)"
proof -
  obtain xs ys where o1: "completionOrder st = xs @ callId # ys" "length ys \<le> n" "hash_find (completions st) callId = Some v"
    using assms(1) by (auto simp: parked_within_def)
  show ?thesis
  proof (cases "hash_contains (completions st) c")
    case True
    with o1 assms(4,5) show ?thesis
      using order_suffix[of ys "Suc n" xs callId] by (simp add: parkCompletion_def busy_def parked_within_def)
  next
    case False
    let ?s = "st\<lparr>completions := hash_insert c w (completions st), completionOrder := completionOrder st @ [c]\<rparr>"
    have "c \<notin> set (completionOrder st)" using False assms(2) by (simp add: parked_ok_def set_hash_keys)
    moreover have "distinct (completionOrder st)" using assms(2) by (simp add: parked_ok_def)
    moreover have "length (ys @ [c]) < kParkedCompletionCap" using assms(3) o1(2) by simp
    ultimately obtain zs where z: "completionOrder (evictOldest ?s) = zs @ callId # (ys @ [c])"
        "hash_find (completions (evictOldest ?s)) callId = Some v"
      using evict_keeps[of ?s xs callId "ys @ [c]" v] o1 assms(5) by auto
    with False assms(4) o1(2) show ?thesis
      using order_suffix[of "ys @ [c]" "Suc n" zs callId] by (simp add: parkCompletion_def busy_def parked_within_def)
  qed
qed

lemma parked_within_take:
  assumes "parked_within n callId v st" and "parked_ok st" and "c \<noteq> callId"
  shows "parked_within n callId v (snd (takeCompletion c st))"
proof -
  obtain xs ys where o1: "completionOrder st = xs @ callId # ys" "length ys \<le> n" "hash_find (completions st) callId = Some v"
    using assms(1) by (auto simp: parked_within_def)
  have "\<exists>xs' ys'. remove1 c (xs @ callId # ys) = xs' @ callId # ys' \<and> length ys' \<le> n"
  proof (cases "c \<in> set xs")
    case True
    then have "remove1 c (xs @ callId # ys) = remove1 c xs @ callId # ys" by (simp add: remove1_append)
    with o1(2) show ?thesis by blast
  next
    case False
    then have "remove1 c (xs @ callId # ys) = xs @ callId # remove1 c ys" using assms(3) by (simp add: remove1_append)
    moreover have "length (remove1 c ys) \<le> n" using o1(2) by (auto simp: length_remove1)
    ultimately show ?thesis by blast
  qed
  with o1 assms(3) show ?thesis
    by (auto simp: takeCompletion_def parked_within_def order_suffix split: option.split)
qed

lemma not_idle: "0 < syncOutstanding s \<Longrightarrow> dropUnclaimedIfIdle s = s"
  by (simp add: dropUnclaimedIfIdle_def busy_def)

lemma parked_within_step:
  assumes within: "parked_within n callId v st" and ok: "parked_ok st" and n: "n + arrivals [e] < kParkedCompletionCap"
    and now: "0 < syncOutstanding st" and later: "0 < syncOutstanding (state_step e st)" and e: "leaves_parked callId e"
  shows "parked_within (n + arrivals [e]) callId v (state_step e st)"
proof (cases e)
  case (SArrive c w)
  then have "parked_within (Suc n) callId v (parkCompletion c w st)"
    using parked_within_park[OF within ok _ now] n e by simp
  with SArrive within show ?thesis
    by (auto simp: completionArrives_def split: option.split intro: parked_within_frame[OF _ _ _ within])
next
  case (STake c)
  with parked_within_take[OF within ok, of c] e show ?thesis by simp
next
  case (SLeave i c)
  with now show ?thesis by (simp add: leaveRegistries_def not_idle parked_within_frame[OF _ _ _ within])
next
  case (SFile m c)
  with parked_within_take[OF within ok, of c] e have "parked_within n callId v (snd (takeCompletion c st))" by simp
  from parked_within_frame[OF _ _ le_refl this] this SFile show ?thesis
    by (cases "takeCompletion c st") (auto simp: fileDeferred_def split: option.split)
next
  case SExit
  with later have "0 < syncOutstanding (st\<lparr>syncOutstanding := syncOutstanding st - 1\<rparr>)"
    by (auto simp: leaveSync_def dropUnclaimedIfIdle_def split: if_splits)
  then show ?thesis using SExit by (simp add: leaveSync_def not_idle parked_within_frame[OF _ _ _ within])
qed (use e in \<open>auto simp: registerInflight_def enterSync_def intro: parked_within_frame[OF _ _ _ within]\<close>)

lemma parked_within_steps:
  assumes "parked_within n callId v st" and "parked_ok st" and "n + arrivals es < kParkedCompletionCap" and "keeps_parked callId es st"
  shows "parked_within (n + arrivals es) callId v (fold state_step es st)"
  using assms
proof (induction es arbitrary: n st)
  case (Cons e es)
  have pos: "0 < syncOutstanding (state_step e st)" using Cons.prems(4) by (cases es) auto
  have n: "n + arrivals (e # es) = n + arrivals [e] + arrivals es" by (cases e) auto
  have "parked_within (n + arrivals [e]) callId v (state_step e st)"
    by (rule parked_within_step) (use Cons.prems pos n in auto)
  from Cons.IH[OF this parked_ok_step] Cons.prems n show ?case by (simp add: add.assoc)
qed simp

text \<open>
  C7: A completion that arrives before the reply it belongs to, or before its caller waits, is
  what the synchronous caller gets, and no error: whatever the other threads of the handle do in
  between, unless they stop it, claim that very callId or bring 512 further completions.
\<close>

theorem early_completion_is_found:
  assumes "parked_ok st" and "hash_find (deferredCalls st) callId = None" and "\<not> hash_contains (completions st) callId"
    and "0 < syncOutstanding st" and "keeps_parked callId es (snd (completionArrives callId v st))"
    and "arrivals es < kParkedCompletionCap"
  shows "fst (awaitCompletion obj m callId t (fold state_step es (snd (completionArrives callId v st)))) = (v, no_error)"
proof -
  let ?s = "st\<lparr>completions := hash_insert callId v (completions st), completionOrder := completionOrder st @ [callId]\<rparr>"
  let ?st = "snd (completionArrives callId v st)"
  have st: "?st = evictOldest ?s" using assms(2-4) by (simp add: completionArrives_def parkCompletion_def busy_def)
  have "callId \<notin> set (completionOrder st)" using assms(1,3) by (simp add: parked_ok_def set_hash_keys)
  then obtain zs where "completionOrder ?st = zs @ callId # []" "hash_find (completions ?st) callId = Some v"
    using evict_keeps[of ?s "completionOrder st" callId "[]" v] assms(1) by (auto simp: st parked_ok_def kParkedCompletionCap_def)
  then have "parked_within 0 callId v ?st" by (simp add: parked_within_def)
  moreover have "parked_ok ?st" using parked_ok_step[OF assms(1), of "SArrive callId v"] by simp
  ultimately have "parked_within (0 + arrivals es) callId v (fold state_step es ?st)"
    by (rule parked_within_steps) (use assms(5,6) in auto)
  then show ?thesis by (simp add: parked_within_def awaitCompletion_def takeCompletion_def)
qed

theorem early_completion_is_found_witness:
  "fst (awaitCompletion ''o'' ''m'' ''7'' 0 (fold state_step [SArrive ''8'' QInvalid, SLeave 3 []]
     (snd (completionArrives ''7'' (QBool True :: unit qvariant) (enterSync newCallState))))) = (QBool True, no_error)"
  by (rule early_completion_is_found) code_simp+

subsection \<open>Leaving the connection\<close>

lemma subscribers_after_unsubscribe:
  assumes inv: "subs_inv n p"
  shows "subscribers ek (sendUnsubscribe sid p) = filter (\<lambda>s. fst s \<noteq> sid) (subscribers ek p)"
proof (cases "hash_find (subKeys p) sid")
  case None
  with inv have "sid \<notin> fst ` set (subscribers ek p)" unfolding subs_inv_def by (metis option.distinct(1))
  then have "filter (\<lambda>s. fst s \<noteq> sid) (subscribers ek p) = subscribers ek p" by (auto simp: filter_id_conv)
  with None show ?thesis by (simp add: sendUnsubscribe_def)
next
  case (Some k)
  have iff: "hash_find (subKeys p) s = Some k' \<longleftrightarrow> s \<in> fst ` set (subscribers k' p)" for s k'
    using inv unfolding subs_inv_def by blast
  then have "sid \<in> fst ` set (subscribers k p)" using Some by blast
  then obtain subs where found: "hash_find (eventSubs p) k = Some subs" and subs: "subscribers k p = subs"
    by (cases "hash_find (eventSubs p) k") (auto simp: subscribers_def)
  show ?thesis
  proof (cases "ek = k")
    case True
    then show ?thesis using subs by (simp add: sendUnsubscribe_def Some found Let_def subscribers_def)
  next
    case False
    with iff[of sid ek] Some have "sid \<notin> fst ` set (subscribers ek p)" by simp
    then have "filter (\<lambda>s. fst s \<noteq> sid) (subscribers ek p) = subscribers ek p" by (auto simp: filter_id_conv)
    with False show ?thesis by (simp add: sendUnsubscribe_def Some found Let_def subscribers_def)
  qed
qed

lemma subscribers_after_disconnect:
  "subs_inv n p \<Longrightarrow>
   subs_inv n (fold sendUnsubscribe sids p) \<and>
   subscribers ek (fold sendUnsubscribe sids p) = filter (\<lambda>s. fst s \<notin> set sids) (subscribers ek p)"
proof (induction sids arbitrary: p)
  case (Cons sid sids)
  from Cons.IH[OF subs_inv_unsubscribe[OF Cons.prems]] subscribers_after_unsubscribe[OF Cons.prems]
  show ?case by (simp add: conj_commute)
qed simp

text \<open>
  Releasing a handle, or disconnecting its events, withdraws exactly its own subscriptions
  from the shared connection: every other handle keeps its own in their order, and what the remote
  host has been told to send is what the remaining handles want.
\<close>

theorem disconnect_withdraws_own_subscriptions:
  assumes "subs_inv n (connection s)"
  shows "subs (disconnectEvents s) = [] \<and>
    subscribers ek (connection (disconnectEvents s)) = filter (\<lambda>e. fst e \<notin> set (subs s)) (subscribers ek (connection s)) \<and>
    (ek \<in> host_view (connection (disconnectEvents s)) \<longleftrightarrow> (\<exists>e \<in> set (subscribers ek (connection s)). fst e \<notin> set (subs s)))"
proof -
  let ?q = "connection (disconnectEvents s)"
  have q: "?q = fold sendUnsubscribe (subs s) (connection s)" by (simp add: disconnectEvents_def)
  have after: "subs_inv n ?q" "subscribers ek ?q = filter (\<lambda>e. fst e \<notin> set (subs s)) (subscribers ek (connection s))"
    unfolding q using subscribers_after_disconnect[OF assms, of "subs s" ek] by blast+
  have "ek \<in> host_view ?q \<longleftrightarrow> subscribers ek ?q \<noteq> []" using after(1) unfolding subs_inv_def by blast
  then show ?thesis unfolding after(2) by (auto simp: disconnectEvents_def filter_empty_conv)
qed

definition listening :: "(bool, unit) plain_object" where
  "listening = objectOnEvent ''o'' ''e'' (Some True) (newObject (newPeer True))"

theorem disconnect_withdraws_own_subscriptions_witness:
  "(''o'', ''e'') \<in> host_view (connection listening) \<and> (''o'', ''e'') \<notin> host_view (connection (disconnectEvents listening))"
proof -
  let ?m = "\<lparr>sub_object = ''o'', sub_eventName = ''e''\<rparr>"
  have "connection listening = snd (sendSubscribe ?m True (newPeer True))" by code_simp
  then have inv: "subs_inv (Suc 0) (connection listening)" using subs_inv_subscribe[OF subs_inv_new] by simp
  have "\<not> (\<exists>e \<in> set (subscribers (''o'', ''e'') (connection listening)). fst e \<notin> set (subs listening))" by code_simp
  moreover have "(''o'', ''e'') \<in> host_view (connection listening)" by code_simp
  ultimately show ?thesis using disconnect_withdraws_own_subscriptions[OF inv, of "(''o'', ''e'')"] by blast
qed

subsection \<open>Tokens told through a handle\<close>

text \<open>
  A token told through a handle does not say which object the handle is for. When the host
  publishes nothing under the name of the module the token belongs to, the object published under
  the first name is told, whichever object the handle was requested for.
\<close>

theorem token_ignores_its_object:
  assumes "isOpen (connection s)" and "published h = (name, (o1, hook)) # rest" and "map_of (published h) moduleName = None"
  shows "\<exists>msg. fst (objectInformToken auth moduleName token s) \<and>
    outputs (connection (snd (objectInformToken auth moduleName token s))) = outputs (connection s) @ [Emit (TokenMsg msg)] \<and>
    onToken msg h = h\<lparr>posted := posted h @ [(o1, TokenTask auth moduleName token)]\<rparr>"
proof -
  have "moduleName \<noteq> name" "map_of rest moduleName = None" using assms(2,3) by (auto split: if_splits)
  with assms(1,2) show ?thesis
    by (auto simp: objectInformToken_def sendToken_def out_def onToken_def tokenTarget_def)
qed

definition two_objects :: "(nat, nat, unit) plain_host" where
  "two_objects = (newHost Tcp)\<lparr>published := [(''alpha'', (1, 0)), (''beta'', (2, 1))]\<rparr>"

theorem token_ignores_its_object_witness:
  "posted (onToken \<lparr>tok_authToken = ''a'', tok_moduleName = ''peer'', tok_token = ''t''\<rparr> two_objects)
   = [(1, TokenTask ''a'' ''peer'' ''t'')]"
proof -
  let ?s = "newObject (newPeer True) :: (bool, unit) plain_object"
  have "isOpen (connection ?s)" "published two_objects = (''alpha'', (1, 0)) # [(''beta'', (2, 1))]"
    "map_of (published two_objects) ''peer'' = None" "posted two_objects = []"
    by (simp_all add: newObject_def isOpen_def newPeer_def two_objects_def newHost_def)
  with token_ignores_its_object[of ?s two_objects "''alpha''" 1 0 _ "''peer''" "''a''" "''t''"] show ?thesis
    by (auto simp: objectInformToken_def sendToken_def out_def)
qed

subsection \<open>The live-reference count\<close>

text \<open>
  \<open>EntryGuard\<close> and \<open>release\<close>: the count that decides who deletes the object, the detector's
  count of callers inside, and how often the object was deleted. \<open>misused\<close> records an access to
  the object after its deletion, \<open>reports\<close> what the detector printed.
\<close>

record object_life =
  liveRefs :: int
  callsInFlight :: int
  releasedFlag :: bool
  deletions :: nat
  misused :: bool
  reports :: nat

definition newLife :: object_life where
  "newLife = \<lparr>liveRefs = 1, callsInFlight = 0, releasedFlag = False, deletions = 0, misused = False, reports = 0\<rparr>"

definition touch :: "object_life \<Rightarrow> object_life" where
  "touch l = (if 0 < deletions l then l\<lparr>misused := True\<rparr> else l)"

text \<open>\<open>~PlainLogosObject\<close> on a thread that is \<open>depth\<close> frames deep in entry points.\<close>

definition destroyObject :: "int \<Rightarrow> object_life \<Rightarrow> object_life" where
  "destroyObject depth l =
     (let l1 = (if callsInFlight l - depth \<le> 0 then l else l\<lparr>reports := Suc (reports l)\<rparr>)
      in l1\<lparr>deletions := Suc (deletions l1)\<rparr>)"

definition dropReference :: "int \<Rightarrow> object_life \<Rightarrow> object_life" where
  "dropReference depth l =
     (let l1 = (touch l)\<lparr>liveRefs := liveRefs l - 1\<rparr>
      in if liveRefs l = 1 then destroyObject depth l1 else l1)"

definition guardEnter :: "int \<Rightarrow> object_life \<Rightarrow> object_life" where
  "guardEnter depth l =
     (let l1 = (touch l)\<lparr>liveRefs := liveRefs l + 1, callsInFlight := callsInFlight l + 1\<rparr>
      in if depth + 1 = 1 \<and> releasedFlag l1 then l1\<lparr>reports := Suc (reports l1)\<rparr> else l1)"

definition guardLeaveCount :: "object_life \<Rightarrow> object_life" where
  "guardLeaveCount l = (touch l)\<lparr>callsInFlight := callsInFlight l - 1\<rparr>"

definition releaseFlag :: "object_life \<Rightarrow> object_life" where
  "releaseFlag l = (touch l)\<lparr>releasedFlag := True\<rparr>"

text \<open>
  Threads by number, up to a bound. Each has entered some number of frames it has not yet left,
  and may be between the two decrements of \<open>~EntryGuard\<close>. One thread releases, outside its own
  frames or within them; \<open>owner\<close> says how far it is.
\<close>

datatype owner_at = Owned | Releasing | Dropped_ref

record life_system =
  life :: object_life
  frames :: "nat \<Rightarrow> nat"
  leaving :: "nat \<Rightarrow> nat"
  owner :: owner_at

definition newLifeSystem :: life_system where
  "newLifeSystem = \<lparr>life = newLife, frames = (\<lambda>_. 0), leaving = (\<lambda>_. 0), owner = Owned\<rparr>"

text \<open>A fresh call starts only while the owner holds the object; a nested one when its thread is
  inside.\<close>

inductive life_step :: "nat \<Rightarrow> life_system \<Rightarrow> life_system \<Rightarrow> bool" for N where
  enter: "i < N \<Longrightarrow> owner s = Owned \<or> 0 < frames s i \<Longrightarrow> leaving s i = 0 \<Longrightarrow>
    life_step N s (s\<lparr>life := guardEnter (int (frames s i)) (life s), frames := (frames s)(i := Suc (frames s i))\<rparr>)"
| leave_count: "i < N \<Longrightarrow> 0 < frames s i \<Longrightarrow> leaving s i = 0 \<Longrightarrow>
    life_step N s (s\<lparr>life := guardLeaveCount (life s), frames := (frames s)(i := frames s i - 1), leaving := (leaving s)(i := 1)\<rparr>)"
| leave_drop: "i < N \<Longrightarrow> leaving s i = 1 \<Longrightarrow>
    life_step N s (s\<lparr>life := dropReference (int (frames s i)) (life s), leaving := (leaving s)(i := 0)\<rparr>)"
| release_flag: "owner s = Owned \<Longrightarrow> life_step N s (s\<lparr>life := releaseFlag (life s), owner := Releasing\<rparr>)"
| release_drop: "i < N \<Longrightarrow> owner s = Releasing \<Longrightarrow>
    life_step N s (s\<lparr>life := dropReference (int (frames s i)) (life s), owner := Dropped_ref\<rparr>)"

inductive life_reachable :: "nat \<Rightarrow> life_system \<Rightarrow> bool" for N where
  fresh_handle: "life_reachable N newLifeSystem"
| after_step: "life_reachable N s \<Longrightarrow> life_step N s s' \<Longrightarrow> life_reachable N s'"

text \<open>The count is one for the owner and one per frame entered and not yet dropped.\<close>

definition total :: "nat \<Rightarrow> (nat \<Rightarrow> nat) \<Rightarrow> nat" where
  "total N f = (\<Sum>i<N. f i)"

definition life_inv :: "nat \<Rightarrow> life_system \<Rightarrow> bool" where
  "life_inv N s =
     (liveRefs (life s) = (if owner s = Dropped_ref then 0 else 1) + int (total N (frames s)) + int (total N (leaving s)) \<and>
      callsInFlight (life s) = int (total N (frames s)) \<and>
      deletions (life s) = (if liveRefs (life s) = 0 then 1 else 0) \<and> \<not> misused (life s) \<and> reports (life s) = 0 \<and>
      (releasedFlag (life s) \<longleftrightarrow> owner s \<noteq> Owned))"

lemma total_update: "i < N \<Longrightarrow> total N (f(i := x)) + f i = total N f + x"
proof -
  assume "i < N"
  then have "(\<Sum>j<N. g j) = g i + (\<Sum>j\<in>{..<N} - {i}. g j)" for g :: "nat \<Rightarrow> nat"
    by (intro sum.remove) auto
  from this[of f] this[of "f(i := x)"] show ?thesis by (simp add: total_def)
qed

lemma total_member: "i < N \<Longrightarrow> f i \<le> total N f"
  unfolding total_def by (intro member_le_sum) auto

lemma total_zero [simp]: "total N f = 0 \<longleftrightarrow> (\<forall>i<N. f i = 0)"
  by (auto simp: total_def)

lemma inside_keeps_object:
  assumes "life_inv N s" and "i < N" and "0 < frames s i \<or> 0 < leaving s i \<or> owner s \<noteq> Dropped_ref"
  shows "0 < liveRefs (life s) \<and> deletions (life s) = 0"
  using assms total_member[OF assms(2), of "frames s"] total_member[OF assms(2), of "leaving s"]
  by (auto simp: life_inv_def simp del: total_zero split: if_splits)

lemma life_inv_step: "life_step N s s' \<Longrightarrow> life_inv N s \<Longrightarrow> life_inv N s'"
proof (induction rule: life_step.induct)
  case (enter i s)
  then have pos: "0 < liveRefs (life s) \<and> deletions (life s) = 0" by (intro inside_keeps_object[of N s i]) auto
  have "total N ((frames s)(i := Suc (frames s i))) = Suc (total N (frames s))"
    using total_update[OF enter(1), of "frames s" "Suc (frames s i)"] by simp
  with enter pos show ?case by (auto simp: life_inv_def guardEnter_def touch_def Let_def simp del: total_zero)
next
  case (leave_count i s)
  then have pos: "0 < liveRefs (life s) \<and> deletions (life s) = 0" by (intro inside_keeps_object[of N s i]) auto
  have "Suc (total N ((frames s)(i := frames s i - 1))) = total N (frames s)"
    using total_update[OF leave_count(1), of "frames s" "frames s i - 1"] leave_count(2) by simp
  moreover have "total N ((leaving s)(i := 1)) = Suc (total N (leaving s))"
    using total_update[OF leave_count(1), of "leaving s" 1] leave_count(3) by simp
  ultimately show ?case using leave_count(4) pos
    by (auto simp: life_inv_def guardLeaveCount_def touch_def simp del: total_zero split: if_splits)
next
  case (leave_drop i s)
  then have pos: "0 < liveRefs (life s) \<and> deletions (life s) = 0" by (intro inside_keeps_object[of N s i]) auto
  have "Suc (total N ((leaving s)(i := 0))) = total N (leaving s)"
    using total_update[OF leave_drop(1), of "leaving s" 0] leave_drop(2) by simp
  with leave_drop(3) pos show ?case
    by (auto simp: life_inv_def dropReference_def destroyObject_def touch_def Let_def simp del: total_zero split: if_splits)
next
  case (release_flag s)
  have pos: "0 < liveRefs (life s) \<and> deletions (life s) = 0"
    using release_flag by (auto simp: life_inv_def simp del: total_zero split: if_splits)
  with release_flag show ?case by (auto simp: life_inv_def releaseFlag_def touch_def simp del: total_zero)
next
  case (release_drop i s)
  then have pos: "0 < liveRefs (life s) \<and> deletions (life s) = 0" by (intro inside_keeps_object[of N s i]) auto
  with release_drop show ?case
    by (auto simp: life_inv_def dropReference_def destroyObject_def touch_def Let_def simp del: total_zero split: if_splits)
qed

lemma life_inv_reachable: "life_reachable N s \<Longrightarrow> life_inv N s"
proof (induction rule: life_reachable.induct)
  case fresh_handle
  then show ?case by (simp add: life_inv_def newLifeSystem_def newLife_def)
next
  case (after_step s s')
  then show ?case by (simp add: life_inv_step)
qed

text \<open>
  C8: Against calls already running, releasing a handle is safe in every interleaving of entries,
  exits and the release: nothing touches the object after its deletion; it is deleted at most once,
  and exactly when the owner has dropped its reference and no call is inside or on its way out; and
  the misuse detector stays silent.
\<close>

theorem released_object_is_deleted_once:
  assumes "life_reachable N s"
  shows "\<not> misused (life s) \<and> reports (life s) = 0 \<and> deletions (life s) \<le> 1 \<and>
    (deletions (life s) = 1 \<longleftrightarrow> owner s = Dropped_ref \<and> {i. i < N \<and> (0 < frames s i \<or> 0 < leaving s i)} = {})"
proof -
  have inv: "life_inv N s" by (rule life_inv_reachable[OF assms])
  have "liveRefs (life s) = 0 \<longleftrightarrow> owner s = Dropped_ref \<and> total N (frames s) = 0 \<and> total N (leaving s) = 0"
    using inv by (auto simp: life_inv_def simp del: total_zero)
  also have "\<dots> \<longleftrightarrow> owner s = Dropped_ref \<and> {i. i < N \<and> (0 < frames s i \<or> 0 < leaving s i)} = {}"
    by auto
  finally show ?thesis using inv by (simp add: life_inv_def del: total_zero)
qed

text \<open>A call is inside while its handle is released; the call deletes the object on its way out.\<close>

definition released_under_call :: life_system where
  "released_under_call =
     \<lparr>life = dropReference 0 (guardLeaveCount (dropReference 0 (releaseFlag (guardEnter 0 newLife)))),
      frames = (\<lambda>_. 0), leaving = (\<lambda>_. 0), owner = Dropped_ref\<rparr>"

theorem released_object_is_deleted_once_witness:
  "deletions (life released_under_call) = 1 \<and> \<not> misused (life released_under_call)"
proof -
  have none: "(\<lambda>_ :: nat. 0 :: nat)(0 := 0) = (\<lambda>_. 0)" by auto
  have "life_reachable 2 released_under_call"
    using after_step[OF after_step[OF after_step[OF after_step[OF after_step[OF fresh_handle enter[of 0 2]]
      release_flag] release_drop[of 1]] leave_count[of 0]] leave_drop[of 0]]
    by (simp add: newLifeSystem_def released_under_call_def none)
  from released_object_is_deleted_once[OF this] show ?thesis by (simp add: released_under_call_def)
qed

end
