(* ===== verification/Plain_Object_Calls.thy ===== *)
theory Plain_Object_Calls
  imports Plain_Object
begin

text \<open>
  The asynchronous calls of one handle (plain_logos_object.cpp, \<open>AsyncCall\<close> and \<open>callAsync\<close>),
  interleaved. Four parties race to finish a call: its reply, its deadline, a completion and the
  teardown. Each runs as a sequence of pieces of work, cut where the code takes or drops a lock or
  performs an atomic operation; between two pieces anything else may run. The theorems say that
  the callback is posted at most once, that every call is finished in the end, and where an entry
  outlives its call.

  A call is named by its number, which also names its reply handler at the connection.
\<close>

subsection \<open>Calls and pieces of work\<close>

text \<open>\<open>armed\<close> is what a timeout would report while the timer waits.\<close>

record async_call =
  wireId :: u64
  meth :: qstring
  timeoutMs :: int
  filedAs :: qstring
  hasCallback :: bool
  delivered :: bool
  armed :: "int option"

definition newAsyncCall :: "u64 \<Rightarrow> qstring \<Rightarrow> int \<Rightarrow> async_call" where
  "newAsyncCall i m t = \<lparr>wireId = i, meth = m, timeoutMs = t, filedAs = [], hasCallback = True, delivered = False,
     armed = Some t\<rparr>"

text \<open>A call refused at once because the connection is closed; it has no state of its own.\<close>

definition refusedCall :: "qstring \<Rightarrow> int \<Rightarrow> async_call" where
  "refusedCall m t = \<lparr>wireId = 0, meth = m, timeoutMs = t, filedAs = [], hasCallback = False, delivered = True, armed = None\<rparr>"

text \<open>\<open>Register\<close> and \<open>Send\<close> are the rest of \<open>callAsync\<close>; \<open>Reply\<close>, \<open>CheckDelivered\<close>, \<open>File\<close> and \<open>Rearm\<close>
  the reply handler; \<open>Leave\<close>, \<open>Claim\<close> and \<open>Finish\<close> are \<open>deliver\<close>.\<close>

datatype 'v work =
  Register "'v call_message"
| Send "'v call_message"
| Reply "'v result_message"
| CheckDelivered qstring
| File qstring
| Rearm
| Leave "'v qvariant" call_error
| Claim "'v qvariant" call_error
| Finish "'v qvariant" call_error

record 'v async_calls =
  shared :: "'v call_state"
  alive :: bool
  conn :: "(nat, 'v) rpc_peer"
  calls :: "async_call list"
  works :: "(nat \<times> 'v work) list"
  posted :: "(nat \<times> 'v qvariant \<times> call_error) list"

definition newCalls :: "'v async_calls" where
  "newCalls = \<lparr>shared = newCallState, alive = True, conn = newPeer True, calls = [], works = [], posted = []\<rparr>"

definition updateCall :: "nat \<Rightarrow> (async_call \<Rightarrow> async_call) \<Rightarrow> 'v async_calls \<Rightarrow> 'v async_calls" where
  "updateCall n f s = s\<lparr>calls := (calls s)[n := f (calls s ! n)]\<rparr>"

text \<open>The replies the connection hands to handlers while it performs an operation.\<close>

fun replies_of :: "(nat, 'v) peer_output list \<Rightarrow> (nat \<times> 'v result_message) list" where
  "replies_of [] = []"
| "replies_of (Answer n r # os) = (n, r) # replies_of os"
| "replies_of (_ # os) = replies_of os"

definition newReplies :: "(nat, 'v) rpc_peer \<Rightarrow> (nat, 'v) rpc_peer \<Rightarrow> (nat \<times> 'v result_message) list" where
  "newReplies p p' = replies_of (drop (length (outputs p)) (outputs p'))"

subsection \<open>One piece of work\<close>

text \<open>\<open>deliver\<close>, in its three pieces.\<close>

definition deliverLeave :: "nat \<Rightarrow> 'v async_calls \<Rightarrow> 'v async_calls" where
  "deliverLeave n s = (let c = calls s ! n in
     if alive s then s\<lparr>shared := leaveRegistries (wireId c) (filedAs c) (shared s)\<rparr> else s)"

definition deliverClaim :: "nat \<Rightarrow> 'v async_calls \<Rightarrow> bool \<times> 'v async_calls" where
  "deliverClaim n s = (if delivered (calls s ! n) then (False, s) else (True, updateCall n (\<lambda>c. c\<lparr>delivered := True\<rparr>) s))"

definition deliverFinish :: "nat \<Rightarrow> 'v qvariant \<Rightarrow> call_error \<Rightarrow> 'v async_calls \<Rightarrow> 'v async_calls" where
  "deliverFinish n v e s = (let c = calls s ! n;
       s1 = updateCall n (\<lambda>c. c\<lparr>hasCallback := False, armed := None\<rparr>) (s\<lparr>conn := cancelPending (wireId c) (conn s)\<rparr>)
     in if hasCallback c then s1\<lparr>posted := posted s1 @ [(n, v, e)]\<rparr> else s1)"

text \<open>What a piece of work does, and the piece its thread goes on with.\<close>

definition work_step :: "qstring \<Rightarrow> nat \<Rightarrow> 'v work \<Rightarrow> 'v async_calls \<Rightarrow> 'v work list \<times> 'v async_calls" where
  "work_step obj n w s = (let c = calls s ! n; released = Leave QInvalid (callErrorReleased obj (meth c)) in case w of
       Register msg \<Rightarrow> (case registerInflight (wireId c) n (shared s) of
           (True, st) \<Rightarrow> ([Send msg], s\<lparr>shared := st\<rparr>)
         | (False, st) \<Rightarrow> ([released], s\<lparr>shared := st\<rparr>))
     | Send msg \<Rightarrow> let p = sendCallAsync msg (Some n) (conn s)
                  in (map (\<lambda>(_, r). Reply r) (newReplies (conn s) p), s\<lparr>conn := p\<rparr>)
     | Reply r \<Rightarrow>
         if \<not> res_ok r then ([Leave QInvalid (callErrorFromWire obj (res_errCode r) (res_err r))], s)
         else (case isPendingCallSentinel (rpcValueToQVariant (res_value r)) of
                 None \<Rightarrow> ([Leave (rpcValueToQVariant (res_value r)) no_error], s)
               | Some callId \<Rightarrow> if alive s then ([CheckDelivered callId], s) else ([released], s))
     | CheckDelivered callId \<Rightarrow> (if delivered c then [] else [File callId], s)
     | File callId \<Rightarrow> (case fileDeferred n callId (shared s) of
           (Buffered v, st) \<Rightarrow> ([Leave v no_error], s\<lparr>shared := st\<rparr>)
         | (Refused, st) \<Rightarrow> ([released], s\<lparr>shared := st\<rparr>)
         | (Filed, st) \<Rightarrow> ([Rearm], updateCall n (\<lambda>c. c\<lparr>filedAs := callId\<rparr>) (s\<lparr>shared := st\<rparr>)))
     | Rearm \<Rightarrow> ([], updateCall n (\<lambda>c. c\<lparr>armed := Some (effectiveMs (timeoutMs c))\<rparr>) s)
     | Leave v e \<Rightarrow> ([Claim v e], deliverLeave n s)
     | Claim v e \<Rightarrow> (case deliverClaim n s of (True, s') \<Rightarrow> ([Finish v e], s') | (False, s') \<Rightarrow> ([], s'))
     | Finish v e \<Rightarrow> ([], deliverFinish n v e s))"

subsection \<open>What starts pieces of work\<close>

definition callAsync ::
  "qstring \<Rightarrow> ('v qvariant list \<Rightarrow> 'v rpc_value list) \<Rightarrow> bool \<Rightarrow> qstring \<Rightarrow> qstring \<Rightarrow> qstring \<Rightarrow> 'v qvariant list \<Rightarrow> int \<Rightarrow>
   'v async_calls \<Rightarrow> 'v async_calls" where
  "callAsync obj toRpc cb caller auth m args t s = (let n = length (calls s) in
     if \<not> cb then s else if \<not> isOpen (conn s)
     then s\<lparr>calls := calls s @ [refusedCall m t], posted := posted s @ [(n, QInvalid, notOpenError obj)]\<rparr>
     else let (i, p) = nextId (conn s)
          in s\<lparr>conn := p, calls := calls s @ [newAsyncCall i m t],
                works := works s @ [(n, Register (callMessage obj toRpc caller auth m args i))]\<rparr>)"

definition timerFires :: "qstring \<Rightarrow> nat \<Rightarrow> 'v async_calls \<Rightarrow> 'v async_calls" where
  "timerFires obj n s = (case armed (calls s ! n) of None \<Rightarrow> s
     | Some ms \<Rightarrow> (updateCall n (\<lambda>c. c\<lparr>armed := None\<rparr>) s)\<lparr>works := works s @
           [(n, Leave QInvalid (callErrorTimeout obj (meth (calls s ! n)) ms))]\<rparr>)"

text \<open>An operation of anyone on the connection; a reply to an own call starts its handler.\<close>

definition connectionDoes :: "(nat, 'v) peer_op \<Rightarrow> 'v async_calls \<Rightarrow> 'v async_calls" where
  "connectionDoes op s = (let p = peer_op_step op (conn s)
     in s\<lparr>conn := p, works := works s @
           map (\<lambda>(n, r). (n, Reply r)) (filter (\<lambda>(n, r). n < length (calls s)) (newReplies (conn s) p))\<rparr>)"

text \<open>The completion subscription, whose handler does nothing once the state is gone.\<close>

definition completionEvent :: "qstring \<Rightarrow> 'v qvariant \<Rightarrow> 'v async_calls \<Rightarrow> 'v async_calls" where
  "completionEvent callId v s = (if \<not> alive s then s
     else case completionArrives callId v (shared s) of
       (Some n, st) \<Rightarrow> s\<lparr>shared := st, works := works s @ [(n, Leave v no_error)]\<rparr>
     | (None, st) \<Rightarrow> s\<lparr>shared := st\<rparr>)"

definition completionHandler :: "('v qvariant \<Rightarrow> qstring) \<Rightarrow> 'v qvariant list \<Rightarrow> 'v async_calls \<Rightarrow> 'v async_calls" where
  "completionHandler conv data s = (case data of [i, v] \<Rightarrow> completionEvent (variant_toString conv i) v s | _ \<Rightarrow> s)"

definition stopAndCancelCalls :: "qstring \<Rightarrow> 'v async_calls \<Rightarrow> 'v async_calls" where
  "stopAndCancelCalls obj s = (case stopAndCancel (shared s) of (ns, st) \<Rightarrow>
     s\<lparr>shared := st, works := works s @
         map (\<lambda>n. (n, Leave QInvalid (callErrorReleased obj (meth (calls s ! n))))) ns\<rparr>)"

subsection \<open>Interleavings\<close>

inductive internal_step :: "qstring \<Rightarrow> 'v async_calls \<Rightarrow> 'v async_calls \<Rightarrow> bool" for obj where
  work: "works s = xs @ (n, w) # ys \<Longrightarrow> work_step obj n w s = (ws, s') \<Longrightarrow>
    internal_step obj s (s'\<lparr>works := xs @ map (Pair n) ws @ ys\<rparr>)"
| timer: "n < length (calls s) \<Longrightarrow> armed (calls s ! n) \<noteq> None \<Longrightarrow> internal_step obj s (timerFires obj n s)"

inductive calls_step :: "qstring \<Rightarrow> 'v async_calls \<Rightarrow> 'v async_calls \<Rightarrow> bool" for obj where
  internal: "internal_step obj s s' \<Longrightarrow> calls_step obj s s'"
| call: "calls_step obj s (callAsync obj toRpc cb caller auth m args t s)"
| other_use: "calls_step obj s (connectionDoes op s)"
| completion: "calls_step obj s (completionHandler conv data s)"
| synchronous: "e \<in> {SEnter, SExit, STake callId} \<Longrightarrow> calls_step obj s (s\<lparr>shared := state_step e (shared s)\<rparr>)"
| teardown: "calls_step obj s (stopAndCancelCalls obj s)"
| state_gone: "stoppingFlag (shared s) \<Longrightarrow> calls_step obj s (s\<lparr>alive := False\<rparr>)"

inductive calls_reachable :: "qstring \<Rightarrow> 'v async_calls \<Rightarrow> bool" for obj where
  no_calls: "calls_reachable obj newCalls"
| one_more: "calls_reachable obj s \<Longrightarrow> calls_step obj s s' \<Longrightarrow> calls_reachable obj s'"

subsection \<open>Bookkeeping\<close>

text \<open>How often the callback of a call was posted, how many deliveries of it are past the gate,
  and whether one is on its way to the gate.\<close>

definition posts :: "nat \<Rightarrow> 'v async_calls \<Rightarrow> nat" where
  "posts n s = count_list (map fst (posted s)) n"

fun finishing :: "'v work \<Rightarrow> nat" where
  "finishing (Finish v e) = 1"
| "finishing _ = 0"

fun delivering :: "'v work \<Rightarrow> bool" where
  "delivering (Leave v e) = True"
| "delivering (Claim v e) = True"
| "delivering _ = False"

fun finishers :: "nat \<Rightarrow> (nat \<times> 'v work) list \<Rightarrow> nat" where
  "finishers n [] = 0"
| "finishers n ((m, w) # ws) = (if m = n then finishing w else 0) + finishers n ws"

definition underway :: "nat \<Rightarrow> (nat \<times> 'v work) list \<Rightarrow> bool" where
  "underway n ws = (\<exists>w. (n, w) \<in> set ws \<and> delivering w)"

lemma finishers_append [simp]: "finishers n (xs @ ys) = finishers n xs + finishers n ys"
  by (induction xs) auto

lemma underway_simps [simp]:
  "underway n [] = False"
  "underway n ((m, w) # ws) = (m = n \<and> delivering w \<or> underway n ws)"
  "underway n (xs @ ys) = (underway n xs \<or> underway n ys)"
  by (auto simp: underway_def)

lemma replies_bookkeeping [simp]:
  "finishers n (map (\<lambda>(m, r). (m, Reply r)) rs) = 0"
  "finishers n (map (Pair m \<circ> (\<lambda>(k, r). Reply r)) rs) = 0"
  by (induction rs) auto

lemma underway_replies [simp]:
  "\<not> underway n (map (\<lambda>(m, r). (m, Reply r)) rs)" "\<not> underway n (map (Pair m \<circ> (\<lambda>(k, r). Reply r)) rs)"
  by (auto simp: underway_def)

lemma leaving_bookkeeping [simp]: "finishers n (map (\<lambda>m. (m, Leave (v m) (e m))) ns) = 0"
  by (induction ns) auto

definition call_ok :: "async_call \<Rightarrow> nat \<Rightarrow> nat \<Rightarrow> bool \<Rightarrow> bool" where
  "call_ok c p f d = (p + f = (if delivered c then 1 else 0) \<and> (hasCallback c \<longleftrightarrow> p = 0) \<and>
     (delivered c \<or> armed c \<noteq> None \<or> d))"

text \<open>The calls the registries name.\<close>

definition names :: "'v call_state \<Rightarrow> nat set" where
  "names st = snd ` set (inflightCalls st) \<union> snd ` set (deferredCalls st)"

lemma snd_insert: "snd ` set (hash_insert k v h) \<subseteq> insert v (snd ` set h)"
  unfolding hash_insert_def by (induction h) auto

lemma snd_remove: "snd ` set (hash_remove k h) \<subseteq> snd ` set h"
  unfolding hash_remove_def by (induction h) auto

lemma names_frame:
  "inflightCalls st' = inflightCalls st \<Longrightarrow> deferredCalls st' = deferredCalls st \<Longrightarrow> names st' = names st"
  by (simp add: names_def)

lemma names_drop [simp]: "names (dropUnclaimedIfIdle st) = names st"
  by (simp add: dropUnclaimedIfIdle_def names_def)

lemma names_park [simp]: "names (parkCompletion c v st) = names st"
  by (auto simp: parkCompletion_def names_def)

lemma names_take [simp]: "names (snd (takeCompletion c st)) = names st"
  by (auto simp: takeCompletion_def names_def split: option.split)

lemma names_leave: "names (leaveRegistries i c st) \<subseteq> names st"
  using snd_remove[of i "inflightCalls st"] snd_remove[of c "deferredCalls st"]
  by (auto simp: leaveRegistries_def) (auto simp: names_def split: if_splits)

lemma names_register: "names (snd (registerInflight i n st)) \<subseteq> insert n (names st)"
  using snd_insert[of i n "inflightCalls st"] by (auto simp: registerInflight_def names_def split: if_splits)

lemma take_frame:
  "inflightCalls (snd (takeCompletion c st)) = inflightCalls st" "deferredCalls (snd (takeCompletion c st)) = deferredCalls st"
  by (auto simp: takeCompletion_def split: option.split)

lemma names_file: "names (snd (fileDeferred n c st)) \<subseteq> insert n (names st)"
proof -
  obtain v st' where t: "takeCompletion c st = (v, st')" by fastforce
  with take_frame[of c st] have st: "inflightCalls st' = inflightCalls st" "deferredCalls st' = deferredCalls st" by auto
  with t show ?thesis
    using snd_insert[of c n "deferredCalls st"] by (auto simp: fileDeferred_def names_def split: option.split)
qed

lemma names_arrive:
  "names (snd (completionArrives c v st)) \<subseteq> names st" "fst (completionArrives c v st) = Some n \<Longrightarrow> n \<in> names st"
proof -
  show "names (snd (completionArrives c v st)) \<subseteq> names st"
    using snd_remove[of c "deferredCalls st"] by (auto simp: completionArrives_def names_def[of st] split: option.split)
      (auto simp: names_def)
  show "n \<in> names st" if "fst (completionArrives c v st) = Some n"
    using that by (auto simp: completionArrives_def names_def split: option.splits dest!: map_of_SomeD intro: rev_image_eqI)
qed

lemma names_sync: "e \<in> {SEnter, SExit, STake c} \<Longrightarrow> names (state_step e st) = names st"
  by (auto simp: enterSync_def leaveSync_def) (auto simp: names_def)

text \<open>The invariant.\<close>

definition calls_ok :: "'v async_calls \<Rightarrow> bool" where
  "calls_ok s = ((\<forall>n < length (calls s). call_ok (calls s ! n) (posts n s) (finishers n (works s)) (underway n (works s))) \<and>
     (\<forall>p \<in> set (posted s). fst p < length (calls s)) \<and> (\<forall>w \<in> set (works s). fst w < length (calls s)) \<and>
     names (shared s) \<subseteq> {..<length (calls s)})"

lemma calls_okI:
  assumes "\<And>n. n < length (calls s) \<Longrightarrow> call_ok (calls s ! n) (posts n s) (finishers n (works s)) (underway n (works s))"
    and "\<And>p. p \<in> set (posted s) \<Longrightarrow> fst p < length (calls s)" and "\<And>w. w \<in> set (works s) \<Longrightarrow> fst w < length (calls s)"
    and "names (shared s) \<subseteq> {..<length (calls s)}"
  shows "calls_ok s"
  using assms unfolding calls_ok_def by blast


lemma call_okD:
  "calls_ok s \<Longrightarrow> n < length (calls s) \<Longrightarrow> call_ok (calls s ! n) (posts n s) (finishers n (works s)) (underway n (works s))"
  "calls_ok s \<Longrightarrow> p \<in> set (posted s) \<Longrightarrow> fst p < length (calls s)"
  "calls_ok s \<Longrightarrow> w \<in> set (works s) \<Longrightarrow> fst w < length (calls s)"
  "calls_ok s \<Longrightarrow> names (shared s) \<subseteq> {..<length (calls s)}"
  unfolding calls_ok_def by blast+

lemma posts_frame [simp]:
  "posts n (s\<lparr>shared := st\<rparr>) = posts n s" "posts n (s\<lparr>conn := c\<rparr>) = posts n s" "posts n (s\<lparr>works := ws\<rparr>) = posts n s"
  "posts n (s\<lparr>calls := cs\<rparr>) = posts n s" "posts n (updateCall m f s) = posts n s" "posts n (s\<lparr>alive := b\<rparr>) = posts n s"
  by (simp_all add: posts_def updateCall_def)

lemma posts_post [simp]: "posts n (s\<lparr>posted := posted s' @ [(m, v, e)]\<rparr>) = posts n s' + (if m = n then 1 else 0)"
  by (simp add: posts_def)

lemma updateCall_fields [simp]:
  "shared (updateCall n f s) = shared s" "conn (updateCall n f s) = conn s" "works (updateCall n f s) = works s"
  "posted (updateCall n f s) = posted s" "length (calls (updateCall n f s)) = length (calls s)"
  "alive (updateCall n f s) = alive s"
  by (simp_all add: updateCall_def)

lemma updateCall_nth [simp]:
  "m < length (calls s) \<Longrightarrow> calls (updateCall n f s) ! m = (if m = n then f (calls s ! n) else calls s ! m)"
  by (simp add: updateCall_def nth_list_update)

text \<open>Steps that only change the shared state, or add work that delivers.\<close>

lemma calls_ok_frame:
  assumes "calls_ok s" and "calls s' = calls s" "posted s' = posted s" "names (shared s') \<subseteq> {..<length (calls s)}"
    and "works s' = works s @ ws" and "\<And>w. w \<in> set ws \<Longrightarrow> fst w < length (calls s)" and "\<And>n. finishers n ws = 0"
  shows "calls_ok s'"
proof (rule calls_okI)
  fix n assume "n < length (calls s')"
  with call_okD(1)[OF assms(1), of n] assms(2,3,5,7)
  show "call_ok (calls s' ! n) (posts n s') (finishers n (works s')) (underway n (works s'))"
    by (auto simp: call_ok_def posts_def)
qed (use assms call_okD[OF assms(1)] in auto)

text \<open>A piece of work replaced by what follows it, with its call changed.\<close>

lemma calls_ok_replace:
  assumes ok: "calls_ok s" and ws: "works s = xs @ (n, w) # ys"
    and calls: "length (calls s') = length (calls s)" "\<And>m. m < length (calls s) \<Longrightarrow> m \<noteq> n \<Longrightarrow> calls s' ! m = calls s ! m"
    and posts: "\<And>m. m \<noteq> n \<Longrightarrow> posts m s' = posts m s" "\<And>p. p \<in> set (posted s') \<Longrightarrow> p \<in> set (posted s) \<or> fst p = n"
    and names: "names (shared s') \<subseteq> insert n (names (shared s))"
    and own: "\<And>f d. call_ok (calls s ! n) (posts n s) (finishing w + f) (delivering w \<or> d) \<Longrightarrow>
      call_ok (calls s' ! n) (posts n s') (sum_list (map finishing ws') + f) (list_ex delivering ws' \<or> d)"
  shows "calls_ok (s'\<lparr>works := xs @ map (Pair n) ws' @ ys\<rparr>)"
proof (rule calls_okI)
  have n: "n < length (calls s)" using call_okD(3)[OF ok, of "(n, w)"] ws by simp
  have fin: "finishers m (map (Pair n) ws') = (if m = n then sum_list (map finishing ws') else 0)" for m
    by (induction ws') auto
  have und: "underway m (map (Pair n) ws') = (m = n \<and> list_ex delivering ws')" for m
    by (auto simp: underway_def list_ex_iff)
  fix m assume m: "m < length (calls (s'\<lparr>works := xs @ map (Pair n) ws' @ ys\<rparr>))"
  let ?s = "s'\<lparr>works := xs @ map (Pair n) ws' @ ys\<rparr>"
  have "call_ok (calls s ! m) (posts m s) (finishers m (xs @ (n, w) # ys)) (underway m (xs @ (n, w) # ys))"
    using call_okD(1)[OF ok, of m] m calls(1) ws by simp
  then show "call_ok (calls ?s ! m) (posts m ?s) (finishers m (works ?s)) (underway m (works ?s))"
    using own[of "finishers n xs + finishers n ys" "underway n xs \<or> underway n ys"] calls(2)[of m] posts(1)[of m] m calls(1)
    by (cases "m = n") (auto simp: fin und add.assoc add.left_commute disj_assoc disj_left_commute)
next
  have n: "n < length (calls s)" using call_okD(3)[OF ok, of "(n, w)"] ws by simp
  show "fst p < length (calls (s'\<lparr>works := xs @ map (Pair n) ws' @ ys\<rparr>))"
    if "p \<in> set (posted (s'\<lparr>works := xs @ map (Pair n) ws' @ ys\<rparr>))" for p
    using posts(2)[of p] that call_okD(2)[OF ok, of p] n calls(1) by auto
  show "fst v < length (calls (s'\<lparr>works := xs @ map (Pair n) ws' @ ys\<rparr>))"
    if "v \<in> set (works (s'\<lparr>works := xs @ map (Pair n) ws' @ ys\<rparr>))" for v
    using that call_okD(3)[OF ok, of v] n calls(1) ws by auto
  show "names (shared (s'\<lparr>works := xs @ map (Pair n) ws' @ ys\<rparr>)) \<subseteq> {..<length (calls (s'\<lparr>works := xs @ map (Pair n) ws' @ ys\<rparr>))}"
    using names call_okD(4)[OF ok] n calls(1) by auto
qed

lemma reply_works:
  "sum_list (map (finishing \<circ> (\<lambda>(_, r). Reply r)) rs) = 0" "\<not> list_ex delivering (map (\<lambda>(_, r). Reply r) rs)"
  by (induction rs) auto

lemma work_keeps_ok:
  assumes ok: "calls_ok s" and ws: "works s = xs @ (n, w) # ys" and step: "work_step obj n w s = (ws', s')"
  shows "calls_ok (s'\<lparr>works := xs @ map (Pair n) ws' @ ys\<rparr>)"
proof -
  have n: "n < length (calls s)" using call_okD(3)[OF ok, of "(n, w)"] ws by simp
  note go = calls_ok_replace[OF ok ws]
  show ?thesis
  proof (cases w)
    case (Register msg)
    then show ?thesis
      using step names_register[of "wireId (calls s ! n)" n "shared s"]
      by (intro go) (auto simp: work_step_def Let_def call_ok_def split: prod.splits bool.splits)
  next
    case (Send msg)
    then show ?thesis using step by (intro go) (auto simp: work_step_def Let_def reply_works)
  next
    case (Reply r)
    then show ?thesis
      using step by (intro go) (auto simp: work_step_def Let_def call_ok_def split: if_splits option.splits)
  next
    case (CheckDelivered callId)
    then show ?thesis
      using step by (intro go) (auto simp: work_step_def Let_def call_ok_def split: if_splits)
  next
    case (File callId)
    then show ?thesis
      using step n names_file[of n callId "shared s"]
      by (intro go) (auto simp: work_step_def Let_def call_ok_def split: prod.splits filing.splits)
  next
    case Rearm
    then show ?thesis using step n by (intro go) (auto simp: work_step_def Let_def call_ok_def)
  next
    case (Leave v e)
    then show ?thesis
      using step names_leave[of "wireId (calls s ! n)" "filedAs (calls s ! n)" "shared s"]
      by (intro go) (auto simp: work_step_def deliverLeave_def Let_def posts_def split: if_splits)
  next
    case (Claim v e)
    then show ?thesis
      using step n by (intro go) (auto simp: work_step_def deliverClaim_def Let_def call_ok_def split: if_splits)
  next
    case (Finish v e)
    then show ?thesis
      using step n by (intro go) (auto simp: work_step_def deliverFinish_def Let_def call_ok_def split: if_splits)
  qed
qed

lemma timer_keeps_ok:
  assumes "calls_ok s" and "n < length (calls s)" and "armed (calls s ! n) \<noteq> None"
  shows "calls_ok (timerFires obj n s)"
proof -
  obtain ms where ms: "armed (calls s ! n) = Some ms" using assms(3) by auto
  show ?thesis
  proof (rule calls_okI)
    fix k assume "k < length (calls (timerFires obj n s))"
    then show "call_ok (calls (timerFires obj n s) ! k) (posts k (timerFires obj n s))
        (finishers k (works (timerFires obj n s))) (underway k (works (timerFires obj n s)))"
      using call_okD(1)[OF assms(1), of k] by (auto simp: timerFires_def ms call_ok_def)
  qed (use assms(2) call_okD(2-4)[OF assms(1)] in \<open>fastforce simp: timerFires_def ms\<close>)+
qed

lemma call_keeps_ok:
  assumes ok: "calls_ok s"
  shows "calls_ok (callAsync obj toRpc cb caller auth m args t s)"
proof -
  let ?n = "length (calls s)"
  have none: "posts ?n s = 0" "finishers ?n (works s) = 0"
  proof -
    show "posts ?n s = 0" using call_okD(2)[OF ok] by (fastforce simp: posts_def count_list_0_iff)
    have "\<forall>w \<in> set ws. fst w < ?n \<Longrightarrow> finishers ?n ws = 0" for ws :: "(nat \<times> 'a work) list" by (induction ws) auto
    then show "finishers ?n (works s) = 0" using call_okD(3)[OF ok] by blast
  qed
  show ?thesis
  proof (cases cb; cases "isOpen (conn s)")
    assume cb: cb and True: "isOpen (conn s)"
    show ?thesis
    proof (rule calls_okI)
      fix k assume "k < length (calls (callAsync obj toRpc cb caller auth m args t s))"
      then show "call_ok (calls (callAsync obj toRpc cb caller auth m args t s) ! k) (posts k (callAsync obj toRpc cb caller auth m args t s))
          (finishers k (works (callAsync obj toRpc cb caller auth m args t s))) (underway k (works (callAsync obj toRpc cb caller auth m args t s)))"
        using cb True none call_okD(1)[OF ok, of k]
        by (cases "k = ?n") (auto simp: callAsync_def Let_def posts_def newAsyncCall_def call_ok_def nth_append split: prod.split)
    qed (use cb True call_okD[OF ok] in \<open>fastforce simp: callAsync_def Let_def split: prod.splits\<close>)+
  next
    assume cb: cb and False: "\<not> isOpen (conn s)"
    show ?thesis
    proof (rule calls_okI)
      fix k assume "k < length (calls (callAsync obj toRpc cb caller auth m args t s))"
      then show "call_ok (calls (callAsync obj toRpc cb caller auth m args t s) ! k) (posts k (callAsync obj toRpc cb caller auth m args t s))
          (finishers k (works (callAsync obj toRpc cb caller auth m args t s))) (underway k (works (callAsync obj toRpc cb caller auth m args t s)))"
        using cb False none call_okD(1)[OF ok, of k]
        by (cases "k = ?n") (auto simp: callAsync_def Let_def posts_def refusedCall_def call_ok_def nth_append)
    qed (use cb False call_okD[OF ok] in \<open>fastforce simp: callAsync_def Let_def\<close>)+
  qed (use ok in \<open>simp_all add: callAsync_def\<close>)
qed

lemma completionHandler_cases:
  "completionHandler conv data s = s \<or> (\<exists>callId v. completionHandler conv data s = completionEvent callId v s)"
  by (auto simp: completionHandler_def split: list.split)

lemma completion_keeps_ok:
  assumes ok: "calls_ok s"
  shows "calls_ok (completionEvent callId v s)"
proof -
  obtain r st where r: "completionArrives callId v (shared s) = (r, st)" by fastforce
  have st: "names st \<subseteq> {..<length (calls s)}"
    using names_arrive(1)[of callId v "shared s"] call_okD(4)[OF ok] r by auto
  have n: "n < length (calls s)" if "r = Some n" for n
    using names_arrive(2)[of callId v "shared s" n] call_okD(4)[OF ok] r that by auto
  show ?thesis
  proof (cases "alive s")
    case False
    with ok show ?thesis by (simp add: completionEvent_def)
  next
    case True
    show ?thesis
    proof (cases r)
      case None
      then show ?thesis 
        by (intro calls_ok_frame[OF ok, where ws = "[]"]) (use True r st in \<open>auto simp: completionEvent_def\<close>)
    next
      case (Some n)
      then show ?thesis 
        by (intro calls_ok_frame[OF ok, where ws = "[(n, Leave v no_error)]"])
          (use True r st n[OF Some] in \<open>auto simp: completionEvent_def\<close>)
    qed
  qed
qed

lemma step_keeps_ok:
  assumes "calls_step obj s s'" and ok: "calls_ok s"
  shows "calls_ok s'"
  using assms(1)
proof cases
  case internal
  then show ?thesis
    by cases (use work_keeps_ok[OF ok] timer_keeps_ok[OF ok] in auto)
next
  case (call toRpc cb caller auth m args t)
  then show ?thesis using call_keeps_ok[OF ok] by simp
next
  case (other_use op)
  then show ?thesis
    by (intro calls_ok_frame[OF ok]) (auto simp: connectionDoes_def Let_def call_okD(4)[OF ok])
next
  case (completion conv data)
  with completionHandler_cases[of conv data s] completion_keeps_ok[OF ok] ok show ?thesis by auto
next
  case (synchronous e callId)
  then show ?thesis using call_okD(4)[OF ok] names_sync[of e callId "shared s"]
    by (intro calls_ok_frame[OF ok, where ws = "[]"]) auto
next
  case teardown
  obtain ns st where t: "stopAndCancel (shared s) = (ns, st)" by fastforce
  then have ns: "set ns \<subseteq> {..<length (calls s)}" and st: "names st = {}"
    using call_okD(4)[OF ok] by (fastforce simp: stopAndCancel_def names_def)+
  show ?thesis
    unfolding teardown
    by (intro calls_ok_frame[OF ok, where ws = "map (\<lambda>n. (n, Leave QInvalid (callErrorReleased obj (meth (calls s ! n))))) ns"])
      (use t ns st in \<open>auto simp: stopAndCancelCalls_def\<close>)
next
  case state_gone
  then show ?thesis using call_okD(4)[OF ok] by (intro calls_ok_frame[OF ok, where ws = "[]"]) auto
qed

lemma reachable_ok: "calls_reachable obj s \<Longrightarrow> calls_ok s"
proof (induction rule: calls_reachable.induct)
  case no_calls
  then show ?case by (simp add: calls_ok_def newCalls_def newCallState_def names_def)
next
  case (one_more s s')
  then show ?case by (blast intro: step_keeps_ok)
qed

subsection \<open>Every call is finished\<close>

text \<open>How far a piece of work is from its end; each of its steps comes nearer. An armed timer
  stands before \<open>Leave\<close> and after \<open>Rearm\<close>.\<close>

fun rank :: "'v work \<Rightarrow> nat" where
  "rank (Finish v e) = 1"
| "rank (Claim v e) = 2"
| "rank (Leave v e) = 3"
| "rank Rearm = 5"
| "rank (File callId) = 6"
| "rank (CheckDelivered callId) = 7"
| "rank (Reply r) = 8"
| "rank (Send msg) = 9"
| "rank (Register msg) = 10"

definition timer_weight :: "async_call \<Rightarrow> nat" where
  "timer_weight c = (case armed c of None \<Rightarrow> 0 | Some ms \<Rightarrow> 4)"

definition weight :: "'v async_calls \<Rightarrow> nat" where
  "weight s = sum_list (map (rank \<circ> snd) (works s)) + sum_list (map timer_weight (calls s))"

lemma timer_weight_update:
  assumes "n < length (calls s)"
  shows "sum_list (map timer_weight (calls (updateCall n f s))) + timer_weight (calls s ! n) =
    sum_list (map timer_weight (calls s)) + timer_weight (f (calls s ! n))"
proof -
  have "sum_list (map timer_weight (cs[n := c])) + timer_weight (cs ! n) = sum_list (map timer_weight cs) + timer_weight c"
    if "n < length cs" for cs c
    using that by (induction cs arbitrary: n) (auto split: nat.split simp: less_Suc_eq_0_disj)
  from this[OF assms] show ?thesis by (simp add: updateCall_def)
qed

lemma one_reply: "length (newReplies p (sendCallAsync msg h p)) \<le> 1"
  by (auto simp: sendCallAsync_def newReplies_def Let_def out_def claimCall_def registerCall_def split: option.split prod.split)

lemma work_comes_nearer:
  assumes n: "n < length (calls s)" and step: "work_step obj n w s = (ws', s')"
  shows "sum_list (map rank ws') + sum_list (map timer_weight (calls s')) < rank w + sum_list (map timer_weight (calls s))"
proof (cases w)
  case (Send msg)
  have "sum_list (map rank (map (\<lambda>(_, r). Reply r) rs)) = 8 * length rs" for rs :: "(nat \<times> 'a result_message) list"
    by (induction rs) auto
  with Send step one_reply[of "conn s" msg "Some n"] show ?thesis by (auto simp: work_step_def Let_def)
next
  case (File callId)
  with step timer_weight_update[OF n, of "\<lambda>c. c\<lparr>filedAs := callId\<rparr>"] show ?thesis
    by (auto simp: work_step_def Let_def timer_weight_def updateCall_def split: prod.splits filing.splits)
next
  case Rearm
  with step timer_weight_update[OF n, of "\<lambda>c. c\<lparr>armed := Some (effectiveMs (timeoutMs c))\<rparr>"] show ?thesis
    by (auto simp: work_step_def Let_def timer_weight_def)
next
  case (Claim v e)
  with step timer_weight_update[OF n, of "\<lambda>c. c\<lparr>delivered := True\<rparr>"] show ?thesis
    by (auto simp: work_step_def deliverClaim_def Let_def timer_weight_def split: if_splits)
next
  case (Finish v e)
  have "n < length (calls (s\<lparr>conn := cancelPending (wireId (calls s ! n)) (conn s)\<rparr>))" using n by simp
  from timer_weight_update[OF this, of "\<lambda>c. c\<lparr>hasCallback := False, armed := None\<rparr>"] Finish step show ?thesis
    by (auto simp: work_step_def deliverFinish_def Let_def timer_weight_def split: if_splits)
qed (use step in \<open>auto simp: work_step_def deliverLeave_def Let_def split: prod.splits bool.splits if_splits option.splits\<close>)

lemma internal_comes_nearer:
  assumes ok: "calls_ok s" and step: "internal_step obj s s'"
  shows "weight s' < weight s"
  using step
proof cases
  case (work xs n w ys ws s'')
  have n: "n < length (calls s)" using call_okD(3)[OF ok, of "(n, w)"] work(2) by simp
  have "sum_list (map (rank \<circ> snd \<circ> Pair n) ws) = sum_list (map rank ws)" by (simp add: comp_def)
  with work_comes_nearer[OF n work(3)] work(1,2) show ?thesis by (simp add: weight_def)
next
  case (timer n)
  then obtain ms where ms: "armed (calls s ! n) = Some ms" by auto
  with timer timer_weight_update[of n s "\<lambda>c. c\<lparr>armed := None\<rparr>"] show ?thesis
    by (simp add: weight_def timerFires_def timer_weight_def)
qed

lemma quiet:
  assumes "\<nexists>s'. internal_step obj s s'" and "n < length (calls s)"
  shows "works s = [] \<and> armed (calls s ! n) = None"
proof
  show "works s = []"
  proof (cases "works s")
    case (Cons x ws)
    obtain n w where x: "x = (n, w)" by fastforce
    have "works s = [] @ (n, w) # ws" using Cons x by simp
    from work[OF this surjective_pairing] assms(1) show ?thesis by blast
  qed
  show "armed (calls s ! n) = None" using timer[OF assms(2)] assms(1) by blast
qed

text \<open>
  C6: However calls, replies, deadlines, completions, teardown and other users of the connection
  interleave, the callback of an asynchronous call is posted at most once. Without further input
  from outside, the work still under way comes to an end, and when it has, and no deadline is
  running, every call issued has had its callback posted exactly once.
\<close>

theorem async_callback_posted_once:
  assumes "calls_reachable obj s" and "n < length (calls s)"
  shows "posts n s \<le> 1 \<and> (\<forall>s'. internal_step obj s s' \<longrightarrow> weight s' < weight s) \<and>
    ((\<nexists>s'. internal_step obj s s') \<longrightarrow> posts n s = 1)"
proof -
  have ok: "calls_ok s" by (rule reachable_ok[OF assms(1)])
  note c = call_okD(1)[OF ok assms(2)]
  have "posts n s \<le> 1" using c by (simp add: call_ok_def split: if_splits)
  moreover have "posts n s = 1" if "\<nexists>s'. internal_step obj s s'"
    using quiet[OF that assms(2)] c by (auto simp: call_ok_def split: if_splits)
  ultimately show ?thesis using internal_comes_nearer[OF ok] by blast
qed

subsection \<open>Runs\<close>

text \<open>The piece of work at a position performed.\<close>

definition perform :: "qstring \<Rightarrow> nat \<Rightarrow> 'v async_calls \<Rightarrow> 'v async_calls" where
  "perform obj k s = (case works s ! k of (n, w) \<Rightarrow>
     case work_step obj n w s of (ws, s') \<Rightarrow>
       s'\<lparr>works := take k (works s) @ map (Pair n) ws @ drop (Suc k) (works s)\<rparr>)"

datatype 'v move =
  MCall "'v call_message" int
| MWork nat
| MTimer nat
| MReply "'v result_message"


fun make_move :: "qstring \<Rightarrow> 'v move \<Rightarrow> 'v async_calls \<Rightarrow> 'v async_calls" where
  "make_move obj (MCall msg t) s =
     callAsync obj (\<lambda>_. call_args msg) True (call_caller msg) (call_authToken msg) (call_method msg) [] t s"
| "make_move obj (MWork k) s = (if k < length (works s) then perform obj k s else s)"
| "make_move obj (MTimer n) s = (if n < length (calls s) then timerFires obj n s else s)"
| "make_move obj (MReply r) s = connectionDoes (OpIncoming (ResultMsg r)) s"

definition play :: "qstring \<Rightarrow> 'v move list \<Rightarrow> 'v async_calls" where
  "play obj ms = fold (make_move obj) ms newCalls"

lemma perform_step: "k < length (works s) \<Longrightarrow> internal_step obj s (perform obj k s)"
proof -
  assume k: "k < length (works s)"
  obtain n w where w: "works s ! k = (n, w)" by fastforce
  obtain ws s' where step: "work_step obj n w s = (ws, s')" by fastforce
  have "works s = take k (works s) @ (n, w) # drop (Suc k) (works s)" using id_take_nth_drop[OF k] w by simp
  from work[OF this step] show ?thesis by (simp add: perform_def w step)
qed

lemma move_reachable: "calls_reachable obj s \<Longrightarrow> calls_reachable obj (make_move obj m s)"
proof (cases m)
  case (MTimer n)
  assume s: "calls_reachable obj s"
  have "calls_reachable obj (timerFires obj n s)" if "n < length (calls s)" "armed (calls s ! n) \<noteq> None"
    using one_more[OF s internal[OF timer[OF that]]] .
  moreover have "timerFires obj n s = s" if "armed (calls s ! n) = None" using that by (simp add: timerFires_def)
  ultimately show ?thesis using MTimer s by (cases "armed (calls s ! n) = None") auto
qed (auto intro: one_more calls_step.intros perform_step)

lemma play_reachable: "calls_reachable obj (play obj ms)"
proof -
  have "calls_reachable obj (fold (make_move obj) ms s)" if "calls_reachable obj s" for s
    using that by (induction ms arbitrary: s) (auto intro: move_reachable)
  then show ?thesis by (simp add: play_def no_calls)
qed

definition a_call :: "unit call_message" where
  "a_call = \<lparr>call_id = 0, call_authToken = ''t'', call_object = ''o'', call_method = ''m'', call_args = [], call_caller = []\<rparr>"

text \<open>A call, its registration and sending, its deadline and its delivery.\<close>

definition timed_out_run :: "unit move list" where
  "timed_out_run = [MCall a_call 0, MWork 0, MWork 0, MTimer 0, MWork 0, MWork 0, MWork 0]"

theorem async_callback_posted_once_witness:
  "posts 0 (play ''o'' timed_out_run) = 1 \<and> works (play ''o'' timed_out_run) = []"
proof -
  have "works (play ''o'' timed_out_run) = []" "map armed (calls (play ''o'' timed_out_run)) = [None]" by code_simp+
  moreover from this(2) have "length (calls (play ''o'' timed_out_run)) = 1" "armed (calls (play ''o'' timed_out_run) ! 0) = None"
    by (auto simp: map_eq_Cons_conv)
  ultimately show ?thesis
    using async_callback_posted_once[OF play_reachable[of "''o''" timed_out_run], of 0]
    by (auto elim!: internal_step.cases)
qed

subsection \<open>Entries that outlive their call\<close>

text \<open>The deadline runs before the call has registered itself.\<close>

definition overtaken_run :: "unit move list" where
  "overtaken_run = [MCall a_call 0, MTimer 0, MWork 1, MWork 1, MWork 1, MWork 0, MWork 0]"

text \<open>
  The deadline has left the registries when the reply handler, which still finds the call
  undelivered, files it as deferred and arms the timer again; the deadline's delivery then
  cancels that timer.
\<close>

definition deferred_reply :: "unit result_message" where
  "deferred_reply = \<lparr>res_id = 1, res_ok = True, res_value = VMap [(pendingCallKey, VString ''c7'')], res_err = [], res_errCode = []\<rparr>"

definition cancelled_rearm_run :: "unit move list" where
  "cancelled_rearm_run = [MCall a_call 5, MWork 0, MWork 0, MReply deferred_reply, MTimer 0, MWork 0, MWork 0, MWork 1,
     MWork 0, MWork 0, MWork 0, MWork 0]"

text \<open>
  Two interleavings leave entries behind a call whose callback has been posted, with no work
  and no timer left to remove them. A deadline that runs before \<open>callAsync\<close> has registered and sent
  the call leaves it among the in-flight calls of the handle and the pending calls of the connection.
  A deadline caught between leaving the registries and the gate, while the reply handler files the
  call as deferred, cancels the timer that was armed again to remove that entry.
\<close>

theorem finished_call_may_keep_its_entries:
  "(\<exists>s :: unit async_calls. calls_reachable ''o'' s \<and> works s = [] \<and> map armed (calls s) = [None] \<and> posts 0 s = 1 \<and>
      inflightCalls (shared s) = [(1, 0)] \<and> pendingCalls (conn s) = [(1, 0)]) \<and>
   (\<exists>s :: unit async_calls. calls_reachable ''o'' s \<and> works s = [] \<and> map armed (calls s) = [None] \<and> posts 0 s = 1 \<and>
      deferredCalls (shared s) = [(''c7'', 0)])"
proof
  let ?s = "play ''o'' overtaken_run"
  have "works ?s = []" by code_simp
  moreover have "map armed (calls ?s) = [None]" by code_simp
  moreover have "posts 0 ?s = 1" by code_simp
  moreover have "inflightCalls (shared ?s) = [(1, 0)]" by code_simp
  moreover have "pendingCalls (conn ?s) = [(1, 0)]" by code_simp
  ultimately show "\<exists>s :: unit async_calls. calls_reachable ''o'' s \<and> works s = [] \<and> map armed (calls s) = [None] \<and>
      posts 0 s = 1 \<and> inflightCalls (shared s) = [(1, 0)] \<and> pendingCalls (conn s) = [(1, 0)]"
    using play_reachable[of "''o''" overtaken_run] by (intro exI[of _ ?s] conjI)
next
  let ?s = "play ''o'' cancelled_rearm_run"
  have "works ?s = []" by code_simp
  moreover have "map armed (calls ?s) = [None]" by code_simp
  moreover have "posts 0 ?s = 1" by code_simp
  moreover have "deferredCalls (shared ?s) = [(''c7'', 0)]" by code_simp
  ultimately show "\<exists>s :: unit async_calls. calls_reachable ''o'' s \<and> works s = [] \<and> map armed (calls s) = [None] \<and>
      posts 0 s = 1 \<and> deferredCalls (shared s) = [(''c7'', 0)]"
    using play_reachable[of "''o''" cancelled_rearm_run] by (intro exI[of _ ?s] conjI)
qed

end
