(* ===== verification/Web_Transport.thy ===== *)
theory Web_Transport
  imports Plain_Host "HOL-Library.Sublist"
begin

text \<open>
  \<open>cpp/implementations/web\<close>: the transport of modules that live in a web page. The conversation is
  the shared peer's; here are the envelope that replaces the frame (web_message_codec.cpp), the
  in-memory channel (in_memory_channel.cpp) with the factory for channels (message_channel.cpp),
  the connection (web_rpc_connection.cpp) and the consumer's side of it
  (web_transport_connection.cpp). \<open>Web_Host\<close> holds the serving side. nlohmann's \<open>dump\<close> and \<open>parse\<close>
  are parameters; texts are strings of bytes.
\<close>

subsection \<open>The envelope\<close>

datatype web_error = WebFraming framing_error | WebDumpFailed | WebParseFailed | NotEnvelope | TagNotInteger
  | TagUnknown | WebPayload decode_error

definition exceedsCap :: "nat \<Rightarrow> bool" where
  "exceedsCap textLength = (unat kMaxFrameLength < 1 + textLength)"

definition webEnvelope :: "'d any_message \<Rightarrow> 'd json" where
  "webEnvelope m = Object (put_all [(''type'', Integer (ucast (messageTypeOf m))), (''payload'', messageToJson m)])"

definition encodeWebMessage :: "('d json \<Rightarrow> qstring option) \<Rightarrow> 'd any_message \<Rightarrow> web_error + qstring" where
  "encodeWebMessage dump m = (case dump (webEnvelope m) of None \<Rightarrow> Inl WebDumpFailed
     | Some text \<Rightarrow> if exceedsCap (length text) then Inl (WebFraming FrameTooLarge) else Inr text)"

text \<open>\<open>get<int>\<close> of a 64-bit integer of either kind is a conversion to 32 bits.\<close>

definition tag_int :: "'d json \<Rightarrow> 32 word option" where
  "tag_int j = (case j of Integer i \<Rightarrow> Some (ucast i) | Unsigned u \<Rightarrow> Some (ucast u) | _ \<Rightarrow> None)"

definition decodeWebMessage ::
  "('d \<Rightarrow> u64) \<Rightarrow> (qstring \<Rightarrow> 'd json option) \<Rightarrow> qstring \<Rightarrow> web_error + 'd any_message" where
  "decodeWebMessage trunc parse text =
     (if exceedsCap (length text) then Inl (WebFraming FrameExceedsCap)
      else case parse text of None \<Rightarrow> Inl WebParseFailed
        | Some envelope \<Rightarrow> (case envelope of
            Object fs \<Rightarrow> (case (object_get fs ''type'', object_get fs ''payload'') of
                (Some t, Some payload) \<Rightarrow> (case tag_int t of None \<Rightarrow> Inl TagNotInteger
                  | Some tag \<Rightarrow> if sint tag < 1 \<or> 8 < sint tag then Inl TagUnknown
                      else (case jsonToMessage trunc (ucast tag) payload of
                              Inl e \<Rightarrow> Inl (WebPayload e) | Inr m \<Rightarrow> Inr m))
              | _ \<Rightarrow> Inl NotEnvelope)
          | _ \<Rightarrow> Inl NotEnvelope))"

subsection \<open>The in-memory channel\<close>

text \<open>
  One endpoint: what its pump has yet to deliver, whether it is closed, the receiver installed, and
  what has been delivered to which receiver. \<open>drainOnce\<close> is one turn of the pump's loop.
\<close>

record 'r channel_end =
  inbox :: "qstring list"
  closed :: bool
  receiver :: "'r option"
  delivered :: "('r \<times> qstring) list"

definition newEnd :: "'r channel_end" where
  "newEnd = \<lparr>inbox = [], closed = False, receiver = None, delivered = []\<rparr>"

definition queueMessage :: "qstring \<Rightarrow> 'r channel_end \<Rightarrow> bool \<times> 'r channel_end" where
  "queueMessage msg e = (if closed e then (False, e) else (True, e\<lparr>inbox := inbox e @ [msg]\<rparr>))"

definition closeEnd :: "'r channel_end \<Rightarrow> 'r channel_end" where
  "closeEnd e = (if closed e then e else e\<lparr>closed := True, inbox := []\<rparr>)"

definition drainOnce :: "'r channel_end \<Rightarrow> 'r channel_end" where
  "drainOnce e = (if closed e then e else case inbox e of [] \<Rightarrow> e
     | msg # rest \<Rightarrow> (case receiver e of
         None \<Rightarrow> e\<lparr>inbox := rest\<rparr>
       | Some r \<Rightarrow> e\<lparr>inbox := rest, delivered := delivered e @ [(r, msg)]\<rparr>))"

definition setReceiver :: "'r option \<Rightarrow> 'r channel_end \<Rightarrow> 'r channel_end" where
  "setReceiver r e = e\<lparr>receiver := r\<rparr>"

text \<open>A pair of endpoints; \<open>True\<close> names the first. A peer that is gone takes nothing.\<close>

record 'r channel_pair =
  endA :: "'r channel_end"
  endB :: "'r channel_end"
  goneA :: bool
  goneB :: bool

definition makeInMemoryChannelPair :: "'r channel_pair" where
  "makeInMemoryChannelPair = \<lparr>endA = newEnd, endB = newEnd, goneA = False, goneB = False\<rparr>"

definition sendOn :: "bool \<Rightarrow> qstring \<Rightarrow> 'r channel_pair \<Rightarrow> bool \<times> 'r channel_pair" where
  "sendOn first msg c =
     (if first
      then if goneB c then (False, c) else (case queueMessage msg (endB c) of (ok, e) \<Rightarrow> (ok, c\<lparr>endB := e\<rparr>))
      else if goneA c then (False, c) else (case queueMessage msg (endA c) of (ok, e) \<Rightarrow> (ok, c\<lparr>endA := e\<rparr>)))"

definition destroyEnd :: "bool \<Rightarrow> 'r channel_pair \<Rightarrow> 'r channel_pair" where
  "destroyEnd first c = (if first then c\<lparr>endA := closeEnd (endA c), goneA := True\<rparr>
     else c\<lparr>endB := closeEnd (endB c), goneB := True\<rparr>)"

definition isChannelOpen :: "'r channel_end \<Rightarrow> bool" where
  "isChannelOpen e = (\<not> closed e)"

datatype 'r channel_op = ChSend bool qstring | ChPump bool | ChReceiver bool "'r option" | ChClose bool | ChDestroy bool

definition onEnd :: "bool \<Rightarrow> ('r channel_end \<Rightarrow> 'r channel_end) \<Rightarrow> 'r channel_pair \<Rightarrow> 'r channel_pair" where
  "onEnd first f c = (if first then c\<lparr>endA := f (endA c)\<rparr> else c\<lparr>endB := f (endB c)\<rparr>)"

fun channel_step :: "'r channel_op \<Rightarrow> 'r channel_pair \<Rightarrow> 'r channel_pair" where
  "channel_step (ChSend first msg) c = snd (sendOn first msg c)"
| "channel_step (ChPump first) c = onEnd first drainOnce c"
| "channel_step (ChReceiver first r) c = onEnd first (setReceiver r) c"
| "channel_step (ChClose first) c = onEnd first closeEnd c"
| "channel_step (ChDestroy first) c = destroyEnd first c"

text \<open>The factory for channels: host code, or none installed.\<close>

definition setMessageChannelFactory :: "(unit \<Rightarrow> 'c option) option \<Rightarrow> (unit \<Rightarrow> 'c option) option \<Rightarrow> (unit \<Rightarrow> 'c option) option" where
  "setMessageChannelFactory f storage = f"

definition makeMessageChannel :: "(unit \<Rightarrow> 'c option) option \<Rightarrow> 'c option" where
  "makeMessageChannel storage = (case storage of None \<Rightarrow> None | Some f \<Rightarrow> f ())"

subsection \<open>The connection\<close>

text \<open>
  A peer over a channel. \<open>sentTexts\<close> is what it handed to the channel, \<open>listening\<close> whether its
  receiver is installed there; without a channel it does nothing.
\<close>

record ('h, 'd) web_connection =
  wpeer :: "('h, 'd) rpc_peer"
  hasChannel :: bool
  wstarted :: bool
  listening :: bool
  sentTexts :: "qstring list"

definition newWebConnection :: "bool \<Rightarrow> bool \<Rightarrow> ('h, 'd) web_connection" where
  "newWebConnection channel handler =
     \<lparr>wpeer = newPeer handler, hasChannel = channel, wstarted = False, listening = False, sentTexts = []\<rparr>"

definition webStart :: "('h, 'd) web_connection \<Rightarrow> ('h, 'd) web_connection" where
  "webStart c = (if wstarted c then c
     else if \<not> hasChannel c then c\<lparr>wstarted := True\<rparr> else c\<lparr>wstarted := True, listening := True\<rparr>)"

definition emitWebMessage ::
  "('d json \<Rightarrow> qstring option) \<Rightarrow> 'd any_message \<Rightarrow> ('h, 'd) web_connection \<Rightarrow> web_error + ('h, 'd) web_connection" where
  "emitWebMessage dump m c = (if stopped (wpeer c) then Inr c
     else case encodeWebMessage dump m of Inl e \<Rightarrow> Inl e | Inr text \<Rightarrow> Inr (c\<lparr>sentTexts := sentTexts c @ [text]\<rparr>))"

definition closeTransport :: "('h, 'd) web_connection \<Rightarrow> ('h, 'd) web_connection" where
  "closeTransport c = (if \<not> hasChannel c then c else c\<lparr>listening := False\<rparr>)"

text \<open>Stopping a peer that is running closes its transport.\<close>

definition webFail :: "qstring \<Rightarrow> ('h, 'd) web_connection \<Rightarrow> ('h, 'd) web_connection" where
  "webFail reason c = (if stopped (wpeer c) then c else closeTransport (c\<lparr>wpeer := fail reason (wpeer c)\<rparr>))"

definition onChannelMessage ::
  "('d \<Rightarrow> u64) \<Rightarrow> (qstring \<Rightarrow> 'd json option) \<Rightarrow> (web_error \<Rightarrow> qstring) \<Rightarrow> qstring \<Rightarrow>
   ('h, 'd) web_connection \<Rightarrow> ('h, 'd) web_connection" where
  "onChannelMessage trunc parse what text c =
     (if stopped (wpeer c) then c
      else case decodeWebMessage trunc parse text of
        Inl e \<Rightarrow> webFail (''web decode error: '' @ what e) c
      | Inr m \<Rightarrow> c\<lparr>wpeer := dispatchIncoming m (wpeer c)\<rparr>)"

subsection \<open>The consumer's side\<close>

text \<open>\<open>channel\<close> tells whether there is a channel and whether it is open; old conversations are kept
  in \<open>retired\<close>.\<close>

record ('h, 'd) web_client =
  channel :: "bool option"
  serves :: bool
  conversation :: "('h, 'd) web_connection option"
  connectedFlag :: bool
  retired :: "('h, 'd) web_connection list"

definition newWebClient :: "bool option \<Rightarrow> bool \<Rightarrow> ('h, 'd) web_client" where
  "newWebClient ch handler = \<lparr>channel = ch, serves = handler, conversation = None, connectedFlag = False, retired = []\<rparr>"

definition webConnectToHost :: "('h, 'd) web_client \<Rightarrow> bool \<times> ('h, 'd) web_client" where
  "webConnectToHost w =
     (if connectedFlag w then (True, w)
      else if channel w \<noteq> Some True then (False, w)
      else (True, w\<lparr>conversation := Some (webStart (newWebConnection True (serves w))), connectedFlag := True\<rparr>))"

definition webIsConnected :: "('h, 'd) web_client \<Rightarrow> bool" where
  "webIsConnected w = (connectedFlag w \<and> (case conversation w of None \<Rightarrow> False | Some c \<Rightarrow> isOpen (wpeer c)))"

definition webReconnect :: "('h, 'd) web_client \<Rightarrow> bool \<times> ('h, 'd) web_client" where
  "webReconnect w = webConnectToHost (w\<lparr>conversation := None, connectedFlag := False,
     retired := (case conversation w of None \<Rightarrow> retired w | Some c \<Rightarrow> retired w @ [webFail ''reconnecting'' c])\<rparr>)"

text \<open>\<open>requestObject\<close> answers a handle over the conversation, by name; no probe is made.\<close>

definition webRequestObject :: "qstring \<Rightarrow> ('h, 'd) web_client \<Rightarrow> qstring option" where
  "webRequestObject name w = (if \<not> webIsConnected w then None else Some name)"

definition webEndpointUrl :: qstring where
  "webEndpointUrl = ''web://''"

subsection \<open>Texts survive\<close>

lemma tag_of_message:
  fixes m :: "'d any_message"
  shows "tag_int (respell (Integer (ucast (messageTypeOf m)) :: 'd json)) = Some (ucast (messageTypeOf m))"
  "1 \<le> sint (ucast (messageTypeOf m) :: 32 word) \<and> sint (ucast (messageTypeOf m) :: 32 word) \<le> 8"
  "(ucast (ucast (messageTypeOf m) :: 32 word) :: u8) = messageTypeOf m"
  by (cases m; simp add: tag_int_def int64_max_def)+

lemma web_round_trip:
  assumes "canonical_message m" and "encodeWebMessage dump m = Inr text"
    and "\<And>t. dump (webEnvelope m) = Some t \<Longrightarrow> parse t = Some (respell (webEnvelope m))"
  shows "decodeWebMessage trunc parse text = Inr m"
proof -
  have enc: "dump (webEnvelope m) = Some text" "\<not> exceedsCap (length text)"
    using assms(2) by (auto simp: encodeWebMessage_def split: option.splits if_splits)
  obtain fs where fs: "respell (webEnvelope m) = Object fs"
    and t: "object_get fs ''type'' = Some (respell (Integer (ucast (messageTypeOf m))))"
    and p: "object_get fs ''payload'' = Some (respell (messageToJson m))"
    by (simp add: webEnvelope_def object_get_respell object_get_put_all del: respell.simps(3))
  have "parse text = Some (Object fs)" using assms(3)[OF enc(1)] fs by simp
  with t p enc(2) tag_of_message[of m] show ?thesis
    by (simp add: decodeWebMessage_def jsonToMessage_respell message_round_trip[OF assms(1)] not_less del: respell.simps)
qed

lemma onChannelMessage_decoded:
  "\<not> stopped (wpeer c) \<Longrightarrow> decodeWebMessage trunc parse text = Inr m \<Longrightarrow>
   onChannelMessage trunc parse what text c = c\<lparr>wpeer := dispatchIncoming m (wpeer c)\<rparr>"
  by (simp add: onChannelMessage_def)

lemma decoded_texts_dispatched:
  assumes "list_all2 (\<lambda>text m. decodeWebMessage trunc parse text = Inr m) texts ms" and "\<not> stopped (wpeer c)"
  shows "fold (onChannelMessage trunc parse what) texts c = c\<lparr>wpeer := fold dispatchIncoming ms (wpeer c)\<rparr>"
  using assms by (induction arbitrary: c rule: list_all2_induct) (simp_all add: onChannelMessage_decoded)

lemma stopped_ignores_texts: "stopped (wpeer c) \<Longrightarrow> fold (onChannelMessage trunc parse what) texts c = c"
  by (induction texts) (simp_all add: onChannelMessage_def)

lemma fail_stops [simp]: "stopped (fail reason p)"
  by (simp add: fail_def Let_def sweepPending_def)


text \<open>A dump and a parser that know one document.\<close>

definition one_dump :: "nat json \<Rightarrow> qstring option" where
  "one_dump j = (if j = webEnvelope ping_message then Some ''ping'' else None)"

definition one_parse :: "qstring \<Rightarrow> nat json option" where
  "one_parse t = (if t = ''ping'' then Some (respell (webEnvelope ping_message)) else None)"

definition fresh_connection :: "(nat, nat) web_connection" where
  "fresh_connection = webStart (newWebConnection True True)"


text \<open>
  The type tag is narrowed to 32 bits before it is compared with the known tags. A document
  whose tag is a known one plus any multiple of \<open>2 ^ 32\<close> is not refused as unknown: it decodes as
  the message with the low tag.
\<close>

theorem web_tag_wraps:
  assumes "parse text = Some (Object fs)" and "parse text' = Some (Object (object_put ''type'' (Unsigned (t + n * 2 ^ 32)) fs))"
    and "object_get fs ''type'' = Some (Unsigned t)" and "length text' = length text"
  shows "decodeWebMessage trunc parse text' = decodeWebMessage trunc parse text"
proof -
  have "(ucast (t + n * 2 ^ 32) :: 32 word) = ucast t"
    by transfer (simp add: take_bit_eq_mod mod_mod_cancel)
  moreover have "object_get (object_put ''type'' v fs) ''payload'' = object_get fs ''payload''" for v
    by simp
  ultimately show ?thesis using assms by (simp add: decodeWebMessage_def tag_int_def cong: option.case_cong)
qed

definition wrapped_fields :: "(qstring \<times> nat json) list" where
  "wrapped_fields = [(''payload'', Object []), (''type'', Unsigned 6)]"

definition wrapped_parse :: "qstring \<Rightarrow> nat json option" where
  "wrapped_parse t = (if t = ''a'' then Some (Object wrapped_fields)
     else if t = ''b'' then Some (Object (object_put ''type'' (Unsigned (6 + 1 * 2 ^ 32)) wrapped_fields)) else None)"

theorem web_tag_wraps_witness:
  "decodeWebMessage (\<lambda>_. 0) wrapped_parse ''b'' = Inr (TokenMsg \<lparr>tok_authToken = [], tok_moduleName = [], tok_token = []\<rparr>)"
proof -
  have "decodeWebMessage (\<lambda>_. 0) wrapped_parse ''b'' = decodeWebMessage (\<lambda>_. 0) wrapped_parse ''a''"
    by (rule web_tag_wraps[where t = 6 and n = 1 and fs = wrapped_fields])
      (simp_all add: wrapped_parse_def, simp add: wrapped_fields_def object_get_def)
  also have "\<dots> = Inr (TokenMsg \<lparr>tok_authToken = [], tok_moduleName = [], tok_token = []\<rparr>)"
    by (simp add: decodeWebMessage_def wrapped_parse_def wrapped_fields_def tag_int_def object_get_def exceedsCap_def
        kMaxFrameLength_def jsonToMessage_def value_string_def)
  finally show ?thesis .
qed

subsection \<open>What a channel delivers\<close>

definition endOf :: "bool \<Rightarrow> 'r channel_pair \<Rightarrow> 'r channel_end" where
  "endOf first c = (if first then endA c else endB c)"

definition goneOf :: "bool \<Rightarrow> 'r channel_pair \<Rightarrow> bool" where
  "goneOf first c = (if first then goneA c else goneB c)"

definition handedOn :: "'r channel_end \<Rightarrow> qstring list" where
  "handedOn e = map snd (delivered e) @ inbox e"

text \<open>What was sent towards an endpoint.\<close>

fun sentTo :: "bool \<Rightarrow> 'r channel_op list \<Rightarrow> qstring list" where
  "sentTo first [] = []"
| "sentTo first (ChSend from msg # ops) = (if from \<noteq> first then msg # sentTo first ops else sentTo first ops)"
| "sentTo first (_ # ops) = sentTo first ops"

lemma sentTo_append [simp]: "sentTo first (xs @ ys) = sentTo first xs @ sentTo first ys"
  by (induction first xs rule: sentTo.induct) auto

lemma handed_on_step:
  "subseq (handedOn (endOf f (channel_step op c))) (handedOn (endOf f c) @ sentTo f [op])"
proof (cases op)
  case (ChSend g m)
  have "subseq (handedOn (endOf f c) @ []) (handedOn (endOf f c) @ [m])" by (intro list_emb_append_mono) auto
  with ChSend show ?thesis
    by (auto simp: sendOn_def queueMessage_def endOf_def handedOn_def split: prod.splits)
next
  case (ChPump g)
  have "subseq (d @ ms) (d @ m # ms)" for d ms and m :: qstring by (intro list_emb_append_mono) auto
  with ChPump show ?thesis
    by (auto simp: onEnd_def drainOnce_def endOf_def handedOn_def split: list.split option.split)
qed (auto simp: onEnd_def setReceiver_def closeEnd_def destroyEnd_def endOf_def handedOn_def)

lemma handed_on_run:
  "subseq (handedOn (endOf f (fold channel_step ops c))) (handedOn (endOf f c) @ sentTo f ops)"
proof (induction ops rule: rev_induct)
  case (snoc op ops)
  have "subseq (handedOn (endOf f (fold channel_step ops c)) @ sentTo f [op]) ((handedOn (endOf f c) @ sentTo f ops) @ sentTo f [op])"
    by (intro list_emb_append_mono snoc.IH) auto
  with handed_on_step[of f op "fold channel_step ops c"] show ?case
    by (auto intro: subseq_order.trans)
qed simp

text \<open>An endpoint that keeps its receiver, stays open and whose peer does not go.\<close>

fun undisturbed :: "bool \<Rightarrow> 'r channel_op \<Rightarrow> bool" where
  "undisturbed first (ChReceiver f r) = (f \<noteq> first \<or> r \<noteq> None)"
| "undisturbed first (ChClose f) = (f \<noteq> first)"
| "undisturbed first (ChDestroy f) = (f \<noteq> first)"
| "undisturbed first _ = True"

lemma undisturbed_step:
  assumes "\<not> closed (endOf f c)" and "receiver (endOf f c) \<noteq> None" and "\<not> goneOf f c" and "undisturbed f op"
  shows "handedOn (endOf f (channel_step op c)) = handedOn (endOf f c) @ sentTo f [op] \<and>
    \<not> closed (endOf f (channel_step op c)) \<and> receiver (endOf f (channel_step op c)) \<noteq> None \<and> \<not> goneOf f (channel_step op c)"
  using assms
  by (cases f; cases op) (auto simp: sendOn_def queueMessage_def onEnd_def drainOnce_def setReceiver_def closeEnd_def destroyEnd_def
      endOf_def goneOf_def handedOn_def split: prod.splits list.split option.split)

lemma undisturbed_run:
  assumes "\<not> closed (endOf f c)" and "receiver (endOf f c) \<noteq> None" and "\<not> goneOf f c" and "\<forall>op \<in> set ops. undisturbed f op"
  shows "handedOn (endOf f (fold channel_step ops c)) = handedOn (endOf f c) @ sentTo f ops"
  using assms
proof (induction ops arbitrary: c)
  case (Cons op ops)
  from undisturbed_step[of f c op] Cons.prems Cons.IH[of "channel_step op c"] sentTo_append[of f "[op]" ops] show ?case by simp
qed simp

lemma closed_step:
  "closed (endOf f c) \<Longrightarrow> closed (endOf f (channel_step op c)) \<and> delivered (endOf f (channel_step op c)) = delivered (endOf f c)"
  by (cases f; cases op) (auto simp: sendOn_def queueMessage_def onEnd_def drainOnce_def setReceiver_def closeEnd_def destroyEnd_def
      endOf_def split: prod.splits)

lemma closed_run:
  "closed (endOf f c) \<Longrightarrow> delivered (endOf f (fold channel_step ops c)) = delivered (endOf f c)"
proof (induction ops arbitrary: c)
  case (Cons op ops)
  with closed_step[OF Cons.prems, of op] show ?case by simp
qed simp

text \<open>
  The in-memory channel. In every interleaving of sends, pump turns, receiver changes and
  closings of both ends, what has been delivered and what still waits at an end is a subsequence, in
  order, of what was sent to it; it is all of it once a receiver is installed that stays while
  the end is not closed; nothing is delivered at a closed end; and a message that the pump takes
  while no receiver is installed reaches nobody, even if one is installed afterwards. Whether a send
  succeeds depends on the other end alone: an end that has been closed still sends.
\<close>

theorem channel_delivers_in_order:
  fixes ops :: "'r channel_op list"
  defines "c \<equiv> fold channel_step ops makeInMemoryChannelPair"
  shows "subseq (handedOn (endOf f c)) (sentTo f ops) \<and>
    ((\<forall>op \<in> set more_ops. undisturbed f op) \<and> \<not> closed (endOf f c) \<and> \<not> goneOf f c \<longrightarrow>
       handedOn (endOf f (fold channel_step (ChReceiver f (Some r) # more_ops) c)) = handedOn (endOf f c) @ sentTo f more_ops) \<and>
    (closed (endOf f c) \<longrightarrow> delivered (endOf f (fold channel_step more_ops c)) = delivered (endOf f c)) \<and>
    (receiver (endOf f c) = None \<and> inbox (endOf f c) = msg # rest \<and> \<not> closed (endOf f c) \<longrightarrow>
       handedOn (endOf f (channel_step (ChPump f) c)) = map snd (delivered (endOf f c)) @ rest) \<and>
    fst (sendOn f msg c) = (\<not> goneOf (\<not> f) c \<and> \<not> closed (endOf (\<not> f) c))"
proof (intro conjI impI)
  have "handedOn (endOf f (makeInMemoryChannelPair :: 'r channel_pair)) = []"
    by (simp add: handedOn_def endOf_def makeInMemoryChannelPair_def newEnd_def)
  with handed_on_run[of f ops makeInMemoryChannelPair] show "subseq (handedOn (endOf f c)) (sentTo f ops)"
    by (simp add: c_def)
next
  assume keep: "(\<forall>op \<in> set more_ops. undisturbed f op) \<and> \<not> closed (endOf f c) \<and> \<not> goneOf f c"
  let ?d = "channel_step (ChReceiver f (Some r)) c"
  have d: "\<not> closed (endOf f ?d)" "receiver (endOf f ?d) \<noteq> None" "\<not> goneOf f ?d" "handedOn (endOf f ?d) = handedOn (endOf f c)"
    using keep by (auto simp: onEnd_def setReceiver_def endOf_def goneOf_def handedOn_def)
  have "handedOn (endOf f (fold channel_step more_ops ?d)) = handedOn (endOf f ?d) @ sentTo f more_ops"
    by (rule undisturbed_run[OF d(1-3)]) (use keep in blast)
  with d(4) show "handedOn (endOf f (fold channel_step (ChReceiver f (Some r) # more_ops) c)) = handedOn (endOf f c) @ sentTo f more_ops"
    by simp
next
  assume "closed (endOf f c)"
  then show "delivered (endOf f (fold channel_step more_ops c)) = delivered (endOf f c)" by (rule closed_run)
next
  assume "receiver (endOf f c) = None \<and> inbox (endOf f c) = msg # rest \<and> \<not> closed (endOf f c)"
  then show "handedOn (endOf f (channel_step (ChPump f) c)) = map snd (delivered (endOf f c)) @ rest"
    by (auto simp: onEnd_def drainOnce_def endOf_def handedOn_def)
next
  show "fst (sendOn f msg c) = (\<not> goneOf (\<not> f) c \<and> \<not> closed (endOf (\<not> f) c))"
    by (auto simp: sendOn_def queueMessage_def goneOf_def endOf_def split: prod.splits)
qed

theorem channel_delivers_in_order_witness:
  "handedOn (endOf False (fold channel_step [ChReceiver False (Some (0 :: nat)), ChSend True ''b'', ChPump False]
     (fold channel_step [ChSend True ''a'', ChPump False] makeInMemoryChannelPair))) = [''b'']"
proof -
  let ?ops = "[ChSend True ''a'', ChPump False] :: nat channel_op list"
  have "(\<forall>op \<in> set [ChSend True ''b'', ChPump False]. undisturbed False (op :: nat channel_op)) \<and>
      \<not> closed (endOf False (fold channel_step ?ops makeInMemoryChannelPair)) \<and>
      \<not> goneOf False (fold channel_step ?ops makeInMemoryChannelPair)" by code_simp
  moreover have "handedOn (endOf False (fold channel_step ?ops makeInMemoryChannelPair)) = []" by code_simp
  moreover have "sentTo False [ChSend True ''b'', ChPump False :: nat channel_op] = [''b'']" by simp
  ultimately show ?thesis
    using channel_delivers_in_order[THEN conjunct2, THEN conjunct1, rule_format, of "[ChSend True ''b'', ChPump False]" False ?ops 0]
    by simp
qed

end
