(* ===== verification/Web_Host.thy ===== *)
theory Web_Host
  imports Web_Transport
begin

text \<open>
  \<open>cpp/implementations/web/web_transport_host.cpp\<close>: the serving side of the web transport. Its code is
  a second copy of the plain host's with a connection per channel instead of a server; the
  operations are translated from that copy, and \<open>web_host_serves_like_plain\<close> shows that it is one.
\<close>

subsection \<open>State\<close>

text \<open>As for the plain host; \<open>attached\<close> are the connections it holds, \<open>halted\<close> those it has stopped or let go.\<close>

record ('o, 's, 'd) web_host =
  wpublished :: "(qstring \<times> ('o \<times> nat)) list"
  wsinks :: "(qstring, 's sink_table) qhash"
  whooks :: "(nat \<times> 'o \<times> qstring) list"
  wnextHook :: nat
  wposted :: "('o \<times> 'd host_task) list"
  wreplies :: "'d host_reply list"
  attached :: "nat list"
  halted :: "nat list"

definition newWebHost :: "('o, 's, 'd) web_host" where
  "newWebHost = \<lparr>wpublished = [], wsinks = [], whooks = [], wnextHook = 0, wposted = [], wreplies = [],
     attached = [], halted = []\<rparr>"

subsection \<open>Channels\<close>

text \<open>\<open>channel\<close> is \<open>None\<close> for a null channel, else whether it is open; \<open>open_conn\<close> tells which
  connections still are; \<open>cid\<close> names the new one, which is started last.\<close>

definition attachChannel ::
  "(nat \<Rightarrow> bool) \<Rightarrow> bool option \<Rightarrow> nat \<Rightarrow> ('o, 's, 'd) web_host \<Rightarrow> bool \<times> ('o, 's, 'd) web_host" where
  "attachChannel open_conn ch cid h =
     (if ch \<noteq> Some True then (False, h)
      else (True, h\<lparr>attached := filter open_conn (attached h) @ [cid],
                   halted := halted h @ filter (\<lambda>c. \<not> open_conn c) (attached h)\<rparr>))"

definition subscriberCount :: "qstring \<Rightarrow> qstring \<Rightarrow> ('o, 's, 'd) web_host \<Rightarrow> nat" where
  "subscriberCount obj ev h = (case hash_find (wsinks h) obj of None \<Rightarrow> 0
     | Some t \<Rightarrow> (case hash_find t ev of None \<Rightarrow> 0 | Some row \<Rightarrow> length row))"

definition webBindUrl :: qstring where
  "webBindUrl = ''web://''"

subsection \<open>Publishing\<close>

definition webPublish ::
  "('o \<Rightarrow> bool) \<Rightarrow> qstring \<Rightarrow> 'o option \<Rightarrow> ('o, 's, 'd) web_host \<Rightarrow> bool \<times> ('o, 's, 'd) web_host" where
  "webPublish is_proxy name obj h = (case obj of None \<Rightarrow> (False, h)
     | Some o1 \<Rightarrow>
       if \<not> is_proxy o1 then (False, h)
       else let pub = (o1, wnextHook h)
            in (True, h\<lparr>whooks := whooks h @ [(wnextHook h, o1, name)], wnextHook := Suc (wnextHook h),
                       wpublished := object_put name pub (wpublished h)\<rparr>))"

definition webUnpublish :: "qstring \<Rightarrow> ('o, 's, 'd) web_host \<Rightarrow> ('o, 's, 'd) web_host" where
  "webUnpublish name h = (case map_of (wpublished h) name of None \<Rightarrow> h
     | Some (o1, hook) \<Rightarrow> h\<lparr>whooks := filter (\<lambda>k. fst k \<noteq> hook) (whooks h),
                            wpublished := hash_remove name (wpublished h)\<rparr>)"

subsection \<open>Events\<close>

text \<open>The loop over the event's name and the wildcard, which \<open>continue\<close>s where no row is found.\<close>

fun webRows :: "qstring \<Rightarrow> 's sink_table \<Rightarrow> qstring list \<Rightarrow> nat list \<times> 's list \<Rightarrow> nat list \<times> 's list" where
  "webRows ev t [] acc = acc"
| "webRows ev t (which # rest) acc = (case hash_find t which of None \<Rightarrow> webRows ev t rest acc
     | Some row \<Rightarrow> let acc1 = addSinks row acc in if ev = [] then acc1 else webRows ev t rest acc1)"

definition webFanOut :: "qstring \<Rightarrow> qstring \<Rightarrow> ('o, 's, 'd) web_host \<Rightarrow> 's list" where
  "webFanOut name ev h = (case hash_find (wsinks h) name of None \<Rightarrow> []
     | Some t \<Rightarrow> snd (webRows ev t [ev, []] ([], [])))"

definition webSubscribe :: "subscribe_message \<Rightarrow> 's \<Rightarrow> nat \<Rightarrow> ('o, 's, 'd) web_host \<Rightarrow> ('o, 's, 'd) web_host" where
  "webSubscribe req sink cid h =
     (let t = hash_value (wsinks h) (sub_object req) [];
          row = hash_value t (sub_eventName req) []
      in h\<lparr>wsinks := hash_insert (sub_object req) (hash_insert (sub_eventName req) (hash_insert cid sink row) t) (wsinks h)\<rparr>)"

definition webUnsubscribe :: "unsubscribe_message \<Rightarrow> nat \<Rightarrow> ('o, 's, 'd) web_host \<Rightarrow> ('o, 's, 'd) web_host" where
  "webUnsubscribe req cid h = (case hash_find (wsinks h) (unsub_object req) of None \<Rightarrow> h
     | Some t \<Rightarrow> (case hash_find t (unsub_eventName req) of None \<Rightarrow> h
        | Some row \<Rightarrow>
          let row1 = hash_remove cid row;
              t1 = (if row1 = [] then hash_remove (unsub_eventName req) t else hash_insert (unsub_eventName req) row1 t)
          in h\<lparr>wsinks := (if t1 = [] then hash_remove (unsub_object req) (wsinks h)
                          else hash_insert (unsub_object req) t1 (wsinks h))\<rparr>))"

definition webConnectionClosed :: "nat \<Rightarrow> ('o, 's, 'd) web_host \<Rightarrow> ('o, 's, 'd) web_host" where
  "webConnectionClosed cid h = h\<lparr>wsinks := nonempty (map (map_prod id (closeIn cid)) (wsinks h))\<rparr>"

subsection \<open>Calls and tokens\<close>

definition webOnCall :: "'d call_message \<Rightarrow> nat \<Rightarrow> ('o, 's, 'd) web_host \<Rightarrow> ('o, 's, 'd) web_host" where
  "webOnCall req cid h = (case map_of (wpublished h) (call_object req) of
       None \<Rightarrow> h\<lparr>wreplies := wreplies h @ [ResultReply cid \<lparr>res_id = call_id req, res_ok = False, res_value = VNull,
                   res_err = ''object not published: '' @ call_object req, res_errCode = ''MODULE_NOT_LOADED''\<rparr>]\<rparr>
     | Some (o1, hook) \<Rightarrow> h\<lparr>wposted := wposted h @
         [(o1, CallTask cid (call_id req) (call_authToken req) (call_method req) (call_args req) ''web'')]\<rparr>)"

definition webOnMethods :: "methods_message \<Rightarrow> nat \<Rightarrow> ('o, 's, 'd) web_host \<Rightarrow> ('o, 's, 'd) web_host" where
  "webOnMethods req cid h = (case map_of (wpublished h) (mreq_object req) of
       None \<Rightarrow> h\<lparr>wreplies := wreplies h @ [MethodsReply cid
                   \<lparr>mres_id = mreq_id req, mres_ok = False, mres_methods = [], mres_err = ''object not published''\<rparr>]\<rparr>
     | Some (o1, hook) \<Rightarrow> h\<lparr>wposted := wposted h @ [(o1, MethodsTask cid (mreq_id req))]\<rparr>)"

definition webOnToken :: "token_message \<Rightarrow> ('o, 's, 'd) web_host \<Rightarrow> ('o, 's, 'd) web_host" where
  "webOnToken req h =
     (let target = (case map_of (wpublished h) (tok_moduleName req) of
                      Some (o1, hook) \<Rightarrow> Some o1
                    | None \<Rightarrow> if wpublished h \<noteq> [] then Some (fst (snd (hd (wpublished h)))) else None)
      in case target of None \<Rightarrow> h
         | Some o1 \<Rightarrow> h\<lparr>wposted := wposted h @ [(o1, TokenTask (tok_authToken req) (tok_moduleName req) (tok_token req))]\<rparr>)"

text \<open>\<open>~WebTransportHost\<close>: the tables are emptied first, then every connection is stopped, which
  comes to \<open>onConnectionClosed\<close>.\<close>

definition destroyWebHost :: "('o, 's, 'd) web_host \<Rightarrow> ('o, 's, 'd) web_host" where
  "destroyWebHost h =
     (let h1 = h\<lparr>wpublished := [], attached := [], wsinks := [],
                 whooks := filter (\<lambda>k. fst k \<notin> (snd \<circ> snd) ` set (wpublished h)) (whooks h)\<rparr>
      in fold (\<lambda>c h. webConnectionClosed c (h\<lparr>halted := halted h @ [c]\<rparr>)) (attached h) h1)"

fun webInbound :: "nat \<Rightarrow> 'd any_message \<Rightarrow> ('o, nat, 'd) web_host \<Rightarrow> ('o, nat, 'd) web_host" where
  "webInbound cid (CallMsg m) h = webOnCall m cid h"
| "webInbound cid (MethodsMsg m) h = webOnMethods m cid h"
| "webInbound cid (SubscribeMsg m) h = webSubscribe m cid cid h"
| "webInbound cid (UnsubscribeMsg m) h = webUnsubscribe m cid h"
| "webInbound cid (TokenMsg m) h = webOnToken m h"
| "webInbound cid _ h = h"

fun web_step :: "('o \<Rightarrow> bool) \<Rightarrow> ('o, 'd) host_event \<Rightarrow> ('o, nat, 'd) web_host \<Rightarrow> ('o, nat, 'd) web_host" where
  "web_step is_proxy (HFrom cid m) h = webInbound cid m h"
| "web_step is_proxy (HClosed cid) h = webConnectionClosed cid h"
| "web_step is_proxy (HPublish name obj) h = snd (webPublish is_proxy name obj h)"
| "web_step is_proxy (HUnpublish name) h = webUnpublish name h"

subsection \<open>The web host is the plain host\<close>

text \<open>What remains of a host without the wire's label and the connections.\<close>

fun unlabelled :: "'d host_task \<Rightarrow> 'd host_task" where
  "unlabelled (CallTask cid i token method args label) = CallTask cid i token method args []"
| "unlabelled t = t"

definition plain_view :: "('o, 's, 'd) plain_host \<Rightarrow> ('o, 's, 'd) plain_host" where
  "plain_view h = h\<lparr>protocol := Web, posted := map (map_prod id unlabelled) (posted h)\<rparr>"

definition web_view :: "('o, 's, 'd) web_host \<Rightarrow> ('o, 's, 'd) plain_host" where
  "web_view h = \<lparr>protocol = Web, published = wpublished h, sinks = wsinks h, hooks = whooks h, nextHook = wnextHook h,
     posted = map (map_prod id unlabelled) (wposted h), replies = wreplies h\<rparr>"

lemma views_eq:
  "web_view w = plain_view h \<longleftrightarrow> wpublished w = published h \<and> wsinks w = sinks h \<and> whooks w = hooks h \<and>
     wnextHook w = nextHook h \<and> map (map_prod id unlabelled) (wposted w) = map (map_prod id unlabelled) (posted h) \<and>
     wreplies w = replies h"
  by (cases h) (auto simp: web_view_def plain_view_def)

lemma fan_out_same: "wsinks w = sinks h \<Longrightarrow> webFanOut name ev w = fanOutEvent name ev h"
  by (auto simp: webFanOut_def fanOutEvent_def Let_def split: option.split)

lemma step_same:
  "web_view w = plain_view h \<Longrightarrow> web_view (web_step is_proxy e w) = plain_view (host_step is_proxy e h)"
proof (cases e)
  case (HFrom cid m)
  assume same: "web_view w = plain_view h"
  then show ?thesis unfolding HFrom views_eq
    by (cases m)
      (auto simp: webOnCall_def onCall_def webOnMethods_def onMethods_def webOnToken_def onToken_def tokenTarget_def Let_def
        webSubscribe_def onSubscribe_def sinkTable_def sinkRow_def webUnsubscribe_def onUnsubscribe_def put_or_drop_def
        notPublishedResult_def notPublishedMethods_def hd_conv_nth neq_Nil_conv split: option.split list.split)
qed (auto simp: views_eq webConnectionClosed_def onConnectionClosed_def webPublish_def publishObject_def webUnpublish_def
  unpublishObject_def Let_def split: option.split)

text \<open>Every call queued says that it came over the web wire.\<close>

fun from_web :: "'d host_task \<Rightarrow> bool" where
  "from_web (CallTask cid i token method args label) = (label = ''web'')"
| "from_web t = True"

definition labelled_web :: "('o, 's, 'd) web_host \<Rightarrow> bool" where
  "labelled_web w = list_all (from_web \<circ> snd) (wposted w)"

lemma web_labels: "labelled_web w \<Longrightarrow> labelled_web (web_step is_proxy e w)"
proof (cases e)
  case (HFrom cid m)
  assume "labelled_web w"
  then show ?thesis unfolding HFrom
    by (cases m) (auto simp: webOnCall_def webOnMethods_def webOnToken_def webSubscribe_def webUnsubscribe_def Let_def
        labelled_web_def split: option.split)
qed (auto simp: labelled_web_def webConnectionClosed_def webPublish_def webUnpublish_def Let_def split: option.split)


text \<open>Attaching keeps open connections only; destroying leaves nothing and stops them all.\<close>

lemma attached_are_open:
  "attachChannel open_conn ch cid h = (True, h') \<Longrightarrow> set (attached h') = {c \<in> set (attached h). open_conn c} \<union> {cid}"
  by (auto simp: attachChannel_def split: if_splits)

lemma destroyed_host_is_empty:
  "wpublished (destroyWebHost h) = [] \<and> wsinks (destroyWebHost h) = [] \<and> attached (destroyWebHost h) = [] \<and>
   halted (destroyWebHost h) = halted h @ attached h"
proof -
  have "wpublished h1 = [] \<and> wsinks h1 = [] \<and> attached h1 = [] \<Longrightarrow>
      (let h2 = fold (\<lambda>c h. webConnectionClosed c (h\<lparr>halted := halted h @ [c]\<rparr>)) cs h1
       in wpublished h2 = [] \<and> wsinks h2 = [] \<and> attached h2 = [] \<and> halted h2 = halted h1 @ cs)"
    for cs and h1 :: "('a, 'b, 'c) web_host"
    by (induction cs arbitrary: h1) (auto simp: webConnectionClosed_def nonempty_def Let_def)
  then show ?thesis by (simp add: destroyWebHost_def Let_def)
qed

end
