(* ===== verification/Transport_Config.thy ===== *)
theory Transport_Config
  imports Plain_Host
begin

text \<open>
  Which transport a configuration selects (logos_mode.h, logos_transport_factory.cpp) and the form
  in which configurations are handed to a child process (logos_transport_config.h,
  logos_transport_config_json.cpp). nlohmann's printer and parser are parameters, as is its
  conversion of a double to \<open>int\<close>.
\<close>

subsection \<open>Configurations\<close>

datatype wire_codec = JsonCodec | CborCodec

record transport_config =
  cfg_protocol :: transport_protocol
  cfg_host :: qstring
  cfg_port :: "16 word"
  caFile :: qstring
  certFile :: qstring
  keyFile :: qstring
  verifyPeer :: bool
  cfg_codec :: wire_codec

definition defaultConfig :: transport_config where
  "defaultConfig = \<lparr>cfg_protocol = LocalSocket, cfg_host = ''127.0.0.1'', cfg_port = 0, caFile = [], certFile = [],
     keyFile = [], verifyPeer = True, cfg_codec = JsonCodec\<rparr>"

fun protocolToString :: "transport_protocol \<Rightarrow> qstring" where
  "protocolToString LocalSocket = ''local''"
| "protocolToString Tcp = ''tcp''"
| "protocolToString TcpSsl = ''tcp_ssl''"
| "protocolToString Web = ''web''"

definition protocolFromString :: "qstring \<Rightarrow> transport_protocol" where
  "protocolFromString s = (if s = ''tcp'' then Tcp else if s = ''tcp_ssl'' then TcpSsl else if s = ''web'' then Web
     else LocalSocket)"

fun codecToString :: "wire_codec \<Rightarrow> qstring" where
  "codecToString CborCodec = ''cbor''"
| "codecToString JsonCodec = ''json''"

definition codecFromString :: "qstring \<Rightarrow> wire_codec" where
  "codecFromString s = (if s = ''cbor'' then CborCodec else JsonCodec)"

subsection \<open>Writing\<close>

definition configFields :: "transport_config \<Rightarrow> (qstring \<times> 'd json) list" where
  "configFields cfg =
     [(''protocol'', Str (protocolToString (cfg_protocol cfg)))] @
     (if cfg_protocol cfg \<noteq> LocalSocket \<and> cfg_protocol cfg \<noteq> Web
      then [(''host'', Str (cfg_host cfg)), (''port'', Unsigned (ucast (cfg_port cfg))),
            (''codec'', Str (codecToString (cfg_codec cfg)))]
      else []) @
     (if cfg_protocol cfg = TcpSsl
      then (if caFile cfg \<noteq> [] then [(''ca_file'', Str (caFile cfg))] else []) @
           (if certFile cfg \<noteq> [] then [(''cert_file'', Str (certFile cfg))] else []) @
           (if keyFile cfg \<noteq> [] then [(''key_file'', Str (keyFile cfg))] else []) @
           [(''verify_peer'', Boolean (verifyPeer cfg))]
      else [])"

definition configToJson :: "transport_config \<Rightarrow> 'd json" where
  "configToJson cfg = Object (put_all (configFields cfg))"

definition transportSetToJsonString :: "('d json \<Rightarrow> qstring option) \<Rightarrow> transport_config list \<Rightarrow> qstring option" where
  "transportSetToJsonString dump cfgs = dump (Array (map configToJson cfgs))"

subsection \<open>Reading\<close>

text \<open>\<open>value(key, default)\<close> throws when the value found has another kind; \<open>None\<close> is the exception.\<close>

definition value_or_string :: "(qstring \<times> 'd json) list \<Rightarrow> qstring \<Rightarrow> qstring \<Rightarrow> qstring option" where
  "value_or_string fs k d = (case object_get fs k of None \<Rightarrow> Some d | Some (Str s) \<Rightarrow> Some s | Some _ \<Rightarrow> None)"

definition value_or_bool :: "(qstring \<times> 'd json) list \<Rightarrow> qstring \<Rightarrow> bool \<Rightarrow> bool option" where
  "value_or_bool fs k d = (case object_get fs k of None \<Rightarrow> Some d | Some (Boolean b) \<Rightarrow> Some b | Some _ \<Rightarrow> None)"

text \<open>An \<open>int\<close> is taken from a number of any kind or a boolean, by conversion to 32 bits.\<close>

definition value_or_int :: "('d \<Rightarrow> 32 word) \<Rightarrow> (qstring \<times> 'd json) list \<Rightarrow> qstring \<Rightarrow> 32 word \<Rightarrow> 32 word option" where
  "value_or_int trunc fs k d = (case object_get fs k of None \<Rightarrow> Some d
     | Some (Integer i) \<Rightarrow> Some (ucast i) | Some (Unsigned u) \<Rightarrow> Some (ucast u) | Some (Float x) \<Rightarrow> Some (trunc x)
     | Some (Boolean b) \<Rightarrow> Some (if b then 1 else 0) | Some _ \<Rightarrow> None)"

definition portInRange :: "32 word \<Rightarrow> bool" where
  "portInRange raw = (0 \<le> sint raw \<and> sint raw \<le> 0xFFFF)"

text \<open>One element: skipped (\<open>Some None\<close>), read, or an exception that leaves the function.\<close>

definition configFromJson :: "('d \<Rightarrow> 32 word) \<Rightarrow> 'd json \<Rightarrow> transport_config option option" where
  "configFromJson trunc o1 = (case o1 of Object fs \<Rightarrow>
       Option.bind (value_or_string fs ''protocol'' ''local'') (\<lambda>p.
       Option.bind (value_or_string fs ''host'' ''127.0.0.1'') (\<lambda>h.
       Option.bind (value_or_int trunc fs ''port'' 0) (\<lambda>raw.
       if \<not> portInRange raw then Some None
       else Option.bind (value_or_string fs ''codec'' ''json'') (\<lambda>c.
            Option.bind (value_or_string fs ''ca_file'' []) (\<lambda>ca.
            Option.bind (value_or_string fs ''cert_file'' []) (\<lambda>cert.
            Option.bind (value_or_string fs ''key_file'' []) (\<lambda>kf.
            Option.bind (value_or_bool fs ''verify_peer'' True) (\<lambda>v.
            Some (Some \<lparr>cfg_protocol = protocolFromString p, cfg_host = h, cfg_port = ucast raw, caFile = ca,
              certFile = cert, keyFile = kf, verifyPeer = v, cfg_codec = codecFromString c\<rparr>))))))))) 
     | _ \<Rightarrow> Some None)"

fun configsFromJson :: "('d \<Rightarrow> 32 word) \<Rightarrow> 'd json list \<Rightarrow> transport_config list option" where
  "configsFromJson trunc [] = Some []"
| "configsFromJson trunc (o1 # os) = Option.bind (configFromJson trunc o1) (\<lambda>r.
     map_option (\<lambda>cs. (case r of None \<Rightarrow> cs | Some c \<Rightarrow> c # cs)) (configsFromJson trunc os))"

definition transportSetFromJsonString ::
  "('d \<Rightarrow> 32 word) \<Rightarrow> (qstring \<Rightarrow> 'd json option) \<Rightarrow> qstring \<Rightarrow> transport_config list option" where
  "transportSetFromJsonString trunc parse s =
     (if s = [] then Some []
      else case parse s of None \<Rightarrow> Some []
        | Some arr \<Rightarrow> (case arr of Array os \<Rightarrow> configsFromJson trunc os | _ \<Rightarrow> Some []))"

subsection \<open>Selecting a transport\<close>

datatype logos_mode = ModeRemote | ModeLocal | ModeMock

record mode_config =
  modeStorage :: logos_mode
  modeExplicitlySet :: bool

definition initialMode :: mode_config where
  "initialMode = \<lparr>modeStorage = ModeRemote, modeExplicitlySet = False\<rparr>"

definition setMode :: "logos_mode \<Rightarrow> mode_config \<Rightarrow> mode_config" where
  "setMode m c = c\<lparr>modeStorage := m, modeExplicitlySet := True\<rparr>"

text \<open>\<open>fixture\<close>: whether \<open>LOGOS_MOCK_FIXTURE\<close> is in the environment now.\<close>

definition getMode :: "bool \<Rightarrow> mode_config \<Rightarrow> logos_mode" where
  "getMode fixture c = (if \<not> modeExplicitlySet c \<and> fixture then ModeMock else modeStorage c)"

datatype transport_kind = LocalTransport | MockTransport | PlainTransport transport_config | WebTransport
  | RemoteTransport qstring

text \<open>\<open>start_ok\<close>: whether the plain host could listen; \<open>None\<close> is the null pointer.\<close>

definition createHost :: "(transport_config \<Rightarrow> bool) \<Rightarrow> logos_mode \<Rightarrow> transport_config \<Rightarrow> qstring \<Rightarrow> transport_kind option" where
  "createHost start_ok mode cfg url =
     (if mode = ModeLocal then Some LocalTransport
      else if mode = ModeMock then Some MockTransport
      else case cfg_protocol cfg of
        Tcp \<Rightarrow> if start_ok cfg then Some (PlainTransport cfg) else None
      | TcpSsl \<Rightarrow> if start_ok cfg then Some (PlainTransport cfg) else None
      | Web \<Rightarrow> Some WebTransport
      | LocalSocket \<Rightarrow> Some (RemoteTransport url))"

definition createConnection :: "logos_mode \<Rightarrow> transport_config \<Rightarrow> qstring \<Rightarrow> transport_kind" where
  "createConnection mode cfg url =
     (if mode = ModeLocal then LocalTransport
      else if mode = ModeMock then MockTransport
      else case cfg_protocol cfg of
        Tcp \<Rightarrow> PlainTransport cfg
      | TcpSsl \<Rightarrow> PlainTransport cfg
      | Web \<Rightarrow> WebTransport
      | LocalSocket \<Rightarrow> RemoteTransport url)"

definition needsQtEventLoop :: "logos_mode \<Rightarrow> transport_config \<Rightarrow> bool" where
  "needsQtEventLoop mode cfg =
     (if mode = ModeLocal then True
      else if mode = ModeMock then False
      else case cfg_protocol cfg of Tcp \<Rightarrow> False | TcpSsl \<Rightarrow> False | Web \<Rightarrow> False | LocalSocket \<Rightarrow> True)"

subsection \<open>What survives\<close>

text \<open>The configuration that carries what its protocol writes, and defaults for the rest.\<close>

definition written :: "transport_config \<Rightarrow> transport_config" where
  "written cfg = (case cfg_protocol cfg of
       TcpSsl \<Rightarrow> cfg
     | Tcp \<Rightarrow> cfg\<lparr>caFile := [], certFile := [], keyFile := [], verifyPeer := True\<rparr>
     | p \<Rightarrow> defaultConfig\<lparr>cfg_protocol := p\<rparr>)"

lemma protocol_strings [simp]: "protocolFromString (protocolToString p) = p"
  by (cases p) (simp_all add: protocolFromString_def)

lemma codec_strings [simp]: "codecFromString (codecToString c) = c"
  by (cases c) (simp_all add: codecFromString_def)

lemma sint_of_port: "sint (ucast (p :: 16 word) :: 32 word) = uint p"
proof -
  have "uint (ucast p :: 32 word) = uint p" by (simp add: uint_up_ucast is_up)
  moreover have "\<not> bit (ucast p :: 32 word) 31" by (auto simp: bit_ucast_iff dest: bit_imp_le_length)
  moreover have "take_bit 31 (uint p) = uint p"
    using uint_lt2p[of p] uint_ge_0[of p] by (intro take_bit_int_eq_self) simp_all
  ultimately show ?thesis by (simp add: sint_uint signed_take_bit_eq_if_positive bit_uint_iff)
qed

lemma port_bits [simp]:
  "(ucast (ucast p :: 64 word) :: 32 word) = ucast (p :: 16 word)"
  "portInRange (ucast (p :: 16 word))"
  "(ucast (ucast p :: 32 word) :: 16 word) = p"
  using uint_lt2p[of p] uint_ge_0[of p]
  by (auto intro!: bit_word_eqI simp: bit_ucast_iff portInRange_def sint_of_port dest: bit_imp_le_length)

lemma get_put_all: "object_get (put_all es) k = map_of (rev es) k"
proof (induction es rule: rev_induct)
  case (snoc e es)
  then show ?case by (cases e) (simp add: put_all_def)
qed (simp add: put_all_def object_get_def)

lemma written_fields:
  "configFromJson trunc (configToJson cfg) = Some (Some (written cfg))"
proof (cases cfg)
  case (fields p h pt ca cert kf v c)
  have p: "protocolFromString (protocolToString p) = p" by simp
  show ?thesis using p
    by (cases p; cases c) (simp_all add: fields configFromJson_def configToJson_def value_or_string_def value_or_bool_def
        value_or_int_def get_put_all configFields_def written_def defaultConfig_def codecFromString_def portInRange_def[of 0])
qed

lemma written_list: "configsFromJson trunc (map configToJson cfgs) = Some (map written cfgs)"
  by (induction cfgs) (simp_all add: written_fields)

lemma written_eq: "written cfg = cfg \<longleftrightarrow>
     (case cfg_protocol cfg of TcpSsl \<Rightarrow> True
        | Tcp \<Rightarrow> caFile cfg = [] \<and> certFile cfg = [] \<and> keyFile cfg = [] \<and> verifyPeer cfg
        | p \<Rightarrow> cfg = defaultConfig\<lparr>cfg_protocol := p\<rparr>)"
  by (cases cfg) (auto simp: written_def split: transport_protocol.splits)

lemma bad_port_stops_list:
  assumes "Object fs \<in> set os" and "object_get fs ''port'' = Some (Str v)"
  shows "configsFromJson trunc os = None"
  using assms(1)
proof (induction os)
  case (Cons o1 os)
  have "configFromJson trunc (Object fs) = None"
    using assms(2) by (auto simp: configFromJson_def value_or_int_def bind_eq_None_conv)
  with Cons show ?case by (cases "configFromJson trunc o1") auto
qed simp

text \<open>Both sides of a configuration choose the same transport, and the two kinds built on Qt are the ones that need a loop.\<close>

fun onQt :: "transport_kind \<Rightarrow> bool" where
  "onQt LocalTransport = True"
| "onQt (RemoteTransport url) = True"
| "onQt k = False"

lemma both_sides_agree:
  "createHost start_ok mode cfg url = Some k \<Longrightarrow> createConnection mode cfg url = k"
  by (auto simp: createHost_def createConnection_def split: if_splits transport_protocol.splits)

lemma loop_needed_for_qt: "needsQtEventLoop mode cfg \<longleftrightarrow> onQt (createConnection mode cfg url)"
  by (simp add: needsQtEventLoop_def createConnection_def split: transport_protocol.split)

lemma explicit_mode_wins: "getMode fixture (setMode m c) = m"
  by (simp add: getMode_def setMode_def)


text \<open>
  two ways a list of configurations is read that its documentation does not say. A port given as a text makes the
  conversion throw out of the function, so every configuration of the list is lost with it, however many were right;
  and a port is narrowed to 32 bits before its range is checked, so a number 2^32 too large is read as a valid port
  while 65536 is skipped.
\<close>

theorem bad_ports:
  assumes "s \<noteq> []" and "parse s = Some (Array os)"
    and "Object fs \<in> set os" and "object_get fs ''port'' = Some (Str v)"
  shows "transportSetFromJsonString trunc parse s = None \<and>
     configFromJson trunc (Object [(''port'', Unsigned (ucast (p :: 16 word) + 0x100000000))])
       = Some (Some (defaultConfig\<lparr>cfg_port := p\<rparr>)) \<and>
     configFromJson trunc (Object [(''port'', Unsigned 65536)]) = Some None"
proof (intro conjI)
  show "transportSetFromJsonString trunc parse s = None"
    using assms bad_port_stops_list[OF assms(3,4)] by (simp add: transportSetFromJsonString_def)
  have "(ucast (ucast p + 0x100000000 :: 64 word) :: 32 word) = ucast (ucast p :: 64 word)"
    by transfer (simp add: take_bit_eq_mod mod_mod_cancel)
  then show "configFromJson trunc (Object [(''port'', Unsigned (ucast p + 0x100000000))])
       = Some (Some (defaultConfig\<lparr>cfg_port := p\<rparr>))"
    by (simp add: configFromJson_def value_or_string_def value_or_bool_def value_or_int_def object_get_def
        defaultConfig_def protocolFromString_def codecFromString_def)
  show "configFromJson trunc (Object [(''port'', Unsigned 65536)]) = Some None"
    by (simp add: configFromJson_def value_or_string_def value_or_int_def object_get_def portInRange_def)
qed

text \<open>Concrete texts for the witnesses: a printer that numbers its documents, and its parser.\<close>

definition toy_set :: "transport_config list" where
  "toy_set = [defaultConfig, defaultConfig\<lparr>cfg_protocol := Tcp, cfg_port := 6001\<rparr>]"


theorem bad_ports_witness:
  "transportSetFromJsonString (\<lambda>_::nat. 0)
     (\<lambda>s. Some (Array [configToJson defaultConfig, Object [(''port'', Str ''80'')]])) ''x'' = None"
  using bad_ports[where s = "''x''" and trunc = "\<lambda>_::nat. 0" and p = 0 and fs = "[(''port'', Str ''80'')]" and v = "''80''"
      and parse = "\<lambda>s. Some (Array [configToJson defaultConfig, Object [(''port'', Str ''80'')]])"]
  by (simp add: object_get_def)

end
