(* ===== verification/Socket_Paths.thy ===== *)
theory Socket_Paths
  imports Prelude "HOL-Library.Word" "HOL-Library.Sublist"
begin

unbundle bit_operations_syntax

text \<open>
  The access policy of the local transport's sockets and the removal of the ones a killed process
  left behind (logos_socket_paths.cpp, both branches of the conditional compilation). The file
  system is a map from paths to inodes; the group database, the answers of the kernel and what
  other processes do between two system calls are parameters.
\<close>

subsection \<open>Files\<close>

datatype file_kind = Socket | OtherFile

record inode =
  inodeKind :: file_kind
  inodeUid :: "32 word"
  inodeGid :: "32 word"
  inodeMode :: "32 word"

type_synonym files = "string \<Rightarrow> inode option"

datatype connect_answer = Connected | Refused | NoEntry | OtherError

datatype group_answer = BufferTooSmall | GroupFailed | GroupFound "32 word"

text \<open>
  \<open>chownTo\<close>, \<open>chmodTo\<close>: what the call makes of the inode, \<open>None\<close> when it is refused. \<open>groupEntry\<close>:
  getgrnam_r for a name and a buffer size.
\<close>

record kernel =
  euid :: "32 word"
  groupEnv :: "string option"
  modeEnv :: "string option"
  groupEntry :: "string \<Rightarrow> nat \<Rightarrow> group_answer"
  chownTo :: "32 word \<Rightarrow> inode \<Rightarrow> inode option"
  chmodTo :: "32 word \<Rightarrow> inode \<Rightarrow> inode option"
  socketOpens :: "string \<Rightarrow> bool"
  connectTo :: "string \<Rightarrow> connect_answer"
  unlinkAllowed :: "string \<Rightarrow> bool"

subsection \<open>Reading the two variables\<close>

definition digits_value :: "nat \<Rightarrow> string \<Rightarrow> nat" where
  "digits_value b s = foldl (\<lambda>n c. n * b + (of_char c - 48)) 0 s"

text \<open>strtoul on a text of digits only: overflow of 64 bits is the only error.\<close>

definition strtoul :: "nat \<Rightarrow> string \<Rightarrow> nat option" where
  "strtoul b s = (if digits_value b s < 2 ^ 64 then Some (digits_value b s) else None)"

lemma buffer_steps: "2 ^ k < (1024 :: nat) \<Longrightarrow> k < 10"
  using power_less_imp_less_exp[of "2 :: nat" k 10] by simp

text \<open>The buffer grows from 1024 by doubling while it is below \<open>1 << 20\<close>.\<close>

function lookupGroup :: "(nat \<Rightarrow> group_answer) \<Rightarrow> nat \<Rightarrow> 32 word option" where
  "lookupGroup entry k = (case entry (1024 * 2 ^ k) of
       BufferTooSmall \<Rightarrow> if 1024 * 2 ^ k < (2 :: nat) ^ 20 then lookupGroup entry (Suc k) else None
     | GroupFailed \<Rightarrow> None
     | GroupFound g \<Rightarrow> Some g)"
  by pat_completeness auto

termination by (relation "measure (\<lambda>(entry, k). 10 - k)") (auto dest: buffer_steps intro: diff_less_mono2)

declare lookupGroup.simps [simp del]

definition isDigit :: "char \<Rightarrow> bool" where
  "isDigit c = (of_char c \<in> {48 .. 57 :: nat})"

definition isOctal :: "char \<Rightarrow> bool" where
  "isOctal c = (of_char c \<in> {48 .. 55 :: nat})"

definition resolveGid :: "kernel \<Rightarrow> string \<Rightarrow> 32 word option" where
  "resolveGid k spec =
     (if spec \<noteq> [] \<and> list_all isDigit spec
      then (case strtoul 10 spec of None \<Rightarrow> None
        | Some v \<Rightarrow> if v > 0xFFFFFFFF then None else Some (of_nat v))
      else lookupGroup (groupEntry k spec) 0)"

definition parseOctalMode :: "string \<Rightarrow> 32 word option" where
  "parseOctalMode spec =
     (if spec = [] then None
      else if \<not> list_all isOctal spec then None
      else case strtoul 8 spec of None \<Rightarrow> None
        | Some v \<Rightarrow> if v > 0xFFF then None else Some (of_nat v))"

subsection \<open>Applying the policy\<close>

datatype perms_error = StatFailed | NotASocket | NotOurs | UnknownGroup | ChownFailed | InvalidMode | ChmodFailed

definition wanted :: "string option \<Rightarrow> string option" where
  "wanted env = (case env of None \<Rightarrow> None | Some s \<Rightarrow> if s = [] then None else Some s)"

definition applyGroup :: "kernel \<Rightarrow> string \<Rightarrow> files \<Rightarrow> files \<times> perms_error option" where
  "applyGroup k path fs = (case wanted (groupEnv k) of None \<Rightarrow> (fs, None)
     | Some spec \<Rightarrow> (case resolveGid k spec of None \<Rightarrow> (fs, Some UnknownGroup)
       | Some g \<Rightarrow> (case Option.bind (fs path) (chownTo k g) of None \<Rightarrow> (fs, Some ChownFailed)
         | Some n \<Rightarrow> (fs(path \<mapsto> n), None))))"

definition applyMode :: "kernel \<Rightarrow> string \<Rightarrow> files \<Rightarrow> files \<times> perms_error option" where
  "applyMode k path fs = (case wanted (modeEnv k) of None \<Rightarrow> (fs, None)
     | Some spec \<Rightarrow> (case parseOctalMode spec of None \<Rightarrow> (fs, Some InvalidMode)
       | Some m \<Rightarrow> (case Option.bind (fs path) (chmodTo k m) of None \<Rightarrow> (fs, Some ChmodFailed)
         | Some n \<Rightarrow> (fs(path \<mapsto> n), None))))"

definition applySocketPerms :: "kernel \<Rightarrow> string \<Rightarrow> files \<Rightarrow> files \<times> perms_error option" where
  "applySocketPerms k path fs =
     (if wanted (groupEnv k) = None \<and> wanted (modeEnv k) = None then (fs, None)
      else case fs path of None \<Rightarrow> (fs, Some StatFailed)
        | Some n \<Rightarrow>
          if inodeKind n \<noteq> Socket then (fs, Some NotASocket)
          else if inodeUid n \<noteq> euid k then (fs, Some NotOurs)
          else case applyGroup k path fs of
            (fs1, Some e) \<Rightarrow> (fs1, Some e)
          | (fs1, None) \<Rightarrow> applyMode k path fs1)"

text \<open>On Windows a policy is refused when there is one.\<close>

definition applyPipePerms :: "kernel \<Rightarrow> bool" where
  "applyPipePerms k = (wanted (groupEnv k) = None \<and> wanted (modeEnv k) = None)"

subsection \<open>Stale sockets\<close>

definition isSocketDead :: "kernel \<Rightarrow> files \<Rightarrow> string \<Rightarrow> bool" where
  "isSocketDead k fs path = (case fs path of None \<Rightarrow> False
     | Some n \<Rightarrow>
       if inodeKind n \<noteq> Socket then False
       else if inodeUid n \<noteq> euid k then False
       else if length path \<ge> 108 then False
       else if \<not> socketOpens k path then False
       else case connectTo k path of Connected \<Rightarrow> False | Refused \<Rightarrow> True | NoEntry \<Rightarrow> True | OtherError \<Rightarrow> False)"

text \<open>The names the directory is read as, each with what others do to the files after it was probed.\<close>

fun reapEntries ::
  "kernel \<Rightarrow> string \<Rightarrow> string \<Rightarrow> (string \<times> (files \<Rightarrow> files)) list \<Rightarrow> files \<Rightarrow> files \<times> nat" where
  "reapEntries k dir pre [] fs = (fs, 0)"
| "reapEntries k dir pre ((entry, others) # es) fs =
     (if \<not> prefix pre entry then reapEntries k dir pre es fs
      else let full = dir @ ''/'' @ entry; fs1 = others fs in
        if isSocketDead k fs full \<and> fs1 full \<noteq> None \<and> unlinkAllowed k full
        then (case reapEntries k dir pre es (fs1(full := None)) of (fs2, n) \<Rightarrow> (fs2, Suc n))
        else reapEntries k dir pre es fs1)"

text \<open>\<open>None\<close>: the directory cannot be opened.\<close>

definition reapStaleSockets ::
  "kernel \<Rightarrow> string \<Rightarrow> string \<Rightarrow> (string \<times> (files \<Rightarrow> files)) list option \<Rightarrow> files \<Rightarrow> files \<times> nat" where
  "reapStaleSockets k dir pre listing fs =
     (if pre = [] then (fs, 0)
      else case listing of None \<Rightarrow> (fs, 0) | Some es \<Rightarrow> reapEntries k dir pre es fs)"

subsection \<open>What the calls do\<close>

text \<open>
  chown and chmod as POSIX documents them: the group \<open>-1\<close> leaves the group alone, and only the bits
  beyond the nine of the permissions may be cleared on the way.
\<close>

definition posix :: "kernel \<Rightarrow> bool" where
  "posix k \<longleftrightarrow>
     (\<forall>g n n'. chownTo k g n = Some n' \<longrightarrow> inodeKind n' = inodeKind n \<and> inodeUid n' = inodeUid n \<and>
        inodeGid n' = (if g = - 1 then inodeGid n else g) \<and> inodeMode n' AND 0x1FF = inodeMode n AND 0x1FF) \<and>
     (\<forall>m n n'. chmodTo k m n = Some n' \<longrightarrow> inodeKind n' = inodeKind n \<and> inodeUid n' = inodeUid n \<and>
        inodeGid n' = inodeGid n \<and> inodeMode n' AND 0x1FF = m AND 0x1FF)"

definition ownSocket :: "kernel \<Rightarrow> inode option \<Rightarrow> bool" where
  "ownSocket k f = (case f of None \<Rightarrow> False | Some n \<Rightarrow> inodeKind n = Socket \<and> inodeUid n = euid k)"

definition groupMet :: "kernel \<Rightarrow> inode \<Rightarrow> inode \<Rightarrow> bool" where
  "groupMet k n n' = (case wanted (groupEnv k) of None \<Rightarrow> inodeGid n' = inodeGid n
     | Some spec \<Rightarrow> (case resolveGid k spec of None \<Rightarrow> False
       | Some g \<Rightarrow> inodeGid n' = (if g = - 1 then inodeGid n else g)))"

definition modeMet :: "kernel \<Rightarrow> inode \<Rightarrow> inode \<Rightarrow> bool" where
  "modeMet k n n' = (case wanted (modeEnv k) of None \<Rightarrow> inodeMode n' AND 0x1FF = inodeMode n AND 0x1FF
     | Some spec \<Rightarrow> (case parseOctalMode spec of None \<Rightarrow> False
       | Some m \<Rightarrow> inodeMode n' AND 0x1FF = m AND 0x1FF))"

lemma frames:
  "applyGroup k path fs = (fs1, e) \<Longrightarrow> q \<noteq> path \<Longrightarrow> fs1 q = fs q"
  "applyMode k path fs = (fs2, e2) \<Longrightarrow> q \<noteq> path \<Longrightarrow> fs2 q = fs q"
  by (auto simp: applyGroup_def applyMode_def split: option.splits)

lemma failures:
  "applyGroup k path fs = (fs1, Some e) \<Longrightarrow> fs1 = fs \<and> e \<noteq> InvalidMode \<and> e \<noteq> ChmodFailed"
  "applyMode k path fs = (fs2, Some e2) \<Longrightarrow> fs2 = fs \<and> (e2 = InvalidMode \<or> e2 = ChmodFailed)"
  by (auto simp: applyGroup_def applyMode_def split: option.splits)

lemma applyGroup_effect:
  assumes "posix k" and "fs path = Some n" and "applyGroup k path fs = (fs1, None)"
  obtains n1 where "fs1 path = Some n1" "groupMet k n n1" "inodeKind n1 = inodeKind n"
    "inodeUid n1 = inodeUid n" "inodeMode n1 AND 0x1FF = inodeMode n AND 0x1FF"
  using assms by (auto simp: applyGroup_def groupMet_def posix_def split: option.splits)

lemma applyMode_effect:
  assumes "posix k" and "fs path = Some n" and "applyMode k path fs = (fs1, None)"
  obtains n1 where "fs1 path = Some n1" "modeMet k n n1" "inodeKind n1 = inodeKind n"
    "inodeUid n1 = inodeUid n" "inodeGid n1 = inodeGid n"
  using assms by (auto simp: applyMode_def modeMet_def posix_def split: option.splits)

lemma modeMet_cong: "inodeMode n1 AND 0x1FF = inodeMode n AND 0x1FF \<Longrightarrow> modeMet k n1 n' = modeMet k n n'"
  by (simp add: modeMet_def split: option.split)

lemma groupMet_cong: "inodeGid n2 = inodeGid n1 \<Longrightarrow> groupMet k n n2 = groupMet k n n1"
  by (simp add: groupMet_def split: option.split)


definition toy_kernel :: "string option \<Rightarrow> string option \<Rightarrow> bool \<Rightarrow> kernel" where
  "toy_kernel g m ok = \<lparr>euid = 501, groupEnv = g, modeEnv = m,
     groupEntry = (\<lambda>s size. if s = ''staff'' then (if size < 4096 then BufferTooSmall else GroupFound 20) else GroupFailed),
     chownTo = (\<lambda>g n. Some (if g = - 1 then n else n\<lparr>inodeGid := g\<rparr>)),
     chmodTo = (\<lambda>m n. if ok then Some (n\<lparr>inodeMode := m\<rparr>) else None),
     socketOpens = (\<lambda>_. True), connectTo = (\<lambda>p. if p = ''/t/logos_live'' then Connected else Refused),
     unlinkAllowed = (\<lambda>_. True)\<rparr>"

definition toy_files :: files where
  "toy_files = [''/t/logos_a'' \<mapsto> \<lparr>inodeKind = Socket, inodeUid = 501, inodeGid = 501, inodeMode = 0x1FD\<rparr>]"

lemma toy_kernel_posix: "posix (toy_kernel g m ok)"
  by (simp add: posix_def toy_kernel_def)


text \<open>
  the order chgrp, chmod does not only restrict. When the wanted mode closes the socket to its group, a socket whose
  bits let its own group write is open to the new group from the chown until the chmod, and stays so when the chmod is
  refused: neither before nor with the policy applied could that group connect.
\<close>

theorem half_applied_policy_is_looser:
  assumes "posix k" and "fs path = Some n" and "ownSocket k (Some n)"
    and "wanted (groupEnv k) = Some gs" and "resolveGid k gs = Some g" and "g \<noteq> - 1" and "inodeGid n \<noteq> g"
    and "chownTo k g n = Some n1" and "inodeMode n AND 0x12 = 0x10"
    and "wanted (modeEnv k) = Some ms" and "parseOctalMode ms = Some m" and "m AND 0x12 = 0" and "chmodTo k m n1 = None"
  shows "applySocketPerms k path fs = (fs(path \<mapsto> n1), Some ChmodFailed) \<and>
    inodeGid n1 = g \<and> inodeMode n1 AND 0x12 = 0x10"
proof -
  have keep: "w AND 0x12 = (w AND 0x1FF) AND 0x12" for w :: "32 word"
    by (simp add: and.assoc)
  have law: "inodeGid n1 = g" "inodeMode n1 AND 0x1FF = inodeMode n AND 0x1FF"
    using assms(1,6,8) by (auto simp: posix_def)
  then have "inodeMode n1 AND 0x12 = 0x10" using assms(9) keep by metis
  moreover have "applySocketPerms k path fs = (fs(path \<mapsto> n1), Some ChmodFailed)"
    using assms by (simp add: applySocketPerms_def applyGroup_def applyMode_def ownSocket_def)
  ultimately show ?thesis using law by simp
qed

theorem half_applied_policy_is_looser_witness:
  "applySocketPerms (toy_kernel (Some ''staff'') (Some ''0600'') False) ''/t/logos_a'' toy_files =
     (toy_files(''/t/logos_a'' \<mapsto> \<lparr>inodeKind = Socket, inodeUid = 501, inodeGid = 20, inodeMode = 0x1FD\<rparr>), Some ChmodFailed)"
proof -
  let ?n = "\<lambda>g. \<lparr>inodeKind = Socket, inodeUid = 501, inodeGid = g, inodeMode = 0x1FD\<rparr>"
  note run = toy_kernel_def toy_files_def ownSocket_def wanted_def resolveGid_def parseOctalMode_def
      isDigit_def isOctal_def strtoul_def digits_value_def lookupGroup.simps
  show ?thesis
    by (rule conjunct1[OF half_applied_policy_is_looser[where n = "?n 501" and gs = "''staff''" and g = 20
        and ms = "''0600''" and m = "0x180"]]) (simp_all add: posix_def run)
qed

subsection \<open>What the reaper removes\<close>

definition reapable :: "kernel \<Rightarrow> string \<Rightarrow> string \<Rightarrow> string list \<Rightarrow> files \<Rightarrow> string \<Rightarrow> bool" where
  "reapable k dir pre names fs q \<longleftrightarrow> q \<in> (\<lambda>e. dir @ ''/'' @ e) ` set (filter (prefix pre) names) \<and>
     isSocketDead k fs q \<and> unlinkAllowed k q"

definition undisturbed :: "string list \<Rightarrow> (string \<times> (files \<Rightarrow> files)) list" where
  "undisturbed names = map (\<lambda>e. (e, \<lambda>fs. fs)) names"

lemma isSocketDead_local: "fs' q = fs q \<Longrightarrow> isSocketDead k fs' q = isSocketDead k fs q"
  by (simp add: isSocketDead_def)

lemma dead_facts: "isSocketDead k fs q \<Longrightarrow> ownSocket k (fs q) \<and> length q < 108 \<and> connectTo k q \<in> {Refused, NoEntry}"
  by (auto simp: isSocketDead_def ownSocket_def split: option.splits if_splits connect_answer.splits)

lemma dead_exists: "isSocketDead k fs q \<Longrightarrow> \<exists>n. fs q = Some n \<and> inodeKind n = Socket \<and> inodeUid n = euid k"
  by (auto simp: isSocketDead_def split: option.splits if_splits)

lemma reapable_Cons:
  "reapable k dir pre (e # names) fs q \<longleftrightarrow>
     (q = dir @ ''/'' @ e \<and> prefix pre e \<and> isSocketDead k fs q \<and> unlinkAllowed k q) \<or> reapable k dir pre names fs q"
  by (auto simp: reapable_def)

lemma reapable_removed:
  "reapable k dir pre names (fs(p := None)) q \<longleftrightarrow> q \<noteq> p \<and> reapable k dir pre names fs q"
  by (auto simp: reapable_def isSocketDead_def)

lemma reapEntries_undisturbed:
  "reapEntries k dir pre (undisturbed names) fs =
     (\<lambda>q. if reapable k dir pre names fs q then None else fs q, card {q. reapable k dir pre names fs q})"
proof (induction names arbitrary: fs)
  case Nil
  then show ?case by (simp add: undisturbed_def reapable_def)
next
  case (Cons e names)
  let ?p = "dir @ ''/'' @ e"
  let ?R = "\<lambda>fs q. reapable k dir pre names fs q"
  have fin: "finite {q. ?R fs' q}" for fs'
    by (rule finite_subset[of _ "(\<lambda>e. dir @ ''/'' @ e) ` set names"]) (auto simp: reapable_def)
  have skip: "reapable k dir pre (e # names) fs = ?R fs"
    if "\<not> (prefix pre e \<and> isSocketDead k fs ?p \<and> unlinkAllowed k ?p)"
    using that by (auto simp: reapable_Cons)
  show ?case
  proof (cases "prefix pre e \<and> isSocketDead k fs ?p \<and> unlinkAllowed k ?p")
    case True
    define fs1 where "fs1 = fs(?p := None)"
    have at: "(\<lambda>q. if R q then None else fs1 q) = (\<lambda>q. if q = ?p \<or> R q then None else fs q)" for R
      unfolding fs1_def by auto
    have eqs: "reapable k dir pre (e # names) fs q \<longleftrightarrow> q = ?p \<or> ?R fs1 q" for q
      using True unfolding fs1_def by (auto simp: reapable_Cons reapable_removed)
    have "\<not> ?R fs1 ?p" unfolding fs1_def by (simp add: reapable_removed)
    then have "card {q. q = ?p \<or> ?R fs1 q} = Suc (card {q. ?R fs1 q})"
      using fin by (simp add: Collect_disj_eq)
    moreover have "fs ?p \<noteq> None" using True dead_exists by fastforce
    then have "reapEntries k dir pre (undisturbed (e # names)) fs =
        (case reapEntries k dir pre (undisturbed names) fs1 of (fs2, n) \<Rightarrow> (fs2, Suc n))"
      using True by (simp add: undisturbed_def Let_def fs1_def)
    ultimately show ?thesis by (simp add: Cons.IH eqs at)
  next
    case False
    with Cons.IH[of fs] skip show ?thesis by (auto simp: undisturbed_def Let_def)
  qed
qed

text \<open>
  what a sweep removes when nothing else touches the files meanwhile: exactly the entries of the directory that
  bear the prefix, are sockets of this user and were refused a connection, as far as they may be unlinked; the number
  returned is how many there were. A sweep with an empty prefix, or of a directory that cannot be read, removes nothing.
\<close>

theorem reaper_removes_dead_sockets:
  "reapStaleSockets k dir pre (map_option undisturbed listing) fs =
     (\<lambda>q. if pre \<noteq> [] \<and> reapable k dir pre (case listing of None \<Rightarrow> [] | Some names \<Rightarrow> names) fs q then None else fs q,
      card {q. pre \<noteq> [] \<and> reapable k dir pre (case listing of None \<Rightarrow> [] | Some names \<Rightarrow> names) fs q}) \<and>
   {q. reapable k dir pre (case listing of None \<Rightarrow> [] | Some names \<Rightarrow> names) fs q} \<subseteq>
     {q. ownSocket k (fs q) \<and> length q < 108 \<and> prefix (dir @ ''/'' @ pre) q \<and> connectTo k q \<in> {Refused, NoEntry}}"
proof
  have "reapable k dir pre [] fs = (\<lambda>q. False)" by (simp add: reapable_def fun_eq_iff)
  then show "reapStaleSockets k dir pre (map_option undisturbed listing) fs =
     (\<lambda>q. if pre \<noteq> [] \<and> reapable k dir pre (case listing of None \<Rightarrow> [] | Some names \<Rightarrow> names) fs q then None else fs q,
      card {q. pre \<noteq> [] \<and> reapable k dir pre (case listing of None \<Rightarrow> [] | Some names \<Rightarrow> names) fs q})"
    by (cases listing) (simp_all add: reapStaleSockets_def reapEntries_undisturbed)
  show "{q. reapable k dir pre (case listing of None \<Rightarrow> [] | Some names \<Rightarrow> names) fs q} \<subseteq>
     {q. ownSocket k (fs q) \<and> length q < 108 \<and> prefix (dir @ ''/'' @ pre) q \<and> connectTo k q \<in> {Refused, NoEntry}}"
    using dead_facts[of k fs] unfolding reapable_def by (auto simp del: append_Cons)
qed

text \<open>
  The probe and the removal are two steps: a server that replaces the stale file and listens on the
  new one between them loses it.
\<close>

lemma reaper_races_with_a_restart:
  assumes "isSocketDead k fs (dir @ ''/'' @ pre @ e)" and "unlinkAllowed k (dir @ ''/'' @ pre @ e)" and "pre \<noteq> []"
  shows "reapStaleSockets k dir pre (Some [(pre @ e, \<lambda>fs. fs(dir @ ''/'' @ pre @ e \<mapsto> fresh))]) fs =
    (fs(dir @ ''/'' @ pre @ e := None), 1)"
  using assms by (simp add: reapStaleSockets_def)

end
