(* ===== verification/Mock_Store.thy ===== *)
theory Mock_Store
  imports Transport_Config Token_Store Qt_Values
begin

text \<open>
  The mock transport: the store of expectations and recorded calls with its fluent builder and its
  fixture (mock_store.{h,cpp}), the remote object and transport over it (mock_transport.{h,cpp})
  and the guard a test holds (logos_mock.h). The file, Qt's JSON parser and its conversion of a
  JSON value are parameters, as is Qt's equality of two values.
\<close>

subsection \<open>The store\<close>

record 'v expectation =
  exp_module :: qstring
  exp_method :: qstring
  expectedArgs :: "'v qvariant list"
  returnValue :: "'v qvariant"
  matchAnyArgs :: bool

record 'v call_record =
  rec_module :: qstring
  rec_method :: qstring
  rec_args :: "'v qvariant list"

text \<open>\<open>counters\<close> is the memory the release probe may point into.\<close>

record 'v mock_store =
  m_expectations :: "'v expectation list"
  m_calls :: "'v call_record list"
  m_mockObjectReleaseProbe :: "nat option"
  counters :: "nat \<Rightarrow> 32 word"

definition newMockStore :: "(nat \<Rightarrow> 32 word) \<Rightarrow> 'v mock_store" where
  "newMockStore mem = \<lparr>m_expectations = [], m_calls = [], m_mockObjectReleaseProbe = None, counters = mem\<rparr>"

definition resetStore :: "'v mock_store \<Rightarrow> 'v mock_store" where
  "resetStore s = s\<lparr>m_expectations := [], m_calls := [], m_mockObjectReleaseProbe := None\<rparr>"

definition setMockObjectReleaseProbe :: "nat option \<Rightarrow> 'v mock_store \<Rightarrow> 'v mock_store" where
  "setMockObjectReleaseProbe p s = s\<lparr>m_mockObjectReleaseProbe := p\<rparr>"

definition incrementMockObjectReleaseProbeIfSet :: "'v mock_store \<Rightarrow> 'v mock_store" where
  "incrementMockObjectReleaseProbeIfSet s = (case m_mockObjectReleaseProbe s of None \<Rightarrow> s
     | Some p \<Rightarrow> s\<lparr>counters := (counters s)(p := counters s p + 1)\<rparr>)"

subsection \<open>The builder\<close>

text \<open>A builder is the index of its expectation; writing through an index out of range is \<open>None\<close>.\<close>

definition mockWhen :: "qstring \<Rightarrow> qstring \<Rightarrow> 'v mock_store \<Rightarrow> 'v mock_store \<times> nat" where
  "mockWhen module f s =
     (let e = \<lparr>exp_module = module, exp_method = f, expectedArgs = [], returnValue = QInvalid, matchAnyArgs = True\<rparr>;
          s1 = s\<lparr>m_expectations := m_expectations s @ [e]\<rparr>
      in (s1, length (m_expectations s1) - 1))"

definition onExpectation :: "nat \<Rightarrow> ('v expectation \<Rightarrow> 'v expectation) \<Rightarrow> 'v mock_store \<Rightarrow> 'v mock_store option" where
  "onExpectation i h s = (if i < length (m_expectations s)
     then Some (s\<lparr>m_expectations := (m_expectations s)[i := h (m_expectations s ! i)]\<rparr>) else None)"

definition withArgs :: "'v qvariant list \<Rightarrow> nat \<Rightarrow> 'v mock_store \<Rightarrow> 'v mock_store option" where
  "withArgs args i s = onExpectation i (\<lambda>e. e\<lparr>expectedArgs := args, matchAnyArgs := False\<rparr>) s"

definition thenReturn :: "'v qvariant \<Rightarrow> nat \<Rightarrow> 'v mock_store \<Rightarrow> 'v mock_store option" where
  "thenReturn v i s = onExpectation i (\<lambda>e. e\<lparr>returnValue := v\<rparr>) s"

subsection \<open>Calls\<close>

definition expects :: "('v qvariant \<Rightarrow> 'v qvariant \<Rightarrow> bool) \<Rightarrow> 'v expectation \<Rightarrow> qstring \<Rightarrow> qstring \<Rightarrow> 'v qvariant list \<Rightarrow> bool" where
  "expects same e module f args \<longleftrightarrow> exp_module e = module \<and> exp_method e = f \<and>
     (matchAnyArgs e \<or> list_all2 same (expectedArgs e) args)"

text \<open>The search runs over the indices from the last to the first; \<open>n\<close> of them are still to be tried.\<close>

fun searchFrom ::
  "('v qvariant \<Rightarrow> 'v qvariant \<Rightarrow> bool) \<Rightarrow> 'v expectation list \<Rightarrow> nat \<Rightarrow> qstring \<Rightarrow> qstring \<Rightarrow> 'v qvariant list \<Rightarrow> 'v qvariant" where
  "searchFrom same es 0 module f args = QInvalid"
| "searchFrom same es (Suc i) module f args =
     (if expects same (es ! i) module f args then returnValue (es ! i) else searchFrom same es i module f args)"

definition recordAndReturn ::
  "('v qvariant \<Rightarrow> 'v qvariant \<Rightarrow> bool) \<Rightarrow> qstring \<Rightarrow> qstring \<Rightarrow> 'v qvariant list \<Rightarrow> 'v mock_store \<Rightarrow> 'v mock_store \<times> 'v qvariant" where
  "recordAndReturn same module f args s =
     (s\<lparr>m_calls := m_calls s @ [\<lparr>rec_module = module, rec_method = f, rec_args = args\<rparr>]\<rparr>,
      searchFrom same (m_expectations s) (length (m_expectations s)) module f args)"

definition callOf :: "qstring \<Rightarrow> qstring \<Rightarrow> 'v call_record \<Rightarrow> bool" where
  "callOf module f r \<longleftrightarrow> rec_module r = module \<and> rec_method r = f"

definition wasCalled :: "qstring \<Rightarrow> qstring \<Rightarrow> 'v mock_store \<Rightarrow> bool" where
  "wasCalled module f s = list_ex (callOf module f) (m_calls s)"

definition wasCalledWith ::
  "('v qvariant \<Rightarrow> 'v qvariant \<Rightarrow> bool) \<Rightarrow> qstring \<Rightarrow> qstring \<Rightarrow> 'v qvariant list \<Rightarrow> 'v mock_store \<Rightarrow> bool" where
  "wasCalledWith same module f args s = list_ex (\<lambda>r. callOf module f r \<and> list_all2 same (rec_args r) args) (m_calls s)"

definition callCount :: "qstring \<Rightarrow> qstring \<Rightarrow> 'v mock_store \<Rightarrow> nat" where
  "callCount module f s = foldl (\<lambda>n r. if callOf module f r then Suc n else n) 0 (m_calls s)"

fun lastArgsFrom :: "'v call_record list \<Rightarrow> nat \<Rightarrow> qstring \<Rightarrow> qstring \<Rightarrow> 'v qvariant list" where
  "lastArgsFrom rs 0 module f = []"
| "lastArgsFrom rs (Suc i) module f = (if callOf module f (rs ! i) then rec_args (rs ! i) else lastArgsFrom rs i module f)"

definition lastArgs :: "qstring \<Rightarrow> qstring \<Rightarrow> 'v mock_store \<Rightarrow> 'v qvariant list" where
  "lastArgs module f s = lastArgsFrom (m_calls s) (length (m_calls s)) module f"

definition allCalls :: "'v mock_store \<Rightarrow> 'v call_record list" where
  "allCalls s = m_calls s"

subsection \<open>The fixture\<close>

definition mockToken :: "qstring \<Rightarrow> qstring" where
  "mockToken module = ''mock-token-'' @ module"

text \<open>A key is \<open>module.method\<close>, cut at its first dot; a key with an empty half or a leading underscore is skipped.\<close>

definition fixtureKey :: "qstring \<Rightarrow> (qstring \<times> qstring) option" where
  "fixtureKey k = (if take 1 k = ''_'' then None
     else let dot = length (takeWhile (\<lambda>c. c \<noteq> CHR ''.'') k) in
       if dot = length k \<or> dot = 0 \<or> dot = length k - 1 then None
       else Some (take dot k, drop (dot + 1) k))"

fun seedCalls ::
  "('v qjson \<Rightarrow> 'v qvariant) \<Rightarrow> (qstring \<times> 'v qjson) list \<Rightarrow> 'v mock_store \<times> token_manager \<Rightarrow> ('v mock_store \<times> token_manager) option" where
  "seedCalls toVariant [] st = Some st"
| "seedCalls toVariant ((k, v) # calls) (s, t) = (case fixtureKey k of
       None \<Rightarrow> seedCalls toVariant calls (s, t)
     | Some (module, f) \<Rightarrow> (case mockWhen module f s of (s1, b) \<Rightarrow> (case thenReturn (toVariant v) b s1 of
         None \<Rightarrow> None
       | Some s2 \<Rightarrow> seedCalls toVariant calls (s2, fst (saveToken module (mockToken module) t)))))"

text \<open>\<open>readFile\<close> is \<open>None\<close> when the file cannot be opened, \<open>fromJson\<close> when Qt cannot parse it.\<close>

definition seedFromFixtureIfRequested ::
  "('v qjson \<Rightarrow> 'v qvariant) \<Rightarrow> (qstring \<Rightarrow> bytes option) \<Rightarrow> (bytes \<Rightarrow> 'v qjson option) \<Rightarrow> qstring option \<Rightarrow>
   'v mock_store \<times> token_manager \<Rightarrow> ('v mock_store \<times> token_manager) option" where
  "seedFromFixtureIfRequested toVariant readFile fromJson env st =
     (let path = (case env of None \<Rightarrow> [] | Some p \<Rightarrow> p) in
      if path = [] then Some st
      else case Option.bind (readFile path) fromJson of
        Some (JObject fs) \<Rightarrow> (case map_of fs ''calls'' of Some (JObject calls) \<Rightarrow> seedCalls toVariant calls st | _ \<Rightarrow> Some st)
      | _ \<Rightarrow> Some st)"

subsection \<open>The remote object and the transport\<close>

text \<open>
  An image with its store, its tokens, its mode and the zero-delay timers armed by asynchronous
  calls, in the order they fire. A callback is a number; \<open>results\<close> lists what was called back.
\<close>

record 'v mock_image =
  im_store :: "'v mock_store"
  im_tokens :: token_manager
  im_mode :: mode_config
  im_fixture :: bool
  im_timers :: "(qstring \<times> qstring \<times> 'v qvariant list \<times> nat) list"
  im_results :: "(nat \<times> 'v qvariant) list"

definition mockCallMethod ::
  "('v qvariant \<Rightarrow> 'v qvariant \<Rightarrow> bool) \<Rightarrow> qstring \<Rightarrow> qstring \<Rightarrow> 'v qvariant list \<Rightarrow> 'v mock_image \<Rightarrow> 'v mock_image \<times> 'v qvariant" where
  "mockCallMethod same m_moduleName f args im =
     (case recordAndReturn same m_moduleName f args (im_store im) of (s1, r) \<Rightarrow> (im\<lparr>im_store := s1\<rparr>, r))"

definition mockCallMethodAsync ::
  "qstring \<Rightarrow> qstring \<Rightarrow> 'v qvariant list \<Rightarrow> nat option \<Rightarrow> 'v mock_image \<Rightarrow> 'v mock_image" where
  "mockCallMethodAsync m_moduleName f args callback im = (case callback of None \<Rightarrow> im
     | Some cb \<Rightarrow> im\<lparr>im_timers := im_timers im @ [(m_moduleName, f, args, cb)]\<rparr>)"

definition fireTimer :: "('v qvariant \<Rightarrow> 'v qvariant \<Rightarrow> bool) \<Rightarrow> 'v mock_image \<Rightarrow> 'v mock_image" where
  "fireTimer same im = (case im_timers im of [] \<Rightarrow> im
     | (module, f, args, cb) # ts \<Rightarrow>
         (case recordAndReturn same module f args (im_store im) of (s1, r) \<Rightarrow>
           im\<lparr>im_store := s1, im_timers := ts, im_results := im_results im @ [(cb, r)]\<rparr>))"

definition mockRelease :: "'v mock_image \<Rightarrow> 'v mock_image" where
  "mockRelease im = im\<lparr>im_store := incrementMockObjectReleaseProbeIfSet (im_store im)\<rparr>"

definition mockInformModuleToken :: "qstring \<Rightarrow> qstring \<Rightarrow> qstring \<Rightarrow> bool" where
  "mockInformModuleToken authToken module token = True"

definition mockPublishObject :: "qstring \<Rightarrow> bool" where
  "mockPublishObject n = True"

definition mockConnectToHost :: bool where "mockConnectToHost = True"

definition mockIsConnected :: bool where "mockIsConnected = True"

text \<open>Any name is answered with an object that bears it.\<close>

definition mockRequestObject :: "qstring \<Rightarrow> qstring option" where
  "mockRequestObject objectName = Some objectName"

subsection \<open>The guard of a test\<close>

definition newMockSetup :: "'v mock_image \<Rightarrow> 'v mock_image \<times> logos_mode" where
  "newMockSetup im = (let previous = getMode (im_fixture im) (im_mode im) in
     (im\<lparr>im_mode := setMode ModeMock (im_mode im), im_store := resetStore (im_store im),
        im_tokens := fst (clearAllTokens (im_tokens im))\<rparr>, previous))"

definition destroyMockSetup :: "logos_mode \<Rightarrow> 'v mock_image \<Rightarrow> 'v mock_image" where
  "destroyMockSetup previous im =
     im\<lparr>im_store := resetStore (im_store im), im_mode := setMode previous (im_mode im)\<rparr>"

definition setupWhen :: "qstring \<Rightarrow> qstring \<Rightarrow> 'v mock_image \<Rightarrow> 'v mock_image \<times> nat" where
  "setupWhen module f im = (case mockWhen module f (im_store im) of (s1, b) \<Rightarrow>
     (im\<lparr>im_tokens := fst (saveToken module (mockToken module) (im_tokens im)), im_store := s1\<rparr>, b))"

subsection \<open>The store as a table of answers\<close>

lemma searchFrom_eq: "i \<le> length es \<Longrightarrow> searchFrom same es i module f args =
   (case find (\<lambda>e. expects same e module f args) (rev (take i es)) of None \<Rightarrow> QInvalid | Some e \<Rightarrow> returnValue e)"
  by (induction i) (auto simp: take_Suc_conv_app_nth)

lemma lastArgsFrom_eq: "i \<le> length rs \<Longrightarrow> lastArgsFrom rs i module f =
   (case find (callOf module f) (rev (take i rs)) of None \<Rightarrow> [] | Some r \<Rightarrow> rec_args r)"
  by (induction i) (auto simp: take_Suc_conv_app_nth)

lemma callCount_eq: "callCount module f s = length (filter (callOf module f) (m_calls s))"
proof -
  have "foldl (\<lambda>n r. if callOf module f r then Suc n else n) n rs = n + length (filter (callOf module f) rs)"
    for n and rs :: "'a call_record list"
    by (induction rs arbitrary: n) auto
  then show ?thesis by (simp add: callCount_def)
qed

definition answer :: "('v qvariant \<Rightarrow> 'v qvariant \<Rightarrow> bool) \<Rightarrow> 'v mock_store \<Rightarrow> qstring \<Rightarrow> qstring \<Rightarrow> 'v qvariant list \<Rightarrow> 'v qvariant" where
  "answer same s module f args = snd (recordAndReturn same module f args s)"

datatype 'v mock_op =
  Expect qstring qstring "'v qvariant list option" "'v qvariant"
| Invoke qstring qstring "'v qvariant list"
| ResetAll

text \<open>An expectation is written as tests write it: \<open>when\<close>, perhaps \<open>withArgs\<close>, \<open>thenReturn\<close>.\<close>

definition expectCall :: "qstring \<Rightarrow> qstring \<Rightarrow> 'v qvariant list option \<Rightarrow> 'v qvariant \<Rightarrow> 'v mock_store \<Rightarrow> 'v mock_store option" where
  "expectCall module f with_args v s = (case mockWhen module f s of (s1, b) \<Rightarrow>
     Option.bind (case with_args of None \<Rightarrow> Some s1 | Some as \<Rightarrow> withArgs as b s1) (thenReturn v b))"

fun mock_run ::
  "('v qvariant \<Rightarrow> 'v qvariant \<Rightarrow> bool) \<Rightarrow> 'v mock_op list \<Rightarrow> 'v mock_store \<Rightarrow> ('v mock_store \<times> 'v qvariant list) option" where
  "mock_run same [] s = Some (s, [])"
| "mock_run same (Expect module f as v # ops) s = Option.bind (expectCall module f as v s) (mock_run same ops)"
| "mock_run same (Invoke module f args # ops) s = (case recordAndReturn same module f args s of (s1, r) \<Rightarrow>
     map_option (\<lambda>(s2, rs). (s2, r # rs)) (mock_run same ops s1))"
| "mock_run same (ResetAll # ops) s = mock_run same ops (resetStore s)"

text \<open>The specification: a function that is overridden, and the list of calls since the last reset.\<close>

type_synonym 'v answers = "qstring \<Rightarrow> qstring \<Rightarrow> 'v qvariant list \<Rightarrow> 'v qvariant"

fun spec_run ::
  "('v qvariant \<Rightarrow> 'v qvariant \<Rightarrow> bool) \<Rightarrow> 'v mock_op list \<Rightarrow> 'v answers \<times> 'v call_record list \<Rightarrow>
   ('v answers \<times> 'v call_record list) \<times> 'v qvariant list" where
  "spec_run same [] st = (st, [])"
| "spec_run same (Expect module f as v # ops) (ans, calls) = spec_run same ops
     (\<lambda>m g args. if m = module \<and> g = f \<and> (case as of None \<Rightarrow> True | Some as \<Rightarrow> list_all2 same as args) then v
        else ans m g args, calls)"
| "spec_run same (Invoke module f args # ops) (ans, calls) =
     (case spec_run same ops (ans, calls @ [\<lparr>rec_module = module, rec_method = f, rec_args = args\<rparr>]) of
       (st, rs) \<Rightarrow> (st, ans module f args # rs))"
| "spec_run same (ResetAll # ops) st = spec_run same ops ((\<lambda>m g args. QInvalid), [])"

lemma answer_eq: "answer same s module f args =
   (case find (\<lambda>e. expects same e module f args) (rev (m_expectations s)) of None \<Rightarrow> QInvalid | Some e \<Rightarrow> returnValue e)"
  by (simp add: answer_def recordAndReturn_def searchFrom_eq)

lemma expectCall_eq: "expectCall module f as v s = Some (s\<lparr>m_expectations := m_expectations s @
   [\<lparr>exp_module = module, exp_method = f, expectedArgs = (case as of None \<Rightarrow> [] | Some as \<Rightarrow> as), returnValue = v,
     matchAnyArgs = (as = None)\<rparr>]\<rparr>)"
  by (cases as) (simp_all add: expectCall_def mockWhen_def withArgs_def thenReturn_def onExpectation_def Let_def)

lemma answer_append: "answer same (s\<lparr>m_expectations := m_expectations s @ [e]\<rparr>) m g args =
   (if expects same e m g args then returnValue e else answer same s m g args)"
  by (simp add: answer_eq)

lemma answer_calls [simp]: "answer same (s\<lparr>m_calls := cs\<rparr>) = answer same s"
  by (simp add: fun_eq_iff answer_eq)

lemma answer_reset [simp]: "answer same (resetStore s) = (\<lambda>m g args. QInvalid)"
  by (simp add: fun_eq_iff answer_eq resetStore_def)

lemma answer_new [simp]: "answer same (newMockStore mem) = (\<lambda>m g args. QInvalid)"
  by (simp add: fun_eq_iff answer_eq newMockStore_def)

lemma calls_empty [simp]: "m_calls (newMockStore mem) = []" "m_calls (resetStore s) = []"
  by (simp_all add: newMockStore_def resetStore_def)

lemma mock_run_refines:
  "map_option (\<lambda>(s, rs). ((answer same s, m_calls s), rs)) (mock_run same ops s) = Some (spec_run same ops (answer same s, m_calls s))"
proof (induction same ops s rule: mock_run.induct)
  case (2 same module f as v ops s)
  obtain s1 where s1: "expectCall module f as v s = Some s1" and
    eq: "s1 = s\<lparr>m_expectations := m_expectations s @ [\<lparr>exp_module = module, exp_method = f,
          expectedArgs = (case as of None \<Rightarrow> [] | Some as \<Rightarrow> as), returnValue = v, matchAnyArgs = (as = None)\<rparr>]\<rparr>"
    by (simp add: expectCall_eq)
  have "answer same s1 = (\<lambda>m g args. if m = module \<and> g = f \<and> (case as of None \<Rightarrow> True | Some as \<Rightarrow> list_all2 same as args)
      then v else answer same s m g args)"
    unfolding eq by (auto simp: fun_eq_iff answer_append expects_def split: option.splits)
  moreover have "m_calls s1 = m_calls s" by (simp add: eq)
  ultimately show ?case using 2[of s1] s1 by simp
next
  case (3 same module f args ops s)
  obtain s1 where r: "recordAndReturn same module f args s = (s1, answer same s module f args)"
    and s1: "s1 = s\<lparr>m_calls := m_calls s @ [\<lparr>rec_module = module, rec_method = f, rec_args = args\<rparr>]\<rparr>"
    by (simp add: answer_def recordAndReturn_def)
  have "map_option (\<lambda>(s, rs). ((answer same s, m_calls s), rs)) (mock_run same ops s1) =
      Some (spec_run same ops (answer same s1, m_calls s1))"
    using 3[OF r[symmetric]] by simp
  then show ?case by (auto simp: r s1 split: prod.splits)
next
  case (4 same ops s)
  then show ?case by (simp del: map_option_eq_Some)
qed simp

lemma find_filter: "find P xs = (case filter P xs of [] \<Rightarrow> None | x # _ \<Rightarrow> Some x)"
  by (induction xs) auto

text \<open>
  the mock store implements a table of answers. For any sequence of expectations, calls and resets, run from an
  empty store, no builder writes out of range, every call is answered as a function overridden by each later
  expectation says, and the record is the list of the calls since the last reset; the four questions a test can ask
  about a module's method are the questions about that list.
\<close>

theorem mock_store_is_a_table:
  "map_option (\<lambda>(s, rs). ((answer same s, allCalls s), rs)) (mock_run same ops (newMockStore mem)) =
     Some (spec_run same ops ((\<lambda>m g args. QInvalid), [])) \<and>
   callCount module f s = length (filter (callOf module f) (allCalls s)) \<and>
   wasCalled module f s = (callCount module f s > 0) \<and>
   wasCalledWith same module f args s = list_ex (\<lambda>r. list_all2 same (rec_args r) args) (filter (callOf module f) (allCalls s)) \<and>
   lastArgs module f s = (if callCount module f s = 0 then [] else rec_args (last (filter (callOf module f) (allCalls s))))"
proof (intro conjI)
  show "map_option (\<lambda>(s, rs). ((answer same s, allCalls s), rs)) (mock_run same ops (newMockStore mem)) =
     Some (spec_run same ops ((\<lambda>m g args. QInvalid), []))"
    using mock_run_refines[of same ops "newMockStore mem"] by (simp add: allCalls_def del: map_option_eq_Some)
  show "callCount module f s = length (filter (callOf module f) (allCalls s))" by (simp add: callCount_eq allCalls_def)
  show "wasCalled module f s = (callCount module f s > 0)"
    by (auto simp: callCount_eq wasCalled_def list_ex_iff filter_empty_conv)
  show "wasCalledWith same module f args s =
      list_ex (\<lambda>r. list_all2 same (rec_args r) args) (filter (callOf module f) (allCalls s))"
    by (auto simp: wasCalledWith_def list_ex_iff allCalls_def)
  show "lastArgs module f s =
      (if callCount module f s = 0 then [] else rec_args (last (filter (callOf module f) (allCalls s))))"
    by (cases "filter (callOf module f) (m_calls s)" rule: rev_cases)
       (auto simp: lastArgs_def lastArgsFrom_eq find_filter callCount_eq allCalls_def simp flip: rev_filter)
qed

subsection \<open>The guard\<close>

text \<open>
  The guard empties the store and the tokens, and \<open>when\<close> leaves a token for any module whose name
  is not a reserved key. Its end restores the mode that was in force, but as an explicit choice: a
  fixture named in the environment later is no longer noticed.
\<close>

lemma setup_starts_empty:
  "newMockSetup im = (im1, previous) \<Longrightarrow>
     getMode (im_fixture im1) (im_mode im1) = ModeMock \<and> allCalls (im_store im1) = [] \<and> tokenCount (im_tokens im1) = 0"
  by (auto simp: newMockSetup_def Let_def getMode_def setMode_def resetStore_def allCalls_def clearAllTokens_def
      tokenCount_def hash_keys_def)

lemma setup_when_seeds_token:
  "setupWhen module f im = (im1, b) \<Longrightarrow> \<not> isReservedKey module \<Longrightarrow> getToken (im_tokens im1) module = mockToken module"
  by (auto simp: setupWhen_def saveToken_def getToken_def hash_value_def split: prod.splits)

lemma setup_restores_mode:
  "newMockSetup im = (im1, previous) \<Longrightarrow> im_mode im2 = im_mode im1 \<Longrightarrow>
     getMode fixture (im_mode (destroyMockSetup previous im2)) = getMode (im_fixture im) (im_mode im)"
  by (auto simp: newMockSetup_def destroyMockSetup_def Let_def getMode_def setMode_def)

lemma later_fixture_unnoticed:
  "newMockSetup (im\<lparr>im_mode := initialMode, im_fixture := False\<rparr>) = (im1, previous) \<Longrightarrow>
     getMode True initialMode = ModeMock \<and> getMode True (im_mode (destroyMockSetup previous im1)) = ModeRemote"
  by (auto simp: newMockSetup_def destroyMockSetup_def Let_def getMode_def setMode_def initialMode_def)

lemma timers_record_in_order:
  "im_timers im = ts \<Longrightarrow>
     m_calls (im_store ((fireTimer same ^^ length ts) im)) =
       m_calls (im_store im) @ map (\<lambda>(m, f, args, cb). \<lparr>rec_module = m, rec_method = f, rec_args = args\<rparr>) ts \<and>
     map fst (im_results ((fireTimer same ^^ length ts) im)) = map fst (im_results im) @ map (\<lambda>(m, f, args, cb). cb) ts"
proof (induction ts arbitrary: im)
  case (Cons t ts)
  obtain m f args cb where t: "t = (m, f, args, cb)" by (cases t)
  have "im_timers (fireTimer same im) = ts" using Cons.prems t by (simp add: fireTimer_def recordAndReturn_def)
  with Cons.IH[of "fireTimer same im"] Cons.prems t show ?case
    by (simp add: funpow_swap1[symmetric] fireTimer_def recordAndReturn_def del: funpow.simps)
       (simp add: funpow_Suc_right fireTimer_def recordAndReturn_def del: funpow.simps)
qed simp

end
