(* ===== verification/C_Abi.thy ===== *)
theory C_Abi
  imports Transport_Config Identity_Registry
begin

text \<open>
  The process-wide half of the C interface (logos_protocol.cpp): modes and transports, the host
  services an image is granted, and the doors to its token stores. A C string is an option,
  \<open>None\<close> the null pointer. Where the code can throw out of the C function the result is an
  option, \<open>None\<close> that exception. nlohmann's printer and parser are parameters.
\<close>

subsection \<open>The image\<close>

datatype lp_code = LP_OK | LP_ERR_INVALID_ARG | LP_ERR_UNSUPPORTED | LP_ERR_INTERNAL | LP_ERR_UNAVAILABLE

type_synonym cstring = "qstring option"

record lp_image =
  im_registry :: store_registry
  g_hostServices :: "32 word"
  im_mode :: mode_config
  defaultTransport :: transport_config

definition newImage :: lp_image where
  "newImage = \<lparr>im_registry = initRegistry, g_hostServices = 0, im_mode = initialMode, defaultTransport = defaultConfig\<rparr>"

definition absent :: "cstring \<Rightarrow> bool" where
  "absent s = (s = None \<or> s = Some [])"

subsection \<open>Modes and transports\<close>

definition lp_set_mode :: "cstring \<Rightarrow> lp_image \<Rightarrow> lp_code \<times> lp_image" where
  "lp_set_mode m im = (case m of None \<Rightarrow> (LP_ERR_INVALID_ARG, im)
     | Some s \<Rightarrow>
       if s = ''remote'' then (LP_OK, im\<lparr>im_mode := setMode ModeRemote (im_mode im)\<rparr>)
       else if s = ''local'' then (LP_OK, im\<lparr>im_mode := setMode ModeLocal (im_mode im)\<rparr>)
       else if s = ''mock'' then (LP_OK, im\<lparr>im_mode := setMode ModeMock (im_mode im)\<rparr>)
       else (LP_ERR_INVALID_ARG, im))"

definition lp_get_mode :: "bool \<Rightarrow> lp_image \<Rightarrow> qstring" where
  "lp_get_mode fixture im = (case getMode fixture (im_mode im) of
     ModeLocal \<Rightarrow> ''local'' | ModeMock \<Rightarrow> ''mock'' | ModeRemote \<Rightarrow> ''remote'')"

text \<open>The outer option is the exception, the inner one the failure the function reports.\<close>

definition parseTransportJson ::
  "('d \<Rightarrow> 32 word) \<Rightarrow> (qstring \<Rightarrow> 'd json option) \<Rightarrow> transport_config \<Rightarrow> cstring \<Rightarrow> transport_config option option" where
  "parseTransportJson trunc parse dflt text =
     (if absent text \<or> text = Some ''null'' then Some (Some dflt)
      else case transportSetFromJsonString trunc parse (''['' @ the text @ '']'') of
        None \<Rightarrow> None
      | Some [] \<Rightarrow> Some None
      | Some (cfg # _) \<Rightarrow> Some (Some cfg))"

definition lp_set_default_transport ::
  "('d \<Rightarrow> 32 word) \<Rightarrow> (qstring \<Rightarrow> 'd json option) \<Rightarrow> cstring \<Rightarrow> lp_image \<Rightarrow> (lp_code \<times> lp_image) option" where
  "lp_set_default_transport trunc parse text im =
     (if text = None then Some (LP_ERR_INVALID_ARG, im)
      else case parseTransportJson trunc parse (defaultTransport im) text of
        None \<Rightarrow> None
      | Some None \<Rightarrow> Some (LP_ERR_INVALID_ARG, im)
      | Some (Some cfg) \<Rightarrow> Some (LP_OK, im\<lparr>defaultTransport := cfg\<rparr>))"

subsection \<open>Host services\<close>

definition ServiceTokenRegistry :: "32 word" where "ServiceTokenRegistry = push_bit 0 1"

definition ServiceTokenDelivery :: "32 word" where "ServiceTokenDelivery = push_bit 1 1"

definition hostServiceBit :: "qstring \<Rightarrow> 32 word option" where
  "hostServiceBit n = (if n = ''token_registry'' then Some ServiceTokenRegistry
     else if n = ''token_delivery'' then Some ServiceTokenDelivery else None)"

definition hostServiceGranted :: "32 word \<Rightarrow> lp_image \<Rightarrow> bool" where
  "hostServiceGranted service im = (Bit_Operations.and (g_hostServices im) service \<noteq> 0)"

fun grantedBits :: "'d json list \<Rightarrow> 32 word \<Rightarrow> 32 word option" where
  "grantedBits [] granted = Some granted"
| "grantedBits (entry # es) granted = (case entry of
       Str n \<Rightarrow> (case hostServiceBit n of None \<Rightarrow> None | Some b \<Rightarrow> grantedBits es (Bit_Operations.or granted b))
     | _ \<Rightarrow> None)"

definition lp_grant_host_services :: "(qstring \<Rightarrow> 'd json option) \<Rightarrow> cstring \<Rightarrow> lp_image \<Rightarrow> lp_code \<times> lp_image" where
  "lp_grant_host_services parse services im =
     (if absent services then (LP_OK, im\<lparr>g_hostServices := 0\<rparr>)
      else case parse (the services) of
        Some (Array es) \<Rightarrow> (case grantedBits es 0 of
            None \<Rightarrow> (LP_ERR_INVALID_ARG, im)
          | Some bits \<Rightarrow> (LP_OK, im\<lparr>g_hostServices := bits\<rparr>))
      | _ \<Rightarrow> (LP_ERR_INVALID_ARG, im))"

subsection \<open>The image's own store\<close>

definition onAmbient :: "(token_manager \<Rightarrow> token_manager) \<Rightarrow> lp_image \<Rightarrow> lp_image" where
  "onAmbient f im = im\<lparr>im_registry := (im_registry im)\<lparr>ambient := f (ambient (im_registry im))\<rparr>\<rparr>"

definition lp_token_get :: "cstring \<Rightarrow> lp_image \<Rightarrow> cstring" where
  "lp_token_get n im = (case n of None \<Rightarrow> None
     | Some m \<Rightarrow> let t = getToken (ambient (im_registry im)) m in if t = [] then None else Some t)"

definition lp_token_save :: "cstring \<Rightarrow> cstring \<Rightarrow> lp_image \<Rightarrow> lp_code \<times> lp_image" where
  "lp_token_save n t im = (case (n, t) of
       (Some m, Some tok) \<Rightarrow>
         if isReservedKey m then (LP_ERR_INVALID_ARG, im)
         else (LP_OK, onAmbient (\<lambda>tm. fst (saveToken m tok tm)) im)
     | _ \<Rightarrow> (LP_ERR_INVALID_ARG, im))"

definition lp_token_save_inbound :: "cstring \<Rightarrow> cstring \<Rightarrow> lp_image \<Rightarrow> lp_code \<times> lp_image" where
  "lp_token_save_inbound c t im = (case (c, t) of
       (Some caller, Some tok) \<Rightarrow>
         (case saveInboundToken caller tok (ambient (im_registry im)) of
            (False, _) \<Rightarrow> (LP_ERR_INVALID_ARG, im)
          | (True, tm) \<Rightarrow>
              let im1 = onAmbient (\<lambda>_. tm) im
              in (LP_OK, if hostServiceGranted ServiceTokenRegistry im1
                         then onAmbient (\<lambda>tm. fst (saveToken caller tok tm)) im1 else im1))
     | _ \<Rightarrow> (LP_ERR_INVALID_ARG, im))"

text \<open>The outer option is the printer's exception, the inner one the null pointer.\<close>

definition lp_token_keys :: "('d json \<Rightarrow> qstring option) \<Rightarrow> lp_image \<Rightarrow> cstring option" where
  "lp_token_keys dump im =
     (if \<not> hostServiceGranted ServiceTokenRegistry im then Some None
      else map_option Some (dump (Array (map Str (getTokenKeys (ambient (im_registry im)))))))"

subsection \<open>Stores of identities\<close>

definition lp_token_isolate_identity :: "cstring \<Rightarrow> lp_image \<Rightarrow> lp_code \<times> lp_image" where
  "lp_token_isolate_identity i im =
     (if absent i then (LP_ERR_INVALID_ARG, im)
      else case isolateIdentity (the i) (im_registry im) of (ok, r) \<Rightarrow>
        (if ok then LP_OK else LP_ERR_UNSUPPORTED, im\<lparr>im_registry := r\<rparr>))"

definition lp_token_identity_is_isolated :: "cstring \<Rightarrow> lp_image \<Rightarrow> lp_code + bool" where
  "lp_token_identity_is_isolated i im = (case i of None \<Rightarrow> Inl LP_ERR_INVALID_ARG
     | Some n \<Rightarrow> Inr (isIsolated (im_registry im) n))"

definition lp_token_get_for :: "cstring \<Rightarrow> cstring \<Rightarrow> lp_image \<Rightarrow> cstring \<times> lp_image" where
  "lp_token_get_for i n im = (case (i, n) of
       (Some ident, Some m) \<Rightarrow> (case forIdentity ident (im_registry im) of (ref, r) \<Rightarrow>
         (let t = getToken (deref r ref) m in if t = [] then None else Some t, im\<lparr>im_registry := r\<rparr>))
     | _ \<Rightarrow> (None, im))"

definition lp_token_save_for :: "cstring \<Rightarrow> cstring \<Rightarrow> cstring \<Rightarrow> lp_image \<Rightarrow> lp_code \<times> lp_image" where
  "lp_token_save_for i n t im = (case (i, n, t) of
       (Some ident, Some m, Some tok) \<Rightarrow>
         if isReservedKey m then (LP_ERR_INVALID_ARG, im)
         else (case forIdentity ident (im_registry im) of (ref, r) \<Rightarrow>
           (LP_OK, im\<lparr>im_registry := assign ref (fst (saveToken m tok (deref r ref))) r\<rparr>))
     | _ \<Rightarrow> (LP_ERR_INVALID_ARG, im))"

definition lp_token_reset_identity :: "cstring \<Rightarrow> lp_image \<Rightarrow> lp_code \<times> lp_image" where
  "lp_token_reset_identity i im =
     (if absent i then (LP_ERR_INVALID_ARG, im)
      else case resetIdentity (the i) (im_registry im) of (ok, r) \<Rightarrow>
        (if ok then LP_OK else LP_ERR_UNSUPPORTED, im\<lparr>im_registry := r\<rparr>))"

definition lp_token_adopt_credential :: "cstring \<Rightarrow> cstring \<Rightarrow> lp_image \<Rightarrow> lp_code \<times> lp_image" where
  "lp_token_adopt_credential i c im =
     (if absent i \<or> absent c then (LP_ERR_INVALID_ARG, im)
      else case adoptCredentialFor (the i) (the c) (im_registry im) of (ok, r) \<Rightarrow>
        (if ok then LP_OK else LP_ERR_UNSUPPORTED, im\<lparr>im_registry := r\<rparr>))"

subsection \<open>Directions and grants over a run\<close>

datatype lp_op =
  LpGrant cstring
| LpSave cstring cstring
| LpSaveInbound cstring cstring
| LpIsolate cstring
| LpGetFor cstring cstring
| LpSaveFor cstring cstring cstring
| LpReset cstring
| LpAdopt cstring cstring

fun lp_step :: "(qstring \<Rightarrow> 'd json option) \<Rightarrow> lp_op \<Rightarrow> lp_image \<Rightarrow> lp_image" where
  "lp_step parse (LpGrant s) im = snd (lp_grant_host_services parse s im)"
| "lp_step parse (LpSave n t) im = snd (lp_token_save n t im)"
| "lp_step parse (LpSaveInbound c t) im = snd (lp_token_save_inbound c t im)"
| "lp_step parse (LpIsolate i) im = snd (lp_token_isolate_identity i im)"
| "lp_step parse (LpGetFor i n) im = snd (lp_token_get_for i n im)"
| "lp_step parse (LpSaveFor i n t) im = snd (lp_token_save_for i n t im)"
| "lp_step parse (LpReset i) im = snd (lp_token_reset_identity i im)"
| "lp_step parse (LpAdopt i c) im = snd (lp_token_adopt_credential i c im)"

fun inboundOp :: "lp_op \<Rightarrow> bool" where
  "inboundOp (LpSaveInbound c t) = True"
| "inboundOp _ = False"

text \<open>A grant that does not name the token registry, or is refused.\<close>

fun grantsNoRegistry :: "(qstring \<Rightarrow> 'd json option) \<Rightarrow> lp_op \<Rightarrow> bool" where
  "grantsNoRegistry parse (LpGrant s) = (\<not> hostServiceGranted ServiceTokenRegistry (snd (lp_grant_host_services parse s newImage)))"
| "grantsNoRegistry parse _ = True"

definition sameOutbound :: "token_manager \<Rightarrow> token_manager \<Rightarrow> bool" where
  "sameOutbound t u \<longleftrightarrow> (\<forall>k. \<not> isReservedKey k \<longrightarrow> hash_find (m_tokens t) k = hash_find (m_tokens u) k)"

definition sameOutside :: "lp_image \<Rightarrow> lp_image \<Rightarrow> bool" where
  "sameOutside im jm \<longleftrightarrow> g_hostServices im = g_hostServices jm \<and>
     im_registry im = (im_registry jm)\<lparr>ambient := ambient (im_registry im)\<rparr> \<and>
     sameOutbound (ambient (im_registry im)) (ambient (im_registry jm))"

lemma sameOutbound_refl [simp]: "sameOutbound t t"
  by (simp add: sameOutbound_def)

lemma sameOutside_refl [simp]: "sameOutside im im"
  by (simp add: sameOutside_def)

lemma sameOutbound_trans: "sameOutbound t u \<Longrightarrow> sameOutbound u v \<Longrightarrow> sameOutbound t v"
  by (simp add: sameOutbound_def)

lemma sameOutbound_save: "sameOutbound t u \<Longrightarrow> sameOutbound (fst (saveToken k v t)) (fst (saveToken k v u))"
  by (simp add: sameOutbound_def saveToken_def)

lemma sameOutbound_inbound: "saveInboundToken c v t = (ok, u) \<Longrightarrow> sameOutbound u t"
  by (auto simp: sameOutbound_def saveInboundToken_def split: if_splits)

lemma sameOutbound_reads:
  assumes "sameOutbound t u"
  shows "getToken t k = getToken u k" "credential t = credential u"
proof -
  have v: "\<not> isReservedKey k \<Longrightarrow> hash_value (m_tokens t) k [] = hash_value (m_tokens u) k []" for k
    using assms by (simp add: sameOutbound_def hash_value_def)
  then show "getToken t k = getToken u k" by (simp add: getToken_def)
  have "\<forall>k \<in> set ks. \<not> isReservedKey k \<Longrightarrow> first_nonempty (m_tokens t) ks = first_nonempty (m_tokens u) ks" for ks
    by (induction ks) (auto simp: v Let_def)
  then show "credential t = credential u"
    using bootstrapKeys_not_reserved by (simp add: credential_def)
qed

text \<open>Registries that differ in the ambient store alone.\<close>

lemma forIdentity_ambient:
  "forIdentity i (r\<lparr>ambient := a\<rparr>) = (fst (forIdentity i r), (snd (forIdentity i r))\<lparr>ambient := a\<rparr>)"
  by (simp add: forIdentity_def)

lemma isolate_ambient:
  "isolateIdentity i (r\<lparr>ambient := a\<rparr>) = (fst (isolateIdentity i r), (snd (isolateIdentity i r))\<lparr>ambient := a\<rparr>)"
  by (simp add: isolateIdentity_def)

lemma adopt_ambient:
  "credential a = credential (ambient r) \<Longrightarrow>
   adoptCredentialFor i c (r\<lparr>ambient := a\<rparr>) = (fst (adoptCredentialFor i c r), (snd (adoptCredentialFor i c r))\<lparr>ambient := a\<rparr>)"
  by (cases "i = [] \<or> i \<notin> set (isolated r)")
     (simp_all add: adoptCredentialFor_def isHostAnchorValue_def isIsolated_def forIdentity_def Let_def)

lemma adopt_keeps_ambient: "ambient (snd (adoptCredentialFor i c r)) = ambient r"
  by (cases "i = [] \<or> i \<notin> set (isolated r)")
     (simp_all add: adoptCredentialFor_def isIsolated_def forIdentity_def Let_def)

lemma sameOutside_registry:
  assumes "sameOutside im jm"
  obtains a where "im_registry im = (im_registry jm)\<lparr>ambient := a\<rparr>" "sameOutbound a (ambient (im_registry jm))"
    "g_hostServices im = g_hostServices jm"
  using assms by (auto simp: sameOutside_def)

lemma sameOutsideI:
  "g_hostServices im = g_hostServices jm \<Longrightarrow> im_registry im = (im_registry jm)\<lparr>ambient := a\<rparr> \<Longrightarrow>
   sameOutbound a (ambient (im_registry jm)) \<Longrightarrow> sameOutside im jm"
  by (simp add: sameOutside_def)

lemma sameOutside_trans:
  assumes "sameOutside im jm" and "sameOutside jm km"
  shows "sameOutside im km"
proof -
  obtain a where a: "im_registry im = (im_registry jm)\<lparr>ambient := a\<rparr>" "sameOutbound a (ambient (im_registry jm))"
    "g_hostServices im = g_hostServices jm" by (rule sameOutside_registry[OF assms(1)])
  obtain b where b: "im_registry jm = (im_registry km)\<lparr>ambient := b\<rparr>" "sameOutbound b (ambient (im_registry km))"
    "g_hostServices jm = g_hostServices km" by (rule sameOutside_registry[OF assms(2)])
  show ?thesis
    by (rule sameOutsideI[where a = a]) (use a b sameOutbound_trans in auto)
qed

lemma sameOutside_step:
  assumes "sameOutside im jm" and "\<not> inboundOp op"
  shows "sameOutside (lp_step parse op im) (lp_step parse op jm)"
proof -
  obtain a where r: "im_registry im = (im_registry jm)\<lparr>ambient := a\<rparr>" and o: "sameOutbound a (ambient (im_registry jm))"
    and g: "g_hostServices im = g_hostServices jm" by (rule sameOutside_registry[OF assms(1)])
  have amb: "ambient (im_registry im) = a" by (simp add: r)
  show ?thesis
  proof (cases op)
    case (LpGrant s)
    then show ?thesis using assms(1)
      by (auto simp: lp_grant_host_services_def sameOutside_def split: option.splits json.splits)
  next
    case (LpSave n t)
    then show ?thesis using assms(1) o
      by (auto simp: lp_token_save_def onAmbient_def r g sameOutbound_save split: option.splits
          intro!: sameOutsideI[where a = "fst (saveToken (the n) (the t) a)"])
  next
    case (LpSaveInbound c t)
    then show ?thesis using assms(2) by simp
  next
    case (LpIsolate i)
    then show ?thesis using assms(1) o
      by (auto simp: lp_token_isolate_identity_def r g isolate_ambient split: prod.splits
          intro!: sameOutsideI[where a = a] simp: isolateIdentity_def split: if_splits)
  next
    case (LpGetFor i n)
    then show ?thesis using assms(1) o
      by (auto simp: lp_token_get_for_def r g forIdentity_ambient split: prod.splits option.splits
          intro!: sameOutsideI[where a = a] simp: forIdentity_def split: if_splits)
  next
    case (LpSaveFor i n t)
    show ?thesis
    proof (cases "i = None \<or> n = None \<or> t = None \<or> isReservedKey (the n)")
      case True
      with LpSaveFor assms(1) show ?thesis by (auto simp: lp_token_save_for_def split: option.splits)
    next
      case False
      then obtain j k v where jk: "i = Some j" "n = Some k" "t = Some v" "\<not> isReservedKey k" by auto
      obtain ref q where f: "forIdentity j (im_registry jm) = (ref, q)" by fastforce
      have amb: "ambient q = ambient (im_registry jm)" using f by (auto simp: forIdentity_def split: if_splits)
      show ?thesis
      proof (cases ref)
        case AmbientStore
        show ?thesis
          by (rule sameOutsideI[where a = "fst (saveToken k v a)"])
            (use o amb f in \<open>simp_all add: LpSaveFor jk lp_token_save_for_def r g forIdentity_ambient AmbientStore sameOutbound_save\<close>)
      next
        case (PrivateStore m)
        show ?thesis
          by (rule sameOutsideI[where a = a])
            (use o amb f in \<open>simp_all add: LpSaveFor jk lp_token_save_for_def r g forIdentity_ambient PrivateStore\<close>)
      qed
    qed
  next
    case (LpReset i)
    then show ?thesis using assms(1) o
      by (auto simp: lp_token_reset_identity_def r g resetIdentity_def isIsolated_def forIdentity_ambient Let_def
          split: prod.splits store_ref.splits intro!: sameOutsideI[where a = a] simp: forIdentity_def split: if_splits)
  next
    case (LpAdopt i c)
    have "adoptCredentialFor j v (im_registry im) = (fst (adoptCredentialFor j v (im_registry jm)),
        (snd (adoptCredentialFor j v (im_registry jm)))\<lparr>ambient := a\<rparr>)" for j v
      unfolding r by (rule adopt_ambient) (rule sameOutbound_reads(2)[OF o])
    moreover have "ambient (snd (adoptCredentialFor j v (im_registry jm))) = ambient (im_registry jm)" for j v
      by (rule adopt_keeps_ambient)
    ultimately show ?thesis using assms(1) o
      by (simp add: LpAdopt lp_token_adopt_credential_def split_beta g sameOutside_def)
  qed
qed

lemma services_by_name:
  assumes "hostServiceBit n = Some b"
  shows "Bit_Operations.and b ServiceTokenRegistry = (if n = ''token_registry'' then ServiceTokenRegistry else 0)"
  using assms by (auto simp: hostServiceBit_def ServiceTokenRegistry_def ServiceTokenDelivery_def split: if_splits)

lemma sameOutside_inbound:
  assumes "\<not> hostServiceGranted ServiceTokenRegistry im"
  shows "sameOutside (snd (lp_token_save_inbound c t im)) im"
proof (cases "c = None \<or> t = None")
  case True
  then show ?thesis by (auto simp: lp_token_save_inbound_def split: option.splits)
next
  case False
  then obtain k v where kv: "c = Some k" "t = Some v" by auto
  obtain ok u where s: "saveInboundToken k v (ambient (im_registry im)) = (ok, u)" by fastforce
  have "\<not> hostServiceGranted ServiceTokenRegistry (onAmbient (\<lambda>_. u) im)"
    using assms by (simp add: hostServiceGranted_def onAmbient_def)
  then show ?thesis using sameOutbound_inbound[OF s]
    by (cases ok) (auto simp: lp_token_save_inbound_def kv s onAmbient_def Let_def intro!: sameOutsideI[where a = u])
qed

lemma grant_kept:
  "g_hostServices (lp_step parse op im) = (case op of LpGrant s \<Rightarrow> g_hostServices (snd (lp_grant_host_services parse s im)) | _ \<Rightarrow> g_hostServices im)"
  by (cases op) (auto simp: lp_token_save_def lp_token_save_inbound_def lp_token_isolate_identity_def lp_token_get_for_def
      lp_token_save_for_def lp_token_reset_identity_def lp_token_adopt_credential_def onAmbient_def Let_def
      split: option.splits prod.splits bool.splits)

lemma no_registry_step:
  assumes "\<not> hostServiceGranted ServiceTokenRegistry im" and "grantsNoRegistry parse op"
  shows "\<not> hostServiceGranted ServiceTokenRegistry (lp_step parse op im)"
proof (cases op)
  case (LpGrant s)
  with assms show ?thesis
    by (auto simp: hostServiceGranted_def lp_grant_host_services_def newImage_def split: option.splits json.splits)
qed (use assms grant_kept[of parse op im] in \<open>simp_all add: hostServiceGranted_def\<close>)

lemma outside_without_inbound:
  assumes "\<not> hostServiceGranted ServiceTokenRegistry im" and "list_all (grantsNoRegistry parse) ops" and "sameOutside im jm"
  shows "sameOutside (fold (lp_step parse) ops im) (fold (lp_step parse) (filter (\<lambda>op. \<not> inboundOp op) ops) jm) \<and>
    \<not> hostServiceGranted ServiceTokenRegistry (fold (lp_step parse) ops im)"
  using assms
proof (induction ops arbitrary: im jm)
  case (Cons op ops)
  have g: "\<not> hostServiceGranted ServiceTokenRegistry (lp_step parse op im)"
    by (rule no_registry_step) (use Cons.prems in simp_all)
  show ?case
  proof (cases "inboundOp op")
    case True
    then obtain c t where "op = LpSaveInbound c t" by (cases op) auto
    then have "sameOutside (lp_step parse op im) im" using sameOutside_inbound Cons.prems(1) by simp
    from this Cons.prems(3) have "sameOutside (lp_step parse op im) jm"
      by (rule sameOutside_trans)
    with Cons.IH[OF g _ this] Cons.prems True show ?thesis by simp
  next
    case False
    with Cons.IH[OF g _ sameOutside_step[OF Cons.prems(3)]] Cons.prems show ?thesis by simp
  qed
qed simp

text \<open>
  C31: the directions of the C interface. In an image that has not been granted the token registry, whatever is done
  through the token functions, and whatever else is granted meanwhile, tokens handed in as inbound are never presented:
  every token read for a call, from the image's store or an identity's, is the one that would be read had the inbound
  writes not been made, and the list of keys stays refused. In an image with the grant an accepted inbound token can be
  presented to its sender.
\<close>

theorem inbound_tokens_are_not_presented:
  assumes "\<not> hostServiceGranted ServiceTokenRegistry im" and "list_all (grantsNoRegistry parse) ops"
    and "hostServiceGranted ServiceTokenRegistry jm" and "fst (lp_token_save_inbound (Some c) (Some t) jm) = LP_OK"
  shows "lp_token_get n (fold (lp_step parse) ops im) =
      lp_token_get n (fold (lp_step parse) (filter (\<lambda>op. \<not> inboundOp op) ops) im) \<and>
    fst (lp_token_get_for i n (fold (lp_step parse) ops im)) =
      fst (lp_token_get_for i n (fold (lp_step parse) (filter (\<lambda>op. \<not> inboundOp op) ops) im)) \<and>
    lp_token_keys dump (fold (lp_step parse) ops im) = Some None \<and>
    lp_token_get (Some c) (snd (lp_token_save_inbound (Some c) (Some t) jm)) = Some t"
proof -
  let ?f = "fold (lp_step parse) ops im" and ?g = "fold (lp_step parse) (filter (\<lambda>op. \<not> inboundOp op) ops) im"
  have same: "sameOutside ?f ?g" and none: "\<not> hostServiceGranted ServiceTokenRegistry ?f"
    using outside_without_inbound[OF assms(1,2) sameOutside_refl] by auto
  obtain a where r: "im_registry ?f = (im_registry ?g)\<lparr>ambient := a\<rparr>" and o: "sameOutbound a (ambient (im_registry ?g))"
    by (rule sameOutside_registry[OF same])
  have one: "lp_token_get n ?f = lp_token_get n ?g"
    using sameOutbound_reads(1)[OF o] by (simp add: lp_token_get_def r split: option.split)
  have two: "fst (lp_token_get_for i n ?f) = fst (lp_token_get_for i n ?g)"
    using sameOutbound_reads(1)[OF o]
    by (auto simp: lp_token_get_for_def r forIdentity_def Let_def split: option.split)
  have "lp_token_get (Some c) (snd (lp_token_save_inbound (Some c) (Some t) jm)) = Some t"
    using assms(3,4) by (auto simp: lp_token_save_inbound_def lp_token_get_def saveInboundToken_def saveToken_def getToken_def
        onAmbient_def hostServiceGranted_def Let_def hash_value_def split: if_splits)
  with one two none show ?thesis by (simp add: lp_token_keys_def)
qed

definition grant_texts :: "qstring \<Rightarrow> nat json option" where
  "grant_texts s = (if s = ''r'' then Some (Array [Str ''token_registry''])
     else if s = ''d'' then Some (Array [Str ''token_delivery'']) else None)"

definition sample_ops :: "lp_op list" where
  "sample_ops = [LpGrant (Some ''d''), LpSave (Some ''b'') (Some ''out''), LpSaveInbound (Some ''a'') (Some ''in''),
     LpIsolate (Some ''p''), LpSaveFor (Some ''p'') (Some ''b'') (Some ''mine'')]"

theorem inbound_tokens_are_not_presented_witness:
  "lp_token_get (Some ''a'') (fold (lp_step grant_texts) sample_ops newImage) =
     lp_token_get (Some ''a'') (fold (lp_step grant_texts) (filter (\<lambda>op. \<not> inboundOp op) sample_ops) newImage) \<and>
   lp_token_get (Some ''b'') (fold (lp_step grant_texts) sample_ops newImage) = Some ''out''"
proof -
  have "\<not> hostServiceGranted ServiceTokenRegistry newImage" by code_simp
  moreover have "list_all (grantsNoRegistry grant_texts) sample_ops" by code_simp
  moreover have "hostServiceGranted ServiceTokenRegistry (lp_step grant_texts (LpGrant (Some ''r'')) newImage)" by code_simp
  moreover have "fst (lp_token_save_inbound (Some ''x'') (Some ''y'') (lp_step grant_texts (LpGrant (Some ''r'')) newImage)) = LP_OK"
    by code_simp
  ultimately have "lp_token_get (Some ''a'') (fold (lp_step grant_texts) sample_ops newImage) =
     lp_token_get (Some ''a'') (fold (lp_step grant_texts) (filter (\<lambda>op. \<not> inboundOp op) sample_ops) newImage)"
    by (rule inbound_tokens_are_not_presented[THEN conjunct1])
  moreover have "lp_token_get (Some ''b'') (fold (lp_step grant_texts) sample_ops newImage) = Some ''out''" by code_simp
  ultimately show ?thesis by simp
qed

subsection \<open>Small facts\<close>

text \<open>A refused grant leaves the one in force; the printed keys are the outbound ones.\<close>

lemma refused_grant_keeps: "fst (lp_grant_host_services parse s im) \<noteq> LP_OK \<Longrightarrow> snd (lp_grant_host_services parse s im) = im"
  by (auto simp: lp_grant_host_services_def split: option.splits json.splits)

lemma unknown_service_refuses_all:
  "Str n \<in> set es \<Longrightarrow> hostServiceBit n = None \<Longrightarrow> grantedBits es b = None"
  by (induction es b rule: grantedBits.induct) (auto split: json.splits option.splits)

text \<open>
  Every failing save reports it: after \<open>LP_OK\<close> a nonempty token can be read back under its name.
\<close>

lemma saved_token_is_read:
  "fst (lp_token_save (Some m) (Some t) im) = LP_OK \<Longrightarrow> t \<noteq> [] \<Longrightarrow>
     lp_token_get (Some m) (snd (lp_token_save (Some m) (Some t) im)) = Some t"
  by (auto simp: lp_token_save_def lp_token_get_def onAmbient_def saveToken_def getToken_def Let_def hash_value_def
      split: if_splits)

text \<open>A refused name costs an identity nothing: it can still be isolated.\<close>

lemma refused_save_vends_nothing:
  "fst (lp_token_save_for i n t im) \<noteq> LP_OK \<Longrightarrow> snd (lp_token_save_for i n t im) = im"
  by (auto simp: lp_token_save_for_def split: option.splits if_splits prod.splits)

text \<open>A transport whose port is a text leaves the C function by an exception.\<close>

lemma text_port_throws:
  assumes "parse (''['' @ text @ '']'') = Some (Array [Object fs])" and "text \<noteq> []" and "text \<noteq> ''null''"
    and "object_get fs ''port'' = Some (Str v)"
  shows "lp_set_default_transport trunc parse (Some text) im = None"
proof -
  have "configsFromJson trunc [Object fs] = None"
    by (rule bad_port_stops_list[OF _ assms(4)]) simp
  with assms(1-3) show ?thesis
    by (simp add: lp_set_default_transport_def parseTransportJson_def absent_def transportSetFromJsonString_def)
qed

end
