(* ===== verification/C_Abi_Client.thy ===== *)
theory C_Abi_Client
  imports C_Abi Api_Client Client_Handshakes Qt_Json_Convert
begin

text \<open>
  The client half of the C interface (logos_protocol.cpp): creating a client, calls in both
  variants, subscriptions and their options, introspection and token delivery, marshalled over
  the client and consumer of the other theories. \<open>None\<close> is again an exception that leaves the C
  function: nlohmann's printer refuses a text that is not UTF-8. Which callbacks still run after a
  teardown is the subject of \<open>C_Abi_Callbacks\<close>.
\<close>

subsection \<open>Texts and arguments\<close>

definition makeErrorJson :: "('d json \<Rightarrow> qstring option) \<Rightarrow> qstring \<Rightarrow> qstring \<Rightarrow> qstring \<Rightarrow> qstring option" where
  "makeErrorJson dump c m orig = dump (Object (put_all [(''code'', Str c), (''message'', Str m), (''origin'', Str orig)]))"

definition lpTimeout :: "int \<Rightarrow> int" where
  "lpTimeout t = (if t > 0 then t else 20000)"

text \<open>Left is the text of the error that is reported.\<close>

definition parseArgs ::
  "('v json \<Rightarrow> qstring option) \<Rightarrow> (qstring \<Rightarrow> 'v json option) \<Rightarrow> cstring \<Rightarrow> qstring \<Rightarrow> (qstring + 'v qvariant list) option" where
  "parseArgs dump parse args_json orig =
     (if absent args_json then Some (Inr [])
      else case parse (the args_json) of
        Some (Array js) \<Rightarrow> Some (Inr (nlohmannArgsToQVariantList (Array js)))
      | _ \<Rightarrow> map_option Inl (makeErrorJson dump ''invalid_args'' ''args_json must be a JSON array'' orig))"

subsection \<open>Clients\<close>

text \<open>
  The callbacks installed below the interface: the one of a subscription, with the guard of its
  handle and the user's function, and the one that watches the target. \<open>anchored\<close>: built on the
  Qt main thread.
\<close>

datatype lp_callback = EventTrampoline nat nat | StatusTrampoline

record lp_sub_state =
  sub_generation :: u64
  status_cb :: "nat option"

record 'v lp_client =
  lp_target :: qstring
  lp_origin :: qstring
  lp_store :: store_ref
  lp_inner :: "('v, lp_callback) client option"
  anchored :: bool
  guard_alive :: bool
  sub_state :: lp_sub_state

definition newSubState :: lp_sub_state where
  "newSubState = \<lparr>sub_generation = 0, status_cb = None\<rparr>"

text \<open>The watcher installed at creation finds nothing to replay: the registry is new.\<close>

definition watched :: "qstring \<Rightarrow> ('v, lp_callback) client \<Rightarrow> ('v, lp_callback) client" where
  "watched name c = c\<lparr>mainConsumer := setSubscriptionStatusCallback name (Some StatusTrampoline) (mainConsumer c)\<rparr>"

definition lp_client_create ::
  "bool \<Rightarrow> ('d \<Rightarrow> 32 word) \<Rightarrow> (qstring \<Rightarrow> 'd json option) \<Rightarrow> cstring \<Rightarrow> cstring \<Rightarrow> cstring \<Rightarrow> cstring \<Rightarrow> lp_image \<Rightarrow>
   ('v lp_client option \<times> lp_image) option" where
  "lp_client_create fixture trunc parse target_module origin_module target_json capability_json im =
     (if absent target_module \<or> origin_module = None then Some (None, im)
      else case parseTransportJson trunc parse (defaultTransport im) target_json of
        None \<Rightarrow> None
      | Some None \<Rightarrow> Some (None, im)
      | Some (Some targetCfg) \<Rightarrow>
       (case parseTransportJson trunc parse (defaultTransport im) capability_json of
        None \<Rightarrow> None
      | Some None \<Rightarrow> Some (None, im)
      | Some (Some capabilityCfg) \<Rightarrow>
        (case forIdentity (the origin_module) (im_registry im) of (ref, r) \<Rightarrow>
          Some (Some \<lparr>lp_target = the target_module, lp_origin = the origin_module, lp_store = ref,
            lp_inner = Some (watched (the target_module)
              (newClient (the target_module) (the origin_module) (deref r ref) (ref \<noteq> AmbientStore))),
            anchored = needsQtEventLoop (getMode fixture (im_mode im)) targetCfg \<or>
              needsQtEventLoop (getMode fixture (im_mode im)) capabilityCfg,
            guard_alive = True, sub_state = newSubState\<rparr>,
            im\<lparr>im_registry := r\<rparr>))))"

definition innerOf :: "'v lp_client option \<Rightarrow> ('v, lp_callback) client option" where
  "innerOf h = Option.bind h lp_inner"

subsection \<open>Calls\<close>

text \<open>The answer: the code and the two texts written through the out-pointers that are given.\<close>

type_synonym lp_answer = "(lp_code \<times> cstring \<times> cstring) option"

definition invokeAnswer ::
  "'v qt_json \<Rightarrow> ('v json \<Rightarrow> qstring option) \<Rightarrow> bool \<Rightarrow> bool \<Rightarrow> 'v qvariant \<Rightarrow> call_error \<Rightarrow> lp_answer" where
  "invokeAnswer E dump wantResult wantError r e =
     (if \<not> error_ok e
      then if wantError then map_option (\<lambda>s. (LP_ERR_UNAVAILABLE, None, Some s)) (makeErrorJson dump (code e) (message e) (origin e))
           else Some (LP_ERR_UNAVAILABLE, None, None)
      else if wantResult then map_option (\<lambda>s. (LP_OK, Some s, None)) (dump (qvariantToNlohmann E r))
           else Some (LP_OK, None, None))"

definition lp_invoke ::
  "('v qvariant \<Rightarrow> qstring) \<Rightarrow> 'v qt_json \<Rightarrow> ('v json \<Rightarrow> qstring option) \<Rightarrow> (qstring \<Rightarrow> 'v json option) \<Rightarrow> 'v cenv \<Rightarrow> frames \<Rightarrow>
   'v lp_client option \<Rightarrow> cstring \<Rightarrow> cstring \<Rightarrow> int \<Rightarrow> bool \<Rightarrow> bool \<Rightarrow> lp_answer \<times> 'v lp_client option" where
  "lp_invoke conv E dump parse v fr h m args_json t wantResult wantError =
     (case innerOf h of
        None \<Rightarrow> (if wantError then map_option (\<lambda>s. (LP_ERR_INVALID_ARG, None, Some s))
                    (makeErrorJson dump ''invalid_arg'' ''client and method are required'' [])
                 else Some (LP_ERR_INVALID_ARG, None, None), h)
      | Some c \<Rightarrow>
        if absent m
        then (if wantError then map_option (\<lambda>s. (LP_ERR_INVALID_ARG, None, Some s))
                    (makeErrorJson dump ''invalid_arg'' ''client and method are required'' [])
              else Some (LP_ERR_INVALID_ARG, None, None), h)
        else case parseArgs dump parse args_json (lp_origin (the h)) of
          None \<Rightarrow> (None, h)
        | Some (Inl err) \<Rightarrow> (Some (LP_ERR_INVALID_ARG, None, if wantError then Some err else None), h)
        | Some (Inr args) \<Rightarrow>
            (case invokeRemoteMethod conv v fr (lp_target (the h)) (the m) args (lpTimeout t) c of ((r, e), c1) \<Rightarrow>
              (invokeAnswer E dump wantResult wantError r e, Some ((the h)\<lparr>lp_inner := Some c1\<rparr>))))"

text \<open>
  The asynchronous variant: the answer of the function, and the client with the call submitted.
  \<open>resultTrampoline\<close> is the callback it installs: \<open>Some None\<close> when the client is gone.
\<close>

definition lp_invoke_async ::
  "('v qvariant \<Rightarrow> qstring) \<Rightarrow> ('v json \<Rightarrow> qstring option) \<Rightarrow> (qstring \<Rightarrow> 'v json option) \<Rightarrow> availability \<Rightarrow> qstring \<Rightarrow> qstring \<Rightarrow>
   'v async_client option \<Rightarrow> cstring \<Rightarrow> cstring \<Rightarrow> int \<Rightarrow> nat option \<Rightarrow> (lp_code \<times> 'v async_client option) option" where
  "lp_invoke_async conv dump parse av target orig h m args_json t cb =
     (case h of None \<Rightarrow> Some (LP_ERR_INVALID_ARG, h)
      | Some c \<Rightarrow>
        if absent m \<or> cb = None then Some (LP_ERR_INVALID_ARG, h)
        else case parseArgs dump parse args_json orig of
          None \<Rightarrow> None
        | Some (Inl err) \<Rightarrow> Some (LP_ERR_INVALID_ARG, h)
        | Some (Inr args) \<Rightarrow>
            Some (LP_OK, Some (invokeRemoteMethodAsync conv av target (the m) args cb (lpTimeout t) c)))"

definition resultTrampoline ::
  "'v qt_json \<Rightarrow> ('v json \<Rightarrow> qstring option) \<Rightarrow> bool \<Rightarrow> 'v qvariant \<Rightarrow> call_error \<Rightarrow> (bool \<times> qstring) option option" where
  "resultTrampoline E dump guardAlive r e =
     (if \<not> guardAlive then Some None
      else if \<not> error_ok e then map_option (\<lambda>s. Some (False, s)) (makeErrorJson dump (code e) (message e) (origin e))
      else map_option (\<lambda>s. Some (True, s)) (dump (qvariantToNlohmann E r)))"

subsection \<open>What the target reports\<close>

text \<open>
  A report to the user: the function, the state's code, the generation and the reason. The
  mirror is written before anything is asked; the function is read before the guard.
\<close>

type_synonym lp_report = "nat \<times> nat \<times> u64 \<times> cstring"

definition lpState :: "subscription_event \<Rightarrow> nat" where
  "lpState ev = (case ev of EvArmed \<Rightarrow> 1 | EvLost \<Rightarrow> 2 | EvAbandoned \<Rightarrow> 3 | EvHeld \<Rightarrow> 4)"

definition statusTrampoline ::
  "bool \<Rightarrow> subscription_event \<Rightarrow> u64 \<Rightarrow> qstring \<Rightarrow> lp_sub_state \<Rightarrow> lp_report list \<times> lp_sub_state" where
  "statusTrampoline guardAlive ev gen reason st =
     (let st1 = (if ev = EvArmed then st\<lparr>sub_generation := gen\<rparr> else st)
      in case status_cb st1 of
           None \<Rightarrow> ([], st1)
         | Some cb \<Rightarrow>
           if \<not> guardAlive then ([], st1)
           else ([(cb, lpState ev, gen, if reason = [] then None else Some reason)], st1))"

text \<open>What the registry emits during an operation runs through the trampoline in order.\<close>

fun deliverStatus :: "bool \<Rightarrow> lp_callback reg_output list \<Rightarrow> lp_sub_state \<Rightarrow> lp_report list \<times> lp_sub_state" where
  "deliverStatus al [] st = ([], st)"
| "deliverStatus al (StatusCallback StatusTrampoline ev g reason # os) st =
     (let (r1, st1) = statusTrampoline al ev g reason st; (r2, st2) = deliverStatus al os st1 in (r1 @ r2, st2))"
| "deliverStatus al (_ # os) st = deliverStatus al os st"

definition registryLog :: "('v, lp_callback) consumer \<Rightarrow> lp_callback reg_output list" where
  "registryLog s = (case pendingSubs s of None \<Rightarrow> [] | Some r \<Rightarrow> rlog r)"

definition onConsumer ::
  "(('v, lp_callback) consumer \<Rightarrow> 'a \<times> ('v, lp_callback) consumer) \<Rightarrow> ('v, lp_callback) client \<Rightarrow> 'v lp_client \<Rightarrow>
   'a \<times> lp_report list \<times> 'v lp_client" where
  "onConsumer f c h =
     (let (a, s) = f (mainConsumer c);
          (reports, st) = deliverStatus (guard_alive h) (drop (length (registryLog (mainConsumer c))) (registryLog s)) (sub_state h)
      in (a, reports, h\<lparr>lp_inner := Some (c\<lparr>mainConsumer := s\<rparr>), sub_state := st\<rparr>))"

subsection \<open>Subscriptions\<close>

record lp_subscription =
  sub_guard :: nat
  sub_id :: u64

text \<open>\<open>g\<close> is the new handle's guard.\<close>

definition lp_subscribe ::
  "'v cenv \<Rightarrow> nat \<Rightarrow> cstring \<Rightarrow> nat option \<Rightarrow> 'v lp_client option \<Rightarrow>
   lp_subscription option \<times> lp_report list \<times> 'v lp_client option" where
  "lp_subscribe v g event_name cb h = (case innerOf h of
       None \<Rightarrow> (None, [], h)
     | Some c \<Rightarrow>
       if absent event_name \<or> cb = None then (None, [], h)
       else case onConsumer (onEventWhenAvailable v (lp_target (the h)) (the event_name)
                  (Some (EventTrampoline g (the cb))) None) c (the h) of (i, reports, h1) \<Rightarrow>
            (if i = 0 then None else Some \<lparr>sub_guard = g, sub_id = i\<rparr>, reports, Some h1))"

text \<open>What the trampoline hands to the user: the event's name and the array of its arguments as a text.\<close>

definition eventTrampoline ::
  "'v qt_json \<Rightarrow> ('v json \<Rightarrow> qstring option) \<Rightarrow> bool \<Rightarrow> bool \<Rightarrow> qstring \<Rightarrow> 'v qvariant list \<Rightarrow> (qstring \<times> qstring) option option" where
  "eventTrampoline E dump subAlive clientAlive name data =
     (if \<not> subAlive then Some None
      else if \<not> clientAlive then Some None
      else map_option (\<lambda>s. Some (name, s)) (dump (Array (map (qvariantToNlohmann E) data))))"

definition lp_client_set_subscription_status_cb ::
  "nat option \<Rightarrow> 'v lp_client option \<Rightarrow> bool \<times> lp_report list \<times> 'v lp_client option" where
  "lp_client_set_subscription_status_cb cb h = (case innerOf h of
       None \<Rightarrow> (False, [], h)
     | Some c \<Rightarrow>
       let h1 = (the h)\<lparr>sub_state := (sub_state (the h))\<lparr>status_cb := cb\<rparr>\<rparr>
       in if cb = None then (True, [], Some h1)
          else case onConsumer (\<lambda>s. ((), setSubscriptionStatusCallback (lp_target h1) (Some StatusTrampoline) s)) c h1 of
            (_, reports, h2) \<Rightarrow> (True, reports, Some h2))"

definition lp_client_subscription_generation :: "'v lp_client option \<Rightarrow> u64" where
  "lp_client_subscription_generation h = (case h of None \<Rightarrow> 0 | Some c \<Rightarrow> sub_generation (sub_state c))"

text \<open>\<open>None\<close>: the document was refused.\<close>

definition restartOption :: "(qstring \<Rightarrow> 'd json option) \<Rightarrow> cstring \<Rightarrow> restart_policy option" where
  "restartOption parse options_json =
     (if absent options_json then Some Automatic
      else case parse (the options_json) of
        None \<Rightarrow> None
      | Some (Object fs) \<Rightarrow>
          Some (if object_get fs ''restart'' = Some (Str ''manual'') then Manual else Automatic)
      | Some _ \<Rightarrow> Some Automatic)"

definition lp_client_set_subscription_options ::
  "(qstring \<Rightarrow> 'd json option) \<Rightarrow> cstring \<Rightarrow> 'v lp_client option \<Rightarrow> bool \<times> lp_report list \<times> 'v lp_client option" where
  "lp_client_set_subscription_options parse options_json h = (case innerOf h of
       None \<Rightarrow> (False, [], h)
     | Some c \<Rightarrow> (case restartOption parse options_json of
         None \<Rightarrow> (False, [], h)
       | Some policy \<Rightarrow>
           case onConsumer (\<lambda>s. ((), setSubscriptionRestartPolicy (lp_target (the h)) policy s)) c (the h) of
             (_, reports, h1) \<Rightarrow> (True, reports, Some h1)))"

text \<open>The tasks that re-arming and unsubscribing post to the owner thread.\<close>

definition rearmTask :: "'v cenv \<Rightarrow> 'v lp_client \<Rightarrow> lp_report list \<times> 'v lp_client" where
  "rearmTask v h = (case lp_inner h of None \<Rightarrow> ([], h)
     | Some c \<Rightarrow> if guard_alive h then snd (onConsumer (rearmSubscriptions v (lp_target h)) c h) else ([], h))"

definition cancelTask :: "u64 \<Rightarrow> 'v lp_client \<Rightarrow> lp_report list \<times> 'v lp_client" where
  "cancelTask i h = (case lp_inner h of None \<Rightarrow> ([], h)
     | Some c \<Rightarrow> if guard_alive h then snd (onConsumer (cancelEventSubscription i) c h) else ([], h))"

definition lp_pending_subscriptions :: "('d json \<Rightarrow> qstring option) \<Rightarrow> 'v lp_client option \<Rightarrow> cstring option" where
  "lp_pending_subscriptions dump h = (case innerOf h of None \<Rightarrow> Some None
     | Some c \<Rightarrow> map_option Some (dump (Array (map Str (pendingSubscriptions (mainConsumer c))))))"

subsection \<open>Introspection and tokens\<close>

text \<open>\<open>methodsText\<close> is what the remote object answers, printed by \<open>QJsonDocument\<close>.\<close>

definition lp_get_methods ::
  "'v cenv \<Rightarrow> (handle \<Rightarrow> qstring) \<Rightarrow> 'v lp_client option \<Rightarrow> cstring \<times> 'v lp_client option" where
  "lp_get_methods v methodsText h = (case innerOf h of None \<Rightarrow> (None, h)
     | Some c \<Rightarrow> (case requestObjectOf v (lp_target (the h)) 20000 (mainConsumer c) of (obj, s) \<Rightarrow>
         (map_option methodsText obj, Some ((the h)\<lparr>lp_inner := Some (c\<lparr>mainConsumer := s\<rparr>)\<rparr>))))"

definition lp_inform_module_token ::
  "'v cenv \<Rightarrow> cstring \<Rightarrow> cstring \<Rightarrow> cstring \<Rightarrow> 'v lp_client option \<Rightarrow> lp_code \<times> 'v lp_client option" where
  "lp_inform_module_token v auth_token module_name token h = (case innerOf h of None \<Rightarrow> (LP_ERR_INVALID_ARG, h)
     | Some c \<Rightarrow>
       if auth_token = None \<or> module_name = None \<or> token = None then (LP_ERR_INVALID_ARG, h)
       else case informModuleTokenOf v (the auth_token) (the module_name) (the token) (mainConsumer c) of (ok, s) \<Rightarrow>
         (if ok then LP_OK else LP_ERR_INTERNAL, Some ((the h)\<lparr>lp_inner := Some (c\<lparr>mainConsumer := s\<rparr>)\<rparr>)))"

definition lp_inform_module_token_to ::
  "'v cenv \<Rightarrow> lp_image \<Rightarrow> cstring \<Rightarrow> cstring \<Rightarrow> cstring \<Rightarrow> cstring \<Rightarrow> int \<Rightarrow> 'v lp_client option \<Rightarrow> lp_code \<times> 'v lp_client option" where
  "lp_inform_module_token_to v im auth_token origin_module module_name token t h =
     (if \<not> hostServiceGranted ServiceTokenDelivery im then (LP_ERR_UNSUPPORTED, h)
      else case innerOf h of None \<Rightarrow> (LP_ERR_INVALID_ARG, h)
     | Some c \<Rightarrow>
       if auth_token = None \<or> absent origin_module \<or> module_name = None \<or> token = None then (LP_ERR_INVALID_ARG, h)
       else case informModuleToken_module v (the auth_token) (the origin_module) (the module_name) (the token) t (mainConsumer c) of (ok, s) \<Rightarrow>
         (if ok then LP_OK else LP_ERR_INTERNAL, Some ((the h)\<lparr>lp_inner := Some (c\<lparr>mainConsumer := s\<rparr>)\<rparr>)))"

subsection \<open>Providers\<close>

text \<open>Registration only stores the functions: nothing serves them yet.\<close>

record lp_provider =
  provider_name :: qstring
  transport_set :: qstring
  dispatch_cb :: "nat option"
  getmethods_cb :: "nat option"
  token_cb :: "nat option"

definition lp_provider_create :: "cstring \<Rightarrow> cstring \<Rightarrow> lp_provider option" where
  "lp_provider_create module_name transports =
     (if absent module_name then None
      else Some \<lparr>provider_name = the module_name, transport_set = (case transports of None \<Rightarrow> ''[]'' | Some t \<Rightarrow> t),
        dispatch_cb = None, getmethods_cb = None, token_cb = None\<rparr>)"

definition lp_provider_register ::
  "nat option \<Rightarrow> nat option \<Rightarrow> nat option \<Rightarrow> lp_provider option \<Rightarrow> lp_code \<times> lp_provider option" where
  "lp_provider_register dispatch get_methods on_token p =
     (if p = None \<or> dispatch = None then (LP_ERR_INVALID_ARG, p)
      else (LP_OK, Some ((the p)\<lparr>dispatch_cb := dispatch, getmethods_cb := get_methods, token_cb := on_token\<rparr>)))"

definition lp_provider_emit_event :: "lp_provider option \<Rightarrow> lp_code" where
  "lp_provider_emit_event p = (if p = None then LP_ERR_INVALID_ARG else LP_ERR_UNSUPPORTED)"

definition lp_provider_save_token :: "lp_provider option \<Rightarrow> lp_code" where
  "lp_provider_save_token p = (if p = None then LP_ERR_INVALID_ARG else LP_ERR_UNSUPPORTED)"

subsection \<open>Values as texts\<close>

text \<open>
  What nlohmann's printer and parser make of a JSON value: the parser reads an integer without
  a sign as unsigned. Nothing else changes in a value without binaries and infinite numbers.
\<close>

primrec rereadJson :: "'v json \<Rightarrow> 'v json" where
  "rereadJson Null = Null"
| "rereadJson (Boolean b) = Boolean b"
| "rereadJson (Integer i) = (if 0 \<le> sint i then Unsigned i else Integer i)"
| "rereadJson (Unsigned u) = Unsigned u"
| "rereadJson (Float d) = Float d"
| "rereadJson (Str s) = Str s"
| "rereadJson (Array js) = Array (map rereadJson js)"
| "rereadJson (Object fs) = Object (map (map_prod id rereadJson) fs)"
| "rereadJson (Binary b) = Binary b"

primrec textual :: "('v \<Rightarrow> bool) \<Rightarrow> 'v json \<Rightarrow> bool" where
  "textual fin Null = True"
| "textual fin (Boolean b) = True"
| "textual fin (Integer i) = True"
| "textual fin (Unsigned u) = True"
| "textual fin (Float d) = fin d"
| "textual fin (Str s) = True"
| "textual fin (Array js) = list_all id (map (textual fin) js)"
| "textual fin (Object fs) = (sorted_keys fs \<and> list_all snd (map (map_prod id (textual fin)) fs))"
| "textual fin (Binary b) = False"

definition nlohmann_text ::
  "('v \<Rightarrow> bool) \<Rightarrow> ('v json \<Rightarrow> qstring option) \<Rightarrow> (qstring \<Rightarrow> 'v json option) \<Rightarrow> bool" where
  "nlohmann_text fin dump parse =
     (\<forall>j s. textual fin j \<longrightarrow> dump j = Some s \<longrightarrow> s \<noteq> [] \<and> parse s = Some (rereadJson j))"

text \<open>The same on variants: an integer that is not negative arrives as an unsigned one.\<close>

primrec unsignedForm :: "'v qvariant \<Rightarrow> 'v qvariant" where
  "unsignedForm QInvalid = QInvalid"
| "unsignedForm (QBool b) = QBool b"
| "unsignedForm (QSigned k i) = (if k = KLongLong \<and> 0 \<le> sint i then QUnsigned KULongLong i else QSigned k i)"
| "unsignedForm (QUnsigned k u) = QUnsigned k u"
| "unsignedForm (QReal d) = QReal d"
| "unsignedForm (QString s) = QString s"
| "unsignedForm (QBytes b) = QBytes b"
| "unsignedForm (QStringList ss) = QStringList ss"
| "unsignedForm (QVariantList vs) = QVariantList (map unsignedForm vs)"
| "unsignedForm (QVariantMap m) = QVariantMap (map (map_prod id unsignedForm) m)"
| "unsignedForm (QJsonValue j) = QJsonValue j"
| "unsignedForm (QJsonObject fs) = QJsonObject fs"
| "unsignedForm (QJsonArray js) = QJsonArray js"
| "unsignedForm (QLogosResult ok v e) = QLogosResult ok v e"
| "unsignedForm (QOther x) = QOther x"

lemma unsignedForm_string: "unsignedForm v = QString s \<longleftrightarrow> v = QString s"
  by (cases v) auto

lemma native_unsignedForm: "json_native fin v \<Longrightarrow> json_native fin (unsignedForm v)"
proof (induction v)
  case (QVariantMap m)
  have "map (map_prod id unsignedForm) m = [(bytesKey, QString s)] \<longleftrightarrow> m = [(bytesKey, QString s)]" for s
    by (cases m) (auto simp: unsignedForm_string)
  with QVariantMap show ?case by (fastforce simp: list_all_iff)
qed (auto simp: list_all_iff)

lemma bytes_textual [simp]: "textual fin (bytesToJson b)" "rereadJson (bytesToJson b) = bytesToJson b"
  by (simp_all add: bytesToJson_def sorted_keys_def)

lemma native_text:
  assumes laws: "qt_json_laws fin of_int_v E"
  shows "json_native fin v \<Longrightarrow> textual fin (qvariantToNlohmann E v) \<and>
    rereadJson (qvariantToNlohmann E v) = qvariantToNlohmann E (unsignedForm v)"
proof (induction v)
  case (QVariantMap m)
  have "put_all (map (map_prod id (qvariantToNlohmann E)) m) = map (map_prod id (qvariantToNlohmann E)) m"
    "put_all (map (map_prod id (qvariantToNlohmann E)) (map (map_prod id unsignedForm) m)) =
      map (map_prod id (qvariantToNlohmann E)) (map (map_prod id unsignedForm) m)"
    using QVariantMap.prems by (simp_all add: put_all_sorted del: map_map)
  note puts = this
  have each: "textual fin (qvariantToNlohmann E w) \<and> rereadJson (qvariantToNlohmann E w) = qvariantToNlohmann E (unsignedForm w)"
    if "(k, w) \<in> set m" for k w
    using QVariantMap.IH[OF that, of w] QVariantMap.prems that by (auto simp: list_all_iff prod_set_simps)
  have "map (map_prod id rereadJson) (map (map_prod id (qvariantToNlohmann E)) m) =
      map (map_prod id (qvariantToNlohmann E)) (map (map_prod id unsignedForm) m)"
    using each by (auto simp del: list.map_comp)
  moreover have "list_all snd (map (map_prod id (textual fin)) (map (map_prod id (qvariantToNlohmann E)) m))"
    using each by (auto simp: list_all_iff)
  ultimately show ?case
    using QVariantMap.prems puts by (simp del: map_map)
next
  case (QVariantList vs)
  then show ?case by (auto simp: list_all_iff)
qed (use qt_json_scalars[OF laws] in \<open>auto\<close>)

lemma text_of_native:
  assumes "qt_json_laws fin of_int_v E" and "nlohmann_text fin dump parse" and "json_native fin v"
    and "dump (qvariantToNlohmann E v) = Some s"
  shows "s \<noteq> [] \<and> map_option nlohmannToQVariant (parse s) = Some (unsignedForm v)"
  using assms(2,4) native_text[OF assms(1,3)] native_round_trip[OF assms(1) native_unsignedForm[OF assms(3)]]
  by (auto simp: nlohmann_text_def)

text \<open>
  C35: calls pass through the C interface as texts. When the caller prints plain arguments into a
  JSON array, both variants make the same call of the module, with each argument as it was
  except that an integer that is not negative arrives as an unsigned one; a plain result is
  reported by both as the same text, which reads back as the result up to the same change; and
  a failure is reported by both as the same text.
\<close>

theorem calls_pass_as_texts:
  fixes c :: "('v, lp_callback) client" and h :: "'v lp_client"
  assumes "qt_json_laws fin of_int_v E" and "nlohmann_text fin dump parse"
    and "list_all (json_native fin) args" and "dump (Array (map (qvariantToNlohmann E) args)) = Some args_text"
    and "lp_inner h = Some c" and "m \<noteq> []"
    and "invokeRemoteMethod conv v fr (lp_target h) m (map unsignedForm args) (lpTimeout t) c = ((r, e), c')"
    and "error_ok e \<Longrightarrow> json_native fin r \<and> dump (qvariantToNlohmann E r) = Some answer"
    and "\<not> error_ok e \<Longrightarrow> makeErrorJson dump (code e) (message e) (origin e) = Some answer"
  shows "lp_invoke conv E dump parse v fr (Some h) (Some m) (Some args_text) t True True =
      (Some (if error_ok e then (LP_OK, Some answer, None) else (LP_ERR_UNAVAILABLE, None, Some answer)),
       Some (h\<lparr>lp_inner := Some c'\<rparr>)) \<and>
    lp_invoke_async conv dump parse av (lp_target h) orig (Some a) (Some m) (Some args_text) t (Some k) =
      Some (LP_OK, Some (invokeRemoteMethodAsync conv av (lp_target h) m (map unsignedForm args) (Some k) (lpTimeout t) a)) \<and>
    resultTrampoline E dump True r e = Some (Some (error_ok e, answer)) \<and>
    (error_ok e \<longrightarrow> map_option nlohmannToQVariant (parse answer) = Some (unsignedForm r))"
proof -
  have native: "json_native fin (QVariantList args)" using assms(3) by (simp add: list_all_iff)
  from text_of_native[OF assms(1,2) native, where s = args_text] assms(4)
  have nonempty: "args_text \<noteq> []" by simp
  have reread: "rereadJson (Array (map (qvariantToNlohmann E) args)) = Array (map (qvariantToNlohmann E) (map unsignedForm args))"
    using native_text[OF assms(1) native] by simp
  have "textual fin (Array (map (qvariantToNlohmann E) args))" using native_text[OF assms(1) native] by simp
  from assms(2)[unfolded nlohmann_text_def, rule_format, OF this assms(4)]
  have "parse args_text = Some (Array (map (qvariantToNlohmann E) (map unsignedForm args)))"
    by (simp only: reread)
  moreover have "nlohmannToQVariant (qvariantToNlohmann E (unsignedForm x)) = unsignedForm x" if "x \<in> set args" for x
    using native_round_trip[OF assms(1) native_unsignedForm] assms(3) that by (auto simp: list_all_iff)
  then have "map (argumentToQVariant \<circ> qvariantToNlohmann E \<circ> unsignedForm) args = map unsignedForm args"
    by (simp add: argument_conversion)
  ultimately have args: "parseArgs dump parse (Some args_text) orig' = Some (Inr (map unsignedForm args))" for orig'
    using nonempty by (simp add: parseArgs_def absent_def comp_assoc)
  have answer: "error_ok e \<longrightarrow> map_option nlohmannToQVariant (parse answer) = Some (unsignedForm r)"
    using text_of_native[OF assms(1,2), of r answer] assms(8) by blast
  show ?thesis
    using args answer assms(5-9)
    by (cases "error_ok e")
       (simp_all add: lp_invoke_def innerOf_def absent_def invokeAnswer_def lp_invoke_async_def resultTrampoline_def)
qed

definition echo_env :: "int cenv" where
  "echo_env = \<lparr>supportsAsync = True, tryAcquireNow = (\<lambda>n. None), requestWhenAvailable = (\<lambda>n. True),
     requestObject = (\<lambda>n. None), handleValid = (\<lambda>h. True), now = 0, connected = True,
     requestWithin = (\<lambda>n t. Some 1), invokeOn = (\<lambda>h tok m args t. (QVariantList args, None)),
     informOn = (\<lambda>h a n tok t. True), reconnectOk = True, spentMs = 0\<rparr>"

definition echo_client :: "(int, lp_callback) client" where
  "echo_client = newClient ''chat'' ''ui'' (fst (saveToken ''chat'' ''tok'' newTokenManager)) False"

definition echo_handle :: "int lp_client" where
  "echo_handle = \<lparr>lp_target = ''chat'', lp_origin = ''ui'', lp_store = AmbientStore, lp_inner = Some echo_client,
     anchored = False, guard_alive = True, sub_state = newSubState\<rparr>"

definition echo_dump :: "int json \<Rightarrow> qstring option" where
  "echo_dump j = (if j = Array [Integer 5, Str ''x''] \<or> j = Array [Unsigned 5, Str ''x''] then Some ''[5,x]'' else None)"

definition echo_parse :: "qstring \<Rightarrow> int json option" where
  "echo_parse s = (if s = ''[5,x]'' then Some (Array [Unsigned 5, Str ''x'']) else None)"

lemma echo_text: "nlohmann_text (\<lambda>d. True) echo_dump echo_parse"
proof -
  have "rereadJson (Array [Integer 5, Str ''x'']) = (Array [Unsigned 5, Str ''x''] :: int json)" by code_simp
  then show ?thesis by (auto simp: nlohmann_text_def echo_dump_def echo_parse_def split: if_splits)
qed

theorem calls_pass_as_texts_witness:
  "fst (lp_invoke (\<lambda>v. []) sample_qt echo_dump echo_parse echo_env quiet_frames (Some echo_handle) (Some ''say'')
      (Some ''[5,x]'') 0 True True) = Some (LP_OK, Some ''[5,x]'', None) \<and>
   map_option nlohmannToQVariant (echo_parse ''[5,x]'') = Some (QVariantList [QUnsigned KULongLong 5, QString ''x''])"
proof -
  let ?args = "[QSigned KLongLong 5, QString ''x''] :: int qvariant list"
  let ?ans = "invokeRemoteMethod (\<lambda>v. []) echo_env quiet_frames (lp_target echo_handle) ''say'' (map unsignedForm ?args) (lpTimeout 0) echo_client"
  have r: "fst (fst ?ans) = QVariantList [QUnsigned KULongLong 5, QString ''x'']" "error_ok (snd (fst ?ans))" by code_simp+
  have d: "echo_dump (Array (map (qvariantToNlohmann sample_qt) ?args)) = Some ''[5,x]''" by code_simp
  have e: "echo_dump (qvariantToNlohmann sample_qt (QVariantList [QUnsigned KULongLong 5, QString ''x''])) = Some ''[5,x]''" by code_simp
  have i: "lp_inner echo_handle = Some echo_client" by (simp add: echo_handle_def)
  have "?ans = ((fst (fst ?ans), snd (fst ?ans)), snd ?ans)" by simp
  from calls_pass_as_texts[OF sample_qt_laws echo_text _ d i _ this, where answer = "''[5,x]''"] r e
  have "lp_invoke (\<lambda>v. []) sample_qt echo_dump echo_parse echo_env quiet_frames (Some echo_handle) (Some ''say'') (Some ''[5,x]'') 0 True True =
      (Some (LP_OK, Some ''[5,x]'', None), Some (echo_handle\<lparr>lp_inner := Some (snd ?ans)\<rparr>)) \<and>
    map_option nlohmannToQVariant (echo_parse ''[5,x]'') = Some (unsignedForm (QVariantList [QUnsigned KULongLong 5, QString ''x'']))"
    by simp
  then show ?thesis by simp
qed

end
