(* ===== verification/C_Abi_Status.thy ===== *)
theory C_Abi_Status
  imports C_Abi_Client
begin

text \<open>
  What a C client is told of its target: the registry underneath and the mirror of the
  generation that the C interface reads without asking it. A step of the registry is looked at
  for what it appends to the log and what it does to the generation of the target.
\<close>

subsection \<open>The registry tells every generation\<close>

text \<open>The generation a watcher holds after it heard \<open>os\<close>.\<close>

fun mirrored :: "lp_callback reg_output list \<Rightarrow> u64 \<Rightarrow> u64" where
  "mirrored [] g = g"
| "mirrored (StatusCallback StatusTrampoline EvArmed g' r # os) g = mirrored os g'"
| "mirrored (_ # os) g = mirrored os g"

lemma mirrored_append: "mirrored (os @ os') g = mirrored os' (mirrored os g)"
  by (induction os g rule: mirrored.induct) simp_all

fun isReport :: "'c reg_output \<Rightarrow> bool" where
  "isReport (StatusCallback f ev g r) = True"
| "isReport _ = False"

lemma mirrored_silent: "list_all (\<lambda>x. \<not> isReport x) os \<Longrightarrow> mirrored os g = g"
  by (induction os g rule: mirrored.induct) auto

lemma trampoline_mirror: "sub_generation (snd (statusTrampoline al ev g r st)) = (if ev = EvArmed then g else sub_generation st)"
  by (simp add: statusTrampoline_def Let_def split: option.split)

lemma mirrored_status:
  "mirrored (StatusCallback StatusTrampoline ev g' r # os) g = mirrored os (if ev = EvArmed then g' else g)"
  by (cases ev) simp_all

lemma deliverStatus_mirror: "sub_generation (snd (deliverStatus al os st)) = mirrored os (sub_generation st)"
proof (induction al os st rule: deliverStatus.induct)
  case (2 al ev g reason os st)
  obtain r1 st1 where s: "statusTrampoline al ev g reason st = (r1, st1)" by fastforce
  have "sub_generation st1 = (if ev = EvArmed then g else sub_generation st)"
    using trampoline_mirror[of al ev g reason st] s by simp
  with 2 s show ?case by (simp add: mirrored_status split_beta del: mirrored.simps)
qed simp_all

definition watching :: "qstring \<Rightarrow> lp_callback registry \<Rightarrow> bool" where
  "watching t s = (\<forall>n. onStatus (target_of n s) = (if n = t then Some StatusTrampoline else None))"

definition tells :: "qstring \<Rightarrow> lp_callback registry \<Rightarrow> lp_callback registry \<Rightarrow> bool" where
  "tells t s s' = (watching t s \<longrightarrow> watching t s' \<and>
     (\<exists>os. rlog s' = rlog s @ os \<and> mirrored os (generation t s) = generation t s'))"

lemma tells_refl [simp]: "tells t s s"
  by (auto simp: tells_def)

lemma tells_trans:
  assumes "tells t s u" and "tells t u w"
  shows "tells t s w"
  unfolding tells_def
proof
  assume "watching t s"
  with assms obtain os os' where "watching t w" "rlog u = rlog s @ os" "mirrored os (generation t s) = generation t u"
    "rlog w = rlog u @ os'" "mirrored os' (generation t u) = generation t w"
    by (auto simp: tells_def)
  then show "watching t w \<and> (\<exists>os. rlog w = rlog s @ os \<and> mirrored os (generation t s) = generation t w)"
    by (auto simp: mirrored_append intro!: exI[of _ "os @ os'"])
qed

lemma tells_fold: "(\<And>x s. tells t s (f x s)) \<Longrightarrow> tells t s (fold f xs s)"
  by (induction xs arbitrary: s) (auto intro: tells_trans)

text \<open>Steps that leave the targets alone and report nothing.\<close>

lemma tells_quiet:
  assumes "targets s' = targets s" and "rlog s' = rlog s @ os" and "list_all (\<lambda>x. \<not> isReport x) os"
  shows "tells t s s'"
  using assms by (auto simp: tells_def watching_def generation_def target_of_def mirrored_silent)

lemma tells_still: "targets s' = targets s \<Longrightarrow> rlog s' = rlog s \<Longrightarrow> tells t s s'"
  by (rule tells_quiet[where os = "[]"]) simp_all

lemma tells_reportTarget:
  assumes "ev \<noteq> EvArmed"
  shows "tells t s (reportTarget n ev r s)"
proof -
  have same: "target_of m (reportTarget n ev r s) = target_of m s" for m by (simp add: target_of_def)
  have "mirrored [StatusCallback fn ev g r] k = k" for fn g k
    using assms by (cases fn; cases ev) simp_all
  then show ?thesis
    unfolding tells_def watching_def generation_def same
    by (auto simp: reportTarget_log split: option.split)
qed

lemma tells_ensureTimer: "tells t s (ensureTimer s)"
  by (rule tells_still) (simp_all add: ensureTimer_def)

lemma tells_chooseHandle: "tells t s (snd (chooseHandle v n h s))"
proof (cases "hash_find (handles s) n")
  case None
  then show ?thesis by (intro tells_still) (simp_all add: chooseHandle_def)
next
  case (Some a)
  consider "a = h" | "a \<noteq> h" "handleValid v a" | "a \<noteq> h" "\<not> handleValid v a" by blast
  then show ?thesis
  proof cases
    case 1
    with Some show ?thesis by (intro tells_still) (simp_all add: chooseHandle_def)
  next
    case 2
    with Some show ?thesis by (intro tells_quiet[where os = "[ReleaseHandle h]"]) (simp_all add: chooseHandle_def)
  next
    case 3
    with Some show ?thesis
      by (intro tells_quiet[where os = "[ReleaseHandle a]"]) (simp_all add: chooseHandle_def reviveArmed_def)
  qed
qed

lemma armOutput_silent: "list_all (\<lambda>x. \<not> isReport x) (concat (map (armOutput h) es))"
  by (induction es) (auto simp: armOutput_def split: option.split)

text \<open>Arming advances the generation of a real subscription and reports the new one last.\<close>

lemma tells_arm:
  assumes "real \<longleftrightarrow> (\<exists>e \<in> set es. \<not> readinessOnly e)"
  shows "tells t s (let s3 = (if real then nextGeneration n s else s); s4 = fold (armEntry h) es s3
     in if real then reportTarget n EvArmed [] s4 else s4)"
proof (cases real)
  case False
  then show ?thesis
    by (simp add: tells_quiet[OF _ armEntry_fold_log armOutput_silent] armEntry_fold)
next
  case True
  define s4 where "s4 = fold (armEntry h) es (nextGeneration n s)"
  define s5 where "s5 = reportTarget n EvArmed [] s4"
  have tg: "target_of m s5 = target_of m (nextGeneration n s)" "target_of m s4 = target_of m (nextGeneration n s)" for m
    by (simp_all add: s5_def s4_def target_of_def armEntry_fold)
  have st: "onStatus (target_of m (nextGeneration n s)) = onStatus (target_of m s)"
    "generation m (nextGeneration n s) = generation m s + (if m = n then 1 else 0)" for m
    by (simp_all add: nextGeneration_def Let_def target_of_def generation_def)
  have g4: "generation n s4 = generation n s + 1" using st(2)[of n] tg by (simp add: generation_def)
  have log: "rlog s5 = rlog s @ concat (map (armOutput h) es) @
      (case onStatus (target_of n s) of None \<Rightarrow> [] | Some fn \<Rightarrow> [StatusCallback fn EvArmed (generation n s + 1) []])"
    by (simp add: s5_def reportTarget_log tg st g4 split: option.split) (simp add: s4_def armEntry_fold_log nextGeneration_def Let_def)
  have gen: "generation t s5 = generation t s + (if t = n then 1 else 0)"
    using st(2)[of t] tg by (simp add: generation_def)
  have "tells t s s5"
    unfolding tells_def
  proof (intro impI conjI)
    assume w: "watching t s"
    show "watching t s5" using w by (simp add: watching_def tg st)
    show "\<exists>os. rlog s5 = rlog s @ os \<and> mirrored os (generation t s) = generation t s5"
      using w log gen by (cases "n = t") (simp_all add: watching_def mirrored_append mirrored_silent armOutput_silent)
  qed
  with True show ?thesis by (simp add: s5_def s4_def Let_def)
qed

lemma tells_armAgainst: "tells t s (armAgainst v n h s)"
proof -
  obtain k s1 where c: "chooseHandle v n h s = (k, s1)" by fastforce
  obtain m s2 where tm: "takeMatching n s1 = (m, s2)" by fastforce
  have a: "tells t s s1" using tells_chooseHandle[of t s v n h] c by simp
  have b: "tells t s1 s2" by (rule tells_still) (use takeMatching_fields[of n s1] tm in simp_all)
  show ?thesis
    unfolding armAgainst_def c tm Let_def prod.case
    by (rule tells_trans[OF tells_trans[OF a b] tells_trans[OF _ tells_ensureTimer]])
       (use tells_arm[OF HOL.refl, unfolded Let_def] in blast)
qed

lemma tells_startAcquire: "tells t s (snd (startAcquire v n s))"
  by (rule tells_still) (simp_all add: startAcquire_def)

lemma tells_beginAcquire: "tells t s (snd (beginAcquire v n s))"
proof (cases "if supportsAsync v \<and> n \<notin> set (acquiring s) then tryAcquireNow v n else None")
  case None
  obtain k s1 where a: "startAcquire v n s = (k, s1)" by fastforce
  have "tells t s s1" using tells_startAcquire[of t s v n] a by simp
  with None a show ?thesis
    by (auto simp: beginAcquire_def split: option.split intro: tells_trans tells_armAgainst)
next
  case (Some h)
  then show ?thesis by (simp add: beginAcquire_def tells_armAgainst)
qed

lemma tells_abandon: "tells t s (abandon n s)"
proof -
  obtain m s1 where tm: "takeMatching n s = (m, s1)" by fastforce
  let ?os = "concat (map (\<lambda>e. case onArmed e of None \<Rightarrow> [] | Some f \<Rightarrow> [ArmedCallback f False]) m)"
  have "list_all (\<lambda>x. \<not> isReport x) ?os" by (induction m) (auto split: option.split)
  then have "tells t s (emit ?os s1)"
    using takeMatching_fields[of n s] tm by (intro tells_quiet) simp_all
  then show ?thesis
    unfolding abandon_def tm Let_def prod.case
    by (auto intro: tells_trans[OF _ tells_reportTarget])
qed

lemma tells_acquired: "tells t s (acquired v n h s)"
proof -
  have "tells t s (s\<lparr>acquiring := removeAll n (acquiring s)\<rparr>)" by (rule tells_still) simp_all
  then show ?thesis
    by (auto simp: acquired_def Let_def split: option.split intro: tells_trans tells_armAgainst tells_abandon)
qed

lemma tells_add: "tells t s (snd (addSubscription v n ev cb a ro s))"
proof -
  let ?e = "\<lparr>eid = nextEntryId s, objectName = n, eventName = ev, callback = cb, onArmed = a, everArmed = False,
     since = now v, warnLevel = 0, readinessOnly = ro\<rparr>"
  let ?s1 = "s\<lparr>nextEntryId := nextEntryId s + 1, entries := entries s @ [?e]\<rparr>"
  have a: "tells t s ?s1" by (rule tells_still) simp_all
  obtain d s2 where b: "beginAcquire v n ?s1 = (d, s2)" by fastforce
  have "tells t ?s1 s2" using tells_beginAcquire[of t ?s1 v n] b by simp
  note c = tells_trans[OF a this]
  show ?thesis
  proof (cases "liveHandle v n ?s1")
    case None
    then show ?thesis
      using c tells_trans[OF c tells_ensureTimer] by (simp add: addSubscription_def Let_def b)
  next
    case (Some h)
    then show ?thesis using tells_trans[OF a tells_armAgainst] by (simp add: addSubscription_def Let_def)
  qed
qed

lemma tells_cancel: "tells t s (snd (cancelSubscription i s))"
  by (rule tells_still) (simp_all add: cancelSubscription_def stopTimerIfIdle_def)

lemma tells_rearm: "tells t s (snd (rearm v n s))"
proof -
  let ?wake = "map (\<lambda>e. e\<lparr>since := now v, warnLevel := 0\<rparr>) (forObject n (held s))"
  have a: "tells t s (s\<lparr>entries := entries s @ ?wake, held := h\<rparr>)" for h by (rule tells_still) simp_all
  have b: "tells t s (s\<lparr>held := h\<rparr>)" for h by (rule tells_still) simp_all
  show ?thesis
    using tells_trans[OF tells_trans[OF a tells_armAgainst] tells_ensureTimer]
      tells_trans[OF tells_trans[OF a tells_beginAcquire] tells_ensureTimer]
    by (simp add: rearm_def Let_def b split: option.split)
qed

lemma tells_policy: "tells t s (setRestartPolicy n p s)"
proof -
  have "onStatus (target_of m (setRestartPolicy n p s)) = onStatus (target_of m s)"
    "generation m (setRestartPolicy n p s) = generation m s" "rlog (setRestartPolicy n p s) = rlog s" for m
    by (simp_all add: setRestartPolicy_def target_of_def generation_def)
  then show ?thesis by (simp add: tells_def watching_def)
qed

lemma tells_loseObject: "tells t s (loseObject v n s)"
proof -
  define s1 where "s1 = (case hash_find (handles s) n of None \<Rightarrow> s
    | Some h \<Rightarrow> emit [ReleaseHandle h] (s\<lparr>handles := hash_remove n (handles s)\<rparr>))"
  define s3 where "s3 = reviveArmed v n (holdArmed n (s1\<lparr>acquiring := removeAll n (acquiring s1)\<rparr>))"
  define ev where "ev = (if restart (target_of n s) = Manual then EvHeld else EvLost)"
  have "tells t s s1"
    by (cases "hash_find (handles s) n") (auto simp: s1_def intro!: tells_quiet)
  moreover have "tells t s1 s3"
    by (rule tells_still) (simp_all add: s3_def reviveArmed_def holdArmed_def)
  ultimately have c: "tells t s s3" by (rule tells_trans)
  have "ev \<noteq> EvArmed" by (simp add: ev_def)
  note d = tells_trans[OF c tells_reportTarget[OF this]]
  show ?thesis
    using c d tells_trans[OF c tells_beginAcquire] tells_trans[OF d tells_beginAcquire]
    unfolding loseObject_def Let_def s1_def[symmetric] s3_def[symmetric] ev_def[symmetric]
    by (simp split: if_split)
qed

lemma tells_tick: "tells t s (tick v s)"
proof -
  have l: "tells t s (checkLiveness v s)"
    by (simp add: checkLiveness_def tells_trans[OF tells_fold[OF tells_loseObject] tells_ensureTimer])
  define s2 where "s2 = fold (\<lambda>name s. snd (beginAcquire v name s)) (wantedNames (checkLiveness v s)) (checkLiveness v s)"
  have a: "tells t s s2"
    unfolding s2_def by (rule tells_trans[OF l tells_fold[OF tells_beginAcquire]])
  have "tells t s2 (rescheduleOrStop (reportStillPending v s2))"
    by (rule tells_still) (simp_all add: rescheduleOrStop_def reportStillPending_def)
  with a show ?thesis by (auto simp: tick_def Let_def s2_def intro: tells_trans)
qed

lemma tells_reconnected: "tells t s (reconnected v s)"
proof -
  have a: "tells t s (disarmAll v (dropHandles s))"
    by (rule tells_quiet[where os = "map (\<lambda>(name, h). ReleaseHandle h) (handles s)"])
       (auto simp: disarmAll_def dropHandles_def list_all_iff)
  have f: "tells t u (fold (\<lambda>name s. reportTarget name EvHeld r s) ns u)" for r ns u
    by (rule tells_fold) (simp add: tells_reportTarget)
  have g: "tells t u (fold (\<lambda>name s. snd (beginAcquire v name s)) ns u)" for ns u
    by (rule tells_fold) (rule tells_beginAcquire)
  show ?thesis
    unfolding reconnected_def Let_def
    by (rule tells_trans[OF tells_trans[OF tells_trans[OF a f] g] tells_ensureTimer])
qed

text \<open>Installing the watcher again replays the generation that is current.\<close>

lemma tells_status: "tells t s (setStatusCallback t (Some StatusTrampoline) s)"
proof -
  have "onStatus (target_of m (setStatusCallback t (Some StatusTrampoline) s)) = (if m = t then Some StatusTrampoline else onStatus (target_of m s))"
    "generation m (setStatusCallback t (Some StatusTrampoline) s) = generation m s" for m
    by (simp_all add: setStatusCallback_def Let_def target_of_def generation_def)
  then show ?thesis
    by (auto simp: tells_def watching_def) (auto simp: setStatusCallback_def Let_def generation_def)
qed

subsection \<open>A client's life\<close>

text \<open>
  What happens to a client between its creation and its destruction: the functions of the C
  interface, the posted tasks, the readiness waits of its asynchronous calls, and what the
  transport and the timer bring. Each step has an environment of its own.
\<close>

datatype lp_sub_op =
  SubSubscribe nat cstring "nat option"
| SubSetStatus "nat option"
| SubSetOptions cstring
| SubRearm
| SubCancel u64
| SubWait lp_callback
| SubAcquired qstring "handle option"
| SubTick
| SubReconnect

definition atRegistry ::
  "(lp_callback registry \<Rightarrow> lp_callback registry) \<Rightarrow> 'v lp_client \<Rightarrow> lp_report list \<times> 'v lp_client" where
  "atRegistry f h = (case lp_inner h of None \<Rightarrow> ([], h)
     | Some c \<Rightarrow> snd (onConsumer (\<lambda>s. ((), s\<lparr>pendingSubs := map_option f (pendingSubs s)\<rparr>)) c h))"

definition lp_sub_step ::
  "(qstring \<Rightarrow> 'd json option) \<Rightarrow> lp_sub_op \<times> 'v cenv \<Rightarrow> 'v lp_client \<Rightarrow> lp_report list \<times> 'v lp_client" where
  "lp_sub_step parse x h = (case x of
     (SubSubscribe g ev cb, v) \<Rightarrow> map_prod id the (snd (lp_subscribe v g ev cb (Some h)))
   | (SubSetStatus cb, v) \<Rightarrow> map_prod id the (snd (lp_client_set_subscription_status_cb cb (Some h)))
   | (SubSetOptions opts, v) \<Rightarrow> map_prod id the (snd (lp_client_set_subscription_options parse opts (Some h)))
   | (SubRearm, v) \<Rightarrow> rearmTask v h
   | (SubCancel i, v) \<Rightarrow> cancelTask i h
   | (SubWait k, v) \<Rightarrow> (case lp_inner h of None \<Rightarrow> ([], h)
       | Some c \<Rightarrow> snd (onConsumer (whenObjectAvailable v (lp_target h) (Some k)) c h))
   | (SubAcquired n a, v) \<Rightarrow> atRegistry (acquired (env.truncate v) n a) h
   | (SubTick, v) \<Rightarrow> atRegistry (\<lambda>s. if timerOn s then tick (env.truncate v) s else s) h
   | (SubReconnect, v) \<Rightarrow> (case lp_inner h of None \<Rightarrow> ([], h) | Some c \<Rightarrow> snd (onConsumer (reconnectConsumer v) c h)))"

fun lp_sub_run ::
  "(qstring \<Rightarrow> 'd json option) \<Rightarrow> (lp_sub_op \<times> 'v cenv) list \<Rightarrow> 'v lp_client \<Rightarrow> lp_report list \<times> 'v lp_client" where
  "lp_sub_run parse [] h = ([], h)"
| "lp_sub_run parse (x # xs) h =
     (case lp_sub_step parse x h of (r1, h1) \<Rightarrow> case lp_sub_run parse xs h1 of (r2, h2) \<Rightarrow> (r1 @ r2, h2))"

definition lp_mirror_ok :: "'v lp_client \<Rightarrow> bool" where
  "lp_mirror_ok h = (\<exists>c r. lp_inner h = Some c \<and> pendingSubs (mainConsumer c) = Some r \<and>
     watching (lp_target h) r \<and> sub_generation (sub_state h) = generation (lp_target h) r \<and> lp_target h \<noteq> [] \<and>
     guard_alive h)"

text \<open>An operation on the consumer that runs the registry by a telling step.\<close>

lemma mirror_onConsumer:
  assumes ok: "lp_mirror_ok h" and c: "lp_inner h = Some c"
    and f: "\<And>r. pendingSubs (mainConsumer c) = Some r \<Longrightarrow>
      \<exists>r'. pendingSubs (snd (f (mainConsumer c))) = Some r' \<and> tells (lp_target h) r r'"
  shows "lp_mirror_ok (snd (snd (onConsumer f c h))) \<and> lp_target (snd (snd (onConsumer f c h))) = lp_target h"
proof -
  obtain r where r: "pendingSubs (mainConsumer c) = Some r" "watching (lp_target h) r"
    "sub_generation (sub_state h) = generation (lp_target h) r" "lp_target h \<noteq> []" "guard_alive h"
    using ok c by (auto simp: lp_mirror_ok_def)
  obtain r' where r': "pendingSubs (snd (f (mainConsumer c))) = Some r'" "tells (lp_target h) r r'" using f[OF r(1)] by blast
  obtain os where os: "watching (lp_target h) r'" "rlog r' = rlog r @ os" "mirrored os (generation (lp_target h) r) = generation (lp_target h) r'"
    using r'(2) r(2) by (auto simp: tells_def)
  obtain a s where fs: "f (mainConsumer c) = (a, s)" by fastforce
  obtain reports st where d: "deliverStatus (guard_alive h) os (sub_state h) = (reports, st)" by fastforce
  have "sub_generation st = generation (lp_target h) r'"
    using deliverStatus_mirror[of "guard_alive h" os "sub_state h"] d os(3) r(3) by simp
  then show ?thesis
    using r' os r fs d by (simp add: onConsumer_def registryLog_def lp_mirror_ok_def)
qed

lemma status_cb_keeps: "lp_mirror_ok (h\<lparr>sub_state := (sub_state h)\<lparr>status_cb := cb\<rparr>\<rparr>) = lp_mirror_ok h"
  by (simp add: lp_mirror_ok_def)

lemma mirror_step:
  assumes "lp_mirror_ok h"
  shows "lp_mirror_ok (snd (lp_sub_step parse (op, v) h)) \<and> lp_target (snd (lp_sub_step parse (op, v) h)) = lp_target h"
proof -
  obtain c where c: "lp_inner h = Some c" and t: "lp_target h \<noteq> []" using assms by (auto simp: lp_mirror_ok_def)
  note on = mirror_onConsumer[OF assms c]
  show ?thesis
  proof (cases op)
    case (SubSubscribe g ev cb)
    have "lp_mirror_ok (snd (snd (onConsumer (onEventWhenAvailable v (lp_target h) (the ev) (Some (EventTrampoline g (the cb))) None) c h))) \<and>
       lp_target (snd (snd (onConsumer (onEventWhenAvailable v (lp_target h) (the ev) (Some (EventTrampoline g (the cb))) None) c h))) = lp_target h"
      by (rule on)
         (use t tells_add in \<open>auto simp: onEventWhenAvailable_def ensureRegistry_def split_beta Let_def\<close>)
    then show ?thesis
      using SubSubscribe assms by (auto simp: lp_sub_step_def lp_subscribe_def innerOf_def c split_beta)
  next
    case (SubSetStatus cb)
    let ?h = "h\<lparr>sub_state := (sub_state h)\<lparr>status_cb := cb\<rparr>\<rparr>"
    have "lp_mirror_ok (snd (snd (onConsumer (\<lambda>s. ((), setSubscriptionStatusCallback (lp_target h) (Some StatusTrampoline) s)) c ?h))) \<and>
        lp_target (snd (snd (onConsumer (\<lambda>s. ((), setSubscriptionStatusCallback (lp_target h) (Some StatusTrampoline) s)) c ?h))) = lp_target ?h"
      by (rule mirror_onConsumer)
         (use assms c t tells_status in \<open>auto simp: status_cb_keeps setSubscriptionStatusCallback_def ensureRegistry_def\<close>)
    then show ?thesis
      using SubSetStatus assms
      by (auto simp: lp_sub_step_def lp_client_set_subscription_status_cb_def innerOf_def c split_beta Let_def status_cb_keeps)
  next
    case (SubSetOptions opts)
    have "lp_mirror_ok (snd (snd (onConsumer (\<lambda>s. ((), setSubscriptionRestartPolicy (lp_target h) p s)) c h))) \<and>
        lp_target (snd (snd (onConsumer (\<lambda>s. ((), setSubscriptionRestartPolicy (lp_target h) p s)) c h))) = lp_target h" for p
      by (rule on) (use t tells_policy in \<open>auto simp: setSubscriptionRestartPolicy_def ensureRegistry_def\<close>)
    then show ?thesis
      using SubSetOptions assms
      by (auto simp: lp_sub_step_def lp_client_set_subscription_options_def innerOf_def c split_beta split: option.split)
  next
    case SubRearm
    have "lp_mirror_ok (snd (snd (onConsumer (rearmSubscriptions v (lp_target h)) c h))) \<and>
        lp_target (snd (snd (onConsumer (rearmSubscriptions v (lp_target h)) c h))) = lp_target h"
      by (rule on) (use t tells_rearm in \<open>auto simp: rearmSubscriptions_def split_beta Let_def\<close>)
    then show ?thesis using SubRearm assms by (auto simp: lp_sub_step_def rearmTask_def c)
  next
    case (SubCancel i)
    have "lp_mirror_ok (snd (snd (onConsumer (cancelEventSubscription i) c h))) \<and>
        lp_target (snd (snd (onConsumer (cancelEventSubscription i) c h))) = lp_target h"
      by (rule on) (use tells_cancel in \<open>auto simp: cancelEventSubscription_def split_beta Let_def\<close>)
    then show ?thesis using SubCancel assms by (auto simp: lp_sub_step_def cancelTask_def c)
  next
    case (SubWait k)
    have "lp_mirror_ok (snd (snd (onConsumer (whenObjectAvailable v (lp_target h) (Some k)) c h))) \<and>
        lp_target (snd (snd (onConsumer (whenObjectAvailable v (lp_target h) (Some k)) c h))) = lp_target h"
      by (rule on) (use t tells_add in \<open>auto simp: whenObjectAvailable_def ensureRegistry_def split_beta Let_def\<close>)
    then show ?thesis using SubWait assms by (auto simp: lp_sub_step_def c)
  next
    case (SubAcquired n a)
    have "lp_mirror_ok (snd (atRegistry (acquired (env.truncate v) n a) h)) \<and>
        lp_target (snd (atRegistry (acquired (env.truncate v) n a) h)) = lp_target h"
      unfolding atRegistry_def c option.case by (rule on) (use tells_acquired in auto)
    then show ?thesis using SubAcquired by (simp add: lp_sub_step_def)
  next
    case SubTick
    have "lp_mirror_ok (snd (atRegistry (\<lambda>s. if timerOn s then tick (env.truncate v) s else s) h)) \<and>
        lp_target (snd (atRegistry (\<lambda>s. if timerOn s then tick (env.truncate v) s else s) h)) = lp_target h"
      unfolding atRegistry_def c option.case by (rule on) (use tells_tick in auto)
    then show ?thesis using SubTick by (simp add: lp_sub_step_def)
  next
    case SubReconnect
    have "lp_mirror_ok (snd (snd (onConsumer (reconnectConsumer v) c h))) \<and>
        lp_target (snd (snd (onConsumer (reconnectConsumer v) c h))) = lp_target h"
      by (rule on) (use tells_reconnected in \<open>auto simp: reconnectConsumer_def Let_def clearObjectCache_def jot_def\<close>)
    then show ?thesis using SubReconnect by (simp add: lp_sub_step_def c)
  qed
qed

lemma mirror_run:
  "lp_mirror_ok h \<Longrightarrow> lp_mirror_ok (snd (lp_sub_run parse ops h)) \<and> lp_target (snd (lp_sub_run parse ops h)) = lp_target h"
proof (induction ops arbitrary: h)
  case (Cons x ops)
  obtain r1 h1 where s: "lp_sub_step parse x h = (r1, h1)" by fastforce
  have "lp_mirror_ok h1 \<and> lp_target h1 = lp_target h"
    using mirror_step[OF Cons.prems, of parse "fst x" "snd x"] s by simp
  with Cons.IH[of h1] show ?case by (simp add: s split_beta)
qed simp

subsection \<open>What the user hears\<close>

text \<open>The generation of the last report of an arming.\<close>

definition lastArmed :: "lp_report list \<Rightarrow> u64 \<Rightarrow> u64" where
  "lastArmed rs g = foldl (\<lambda>g (k, state, gen, reason). if state = 1 then gen else g) g rs"

lemma lastArmed_simps [simp]:
  "lastArmed [] g = g" "lastArmed ((k, st, gen, r) # rs) g = lastArmed rs (if st = 1 then gen else g)"
  "lastArmed (rs @ rs') g = lastArmed rs' (lastArmed rs g)"
  by (simp_all add: lastArmed_def)

definition hears :: "'v lp_client \<Rightarrow> lp_report list \<times> 'v lp_client \<Rightarrow> bool" where
  "hears h = (\<lambda>(rs, h'). guard_alive h \<and> status_cb (sub_state h) \<noteq> None \<longrightarrow>
     guard_alive h' \<and> status_cb (sub_state h') \<noteq> None \<and>
     lastArmed rs (sub_generation (sub_state h)) = sub_generation (sub_state h'))"

lemma hears_same [simp]: "hears h ([], h)"
  by (simp add: hears_def)

lemma deliver_heard:
  assumes "status_cb st \<noteq> None"
  shows "status_cb (snd (deliverStatus True os st)) = status_cb st \<and>
    lastArmed (fst (deliverStatus True os st)) (sub_generation st) = sub_generation (snd (deliverStatus True os st))"
  using assms
proof (induction True os st rule: deliverStatus.induct)
  case (2 ev g reason os st)
  from 2(2) obtain k where k: "status_cb st = Some k" by blast
  let ?st = "if ev = EvArmed then st\<lparr>sub_generation := g\<rparr> else st"
  have t: "statusTrampoline True ev g reason st = ([(k, lpState ev, g, if reason = [] then None else Some reason)], ?st)"
    by (simp add: statusTrampoline_def k)
  from 2(1)[OF t[symmetric] HOL.refl] k t show ?case by (cases ev) (simp_all add: split_beta lpState_def)
qed simp_all

lemma hears_onConsumer: "hears h (snd (onConsumer f c h))"
  using deliver_heard[of "sub_state h"] by (auto simp: hears_def onConsumer_def split_beta Let_def)

lemma hears_onConsumer_set:
  "hears h (snd (onConsumer f c (h\<lparr>sub_state := (sub_state h)\<lparr>status_cb := Some k\<rparr>\<rparr>)))"
  using hears_onConsumer[of "h\<lparr>sub_state := (sub_state h)\<lparr>status_cb := Some k\<rparr>\<rparr>" f c] by (auto simp: hears_def split_beta)

lemma hears_step:
  assumes "op \<noteq> SubSetStatus None" and "lp_inner h \<noteq> None"
  shows "hears h (lp_sub_step parse (op, v) h)"
proof -
  obtain c where c: "lp_inner h = Some c" using assms(2) by blast
  show ?thesis
    using assms
    by (auto simp: lp_sub_step_def lp_subscribe_def lp_client_set_subscription_status_cb_def innerOf_def c
        lp_client_set_subscription_options_def rearmTask_def cancelTask_def atRegistry_def split_beta Let_def map_prod_def
        hears_onConsumer hears_onConsumer_set split: lp_sub_op.split option.split)
qed

lemma hears_trans: "hears h (r1, h1) \<Longrightarrow> hears h1 (r2, h2) \<Longrightarrow> hears h (r1 @ r2, h2)"
  by (auto simp: hears_def)

lemma hears_run:
  assumes "lp_mirror_ok h" and "list_all (\<lambda>(op, v). op \<noteq> SubSetStatus None) ops"
  shows "hears h (lp_sub_run parse ops h)"
  using assms
proof (induction ops arbitrary: h)
  case (Cons x ops)
  obtain r1 h1 where s: "lp_sub_step parse x h = (r1, h1)" by fastforce
  have "hears h (r1, h1)"
    using hears_step[of "fst x" h parse "snd x"] Cons.prems s by (auto simp: lp_mirror_ok_def split_beta)
  moreover have "lp_mirror_ok h1" using mirror_step[OF Cons.prems(1), of parse "fst x" "snd x"] s by simp
  then have "hears h1 (lp_sub_run parse ops h1)" using Cons by simp
  ultimately show ?case by (auto simp: s split_beta intro: hears_trans)
qed simp

lemma created_mirror:
  assumes "lp_client_create fixture trunc parse tm om tj cj im = Some (Some h, im')"
  shows "lp_mirror_ok h \<and> lp_target h = the tm"
proof -
  have "watching (the tm) (setStatusCallback (the tm) (Some StatusTrampoline) newRegistry)"
    "generation (the tm) (setStatusCallback (the tm) (Some StatusTrampoline) newRegistry) = 0"
    by (simp_all add: watching_def setStatusCallback_def Let_def target_of_def newRegistry_def defaultTarget_def
        hasArmedFor_def hasHeldFor_def generation_def)
  moreover have "the tm \<noteq> []" using assms by (auto simp: lp_client_create_def absent_def split: if_splits)
  ultimately show ?thesis
    using assms
    by (auto simp: lp_client_create_def watched_def newClient_def newConsumer_def setSubscriptionStatusCallback_def
        ensureRegistry_def lp_mirror_ok_def newSubState_def split: if_splits option.splits prod.splits)
qed

text \<open>
  C21: what a C client knows of its subscriptions. Whatever is subscribed, re-armed, cancelled or
  configured and whatever the transport and the timer bring, the generation a client reads
  without asking anyone is the one the registry has for its target. A status function installed
  at any moment is told the current state at once, with that generation, when some subscription
  is armed or held; and the last arming it has been told of is ever after the current one.
\<close>

theorem subscription_generation_is_current:
  assumes "lp_client_create fixture trunc parse tm om tj cj im = Some (Some h, im')"
    and "lp_sub_run parse' before h = (r1, h1)"
    and "lp_sub_step parse' (SubSetStatus (Some k), v) h1 = (r0, h2)"
    and "lp_sub_run parse' after h2 = (r2, h3)" and "list_all (\<lambda>(op, v). op \<noteq> SubSetStatus None) after"
  shows "lp_client_subscription_generation (Some h1) = subscriptionGeneration (the tm) (mainConsumer (the (lp_inner h1))) \<and>
    r0 = (let s = ensureRegistry (mainConsumer (the (lp_inner h1))); g = lp_client_subscription_generation (Some h1)
       in if hasArmedFor (the tm) s then [(k, 1, g, None)]
          else if hasHeldFor (the tm) s then [(k, 4, g, Some ''provider_unavailable'')] else []) \<and>
    lastArmed (r0 @ r2) (lp_client_subscription_generation (Some h1)) = lp_client_subscription_generation (Some h3)"
proof -
  have h: "lp_mirror_ok h" "lp_target h = the tm" using created_mirror[OF assms(1)] by simp_all
  have h1: "lp_mirror_ok h1" "lp_target h1 = the tm" using mirror_run[OF h(1), of parse' before] assms(2) h(2) by simp_all
  obtain c r where c: "lp_inner h1 = Some c" "pendingSubs (mainConsumer c) = Some r" "the tm \<noteq> []" "guard_alive h1"
    and g: "sub_generation (sub_state h1) = generation (the tm) r"
    using h1 by (auto simp: lp_mirror_ok_def)
  have one: "lp_client_subscription_generation (Some h1) = subscriptionGeneration (the tm) (mainConsumer (the (lp_inner h1)))"
    by (simp add: lp_client_subscription_generation_def subscriptionGeneration_def c g)
  have two: "r0 = (let s = ensureRegistry (mainConsumer (the (lp_inner h1))); g = lp_client_subscription_generation (Some h1)
     in if hasArmedFor (the tm) s then [(k, 1, g, None)]
        else if hasHeldFor (the tm) s then [(k, 4, g, Some ''provider_unavailable'')] else [])"
    using assms(3) h1(2) c g
    by (auto simp: lp_sub_step_def lp_client_set_subscription_status_cb_def innerOf_def onConsumer_def registryLog_def
        setSubscriptionStatusCallback_def ensureRegistry_def setStatusCallback_def Let_def statusTrampoline_def lpState_def
        lp_client_subscription_generation_def generation_def hasArmedFor_def hasHeldFor_def split: if_splits)
  have "lp_mirror_ok h2" using mirror_step[OF h1(1), of parse' "SubSetStatus (Some k)" v] assms(3) by simp
  then have "hears h2 (r2, h3)" using hears_run[OF _ assms(5), of h2 parse'] assms(4) by simp
  moreover have "hears (h1\<lparr>sub_state := (sub_state h1)\<lparr>status_cb := Some k\<rparr>\<rparr>) (r0, h2)"
    using assms(3) c(1)
      hears_onConsumer[of "h1\<lparr>sub_state := (sub_state h1)\<lparr>status_cb := Some k\<rparr>\<rparr>"
        "\<lambda>s. ((), setSubscriptionStatusCallback (lp_target h1) (Some StatusTrampoline) s)" c]
    by (simp add: lp_sub_step_def lp_client_set_subscription_status_cb_def innerOf_def split_beta Let_def)
  ultimately have "hears (h1\<lparr>sub_state := (sub_state h1)\<lparr>status_cb := Some k\<rparr>\<rparr>) (r0 @ r2, h3)" by (rule hears_trans[rotated])
  then show ?thesis
    using one two c(4) by (simp add: hears_def lp_client_subscription_generation_def)
qed

definition chat_up :: "nat cenv" where
  "chat_up = nothing_up\<lparr>tryAcquireNow := \<lambda>n. Some 5\<rparr>"

definition chat_client :: "nat lp_client option \<times> lp_image" where
  "chat_client = the (lp_client_create False (\<lambda>_. 0) grant_texts (Some ''chat'') (Some ''ui'') None None newImage)"

definition chat_run :: "(lp_sub_op \<times> nat cenv) list \<Rightarrow> nat lp_client \<Rightarrow> lp_report list \<times> nat lp_client" where
  "chat_run = lp_sub_run grant_texts"

theorem subscription_generation_is_current_witness:
  "lp_client_subscription_generation (Some (snd (chat_run [(SubSubscribe 0 (Some ''said'') (Some 7), chat_up)] (the (fst chat_client))))) = 1 \<and>
   lastArmed (fst (lp_sub_step grant_texts (SubSetStatus (Some 9), chat_up)
      (snd (chat_run [(SubSubscribe 0 (Some ''said'') (Some 7), chat_up)] (the (fst chat_client)))))) 0 = 1"
proof -
  let ?h = "the (fst chat_client)"
  let ?h1 = "snd (chat_run [(SubSubscribe 0 (Some ''said'') (Some 7), chat_up)] ?h)"
  let ?s = "lp_sub_step grant_texts (SubSetStatus (Some 9), chat_up) ?h1"
  have c: "lp_client_create False (\<lambda>_. 0) grant_texts (Some ''chat'') (Some ''ui'') None None newImage = Some (Some ?h, snd chat_client)"
    by (simp add: chat_client_def lp_client_create_def absent_def parseTransportJson_def split: prod.split)
  have g: "lp_client_subscription_generation (Some ?h1) = 1" by code_simp
  have a: "hasArmedFor ''chat'' (ensureRegistry (mainConsumer (the (lp_inner ?h1))))" by code_simp
  have "fst ?s = [(9, 1, lp_client_subscription_generation (Some ?h1), None)]"
    using subscription_generation_is_current[OF c, where before = "[(SubSubscribe 0 (Some ''said'') (Some 7), chat_up)]"
        and after = "[]" and parse' = grant_texts and k = 9 and v = chat_up and ?r1.0 = "fst (chat_run [(SubSubscribe 0 (Some ''said'') (Some 7), chat_up)] ?h)"
        and ?h1.0 = ?h1 and ?r0.0 = "fst ?s" and ?h2.0 = "snd ?s" and ?h3.0 = "snd ?s" and ?r2.0 = "[]"] a
    by (simp add: chat_run_def Let_def)
  then show ?thesis using g by simp
qed

end
