(* ===== verification/C_Abi_Callbacks.thy ===== *)
theory C_Abi_Callbacks
  imports Prelude
begin

text \<open>
  The guards of the C interface (logos_protocol.cpp) under threads: which callbacks can still
  run around \<open>lp_client_destroy\<close> and \<open>lp_unsubscribe\<close>, when the client object is touched, and
  who can wait for whom. One client with its subscriptions; thread 0 is the object's owner. A
  thread is the stack of the library's frames on it, a lock is held by the frames that hold it,
  and the events of the program are interleaved freely. Guards are recursive: a thread never
  waits for itself.
\<close>

subsection \<open>Frames, tasks and the state\<close>

text \<open>
  \<open>EvWant\<close>, \<open>EvWait\<close>, \<open>EvUser\<close>: the trampoline of a subscription before its guard, between
  the two guards and in the user's function; likewise of a result and of a status report. The
  functions of the interface follow, then a task of the owner thread, before the guard and
  under it, and a thread waiting in a blocking marshal.
\<close>

datatype lp_task = TCancel nat | TRearm | TDelete | TMarshal nat

datatype lp_frame =
  EvWant nat | EvWait nat | EvUser nat
| ResWant | ResUser
| StWant | StUser
| DestroyWant | DestroyDelete
| UnsubWant nat | UnsubNext nat | UnsubPost nat
| RearmWant | RearmPost
| TaskWant lp_task | TaskRun lp_task
| MarshalWait

text \<open>What is observed: user functions begun, functions returned, uses of the object and whether it existed.\<close>

datatype lp_happening =
  UserEvent nat nat | UserResult nat | UserStatus nat
| DestroyReturned nat | UnsubReturned nat nat
| Touched bool

text \<open>
  How far the client's destruction is, and by which thread; \<open>cb_unsubbed\<close> remembers which thread
  cancelled which subscription. The guards' flags, \<open>cb_alive\<close> and \<open>cb_dead\<close>, and the object's
  existence are what the code has.
\<close>

datatype lp_phase = NotDestroyed | Called nat | Cleared nat | DeletePosted nat | Gone nat

fun phaseOf :: "lp_phase \<Rightarrow> nat" where
  "phaseOf NotDestroyed = 0"
| "phaseOf (Called i) = i"
| "phaseOf (Cleared i) = i"
| "phaseOf (DeletePosted i) = i"
| "phaseOf (Gone i) = i"

record cb_state =
  cb_alive :: bool
  cb_object :: bool
  cb_dead :: "nat list"
  cb_unsubbed :: "(nat \<times> nat) list"
  cb_phase :: lp_phase
  cb_tasks :: "lp_task list"
  cb_stacks :: "lp_frame list list"
  cb_trace :: "lp_happening list"

definition newCallbacks :: "nat \<Rightarrow> cb_state" where
  "newCallbacks threads = \<lparr>cb_alive = True, cb_object = True, cb_dead = [], cb_unsubbed = [], cb_phase = NotDestroyed,
     cb_tasks = [], cb_stacks = replicate threads [], cb_trace = []\<rparr>"

subsection \<open>Guards\<close>

fun holdsClient :: "lp_frame \<Rightarrow> bool" where
  "holdsClient (EvUser s) = True"
| "holdsClient ResUser = True"
| "holdsClient StUser = True"
| "holdsClient (UnsubPost s) = True"
| "holdsClient RearmPost = True"
| "holdsClient (TaskRun t) = True"
| "holdsClient _ = False"

fun holdsSub :: "nat \<Rightarrow> lp_frame \<Rightarrow> bool" where
  "holdsSub s (EvWait s') = (s' = s)"
| "holdsSub s (EvUser s') = (s' = s)"
| "holdsSub s _ = False"

definition heldElsewhere :: "(lp_frame \<Rightarrow> bool) \<Rightarrow> nat \<Rightarrow> cb_state \<Rightarrow> bool" where
  "heldElsewhere P i st = list_ex (\<lambda>j. j \<noteq> i \<and> list_ex P (cb_stacks st ! j)) [0..<length (cb_stacks st)]"

subsection \<open>Steps of the frames\<close>

definition stackOf :: "nat \<Rightarrow> cb_state \<Rightarrow> lp_frame list" where
  "stackOf i st = cb_stacks st ! i"

definition setStack :: "nat \<Rightarrow> lp_frame list \<Rightarrow> cb_state \<Rightarrow> cb_state" where
  "setStack i fs st = st\<lparr>cb_stacks := (cb_stacks st)[i := fs]\<rparr>"

definition happens :: "lp_happening \<Rightarrow> cb_state \<Rightarrow> cb_state" where
  "happens h st = st\<lparr>cb_trace := cb_trace st @ [h]\<rparr>"

definition touch :: "cb_state \<Rightarrow> cb_state" where
  "touch st = happens (Touched (cb_object st)) st"

definition postTask :: "lp_task \<Rightarrow> cb_state \<Rightarrow> cb_state" where
  "postTask t st = st\<lparr>cb_tasks := cb_tasks st @ [t]\<rparr>"

text \<open>Under the client's guard: go on when the client is alive, else return.\<close>

definition ifAlive :: "nat \<Rightarrow> lp_frame list \<Rightarrow> lp_frame \<Rightarrow> lp_happening list \<Rightarrow> cb_state \<Rightarrow> cb_state" where
  "ifAlive i fs f hs st =
     (if heldElsewhere holdsClient i st then st
      else if cb_alive st then fold happens hs (setStack i (f # fs) st)
      else setStack i fs st)"

definition eventStep :: "nat \<Rightarrow> lp_frame \<Rightarrow> lp_frame list \<Rightarrow> cb_state \<Rightarrow> cb_state" where
  "eventStep i f fs st = (case f of
     EvWant s \<Rightarrow> if heldElsewhere (holdsSub s) i st then st
       else if s \<in> set (cb_dead st) then setStack i fs st else setStack i (EvWait s # fs) st
   | EvWait s \<Rightarrow> ifAlive i fs (EvUser s) [UserEvent i s] st
   | _ \<Rightarrow> st)"

definition resultStep :: "nat \<Rightarrow> lp_frame list \<Rightarrow> cb_state \<Rightarrow> cb_state" where
  "resultStep i fs st = ifAlive i fs ResUser [UserResult i] st"

definition statusStep :: "nat \<Rightarrow> lp_frame list \<Rightarrow> cb_state \<Rightarrow> cb_state" where
  "statusStep i fs st = ifAlive i fs StUser [UserStatus i] st"

text \<open>Deleting the object drops what is posted to it and releases who waits for a posted call.\<close>

definition releaseWaiter :: "lp_frame list \<Rightarrow> lp_frame list" where
  "releaseWaiter fs = (case fs of MarshalWait # gs \<Rightarrow> gs | _ \<Rightarrow> fs)"

definition deleteObject :: "cb_state \<Rightarrow> cb_state" where
  "deleteObject st = (touch st)\<lparr>cb_object := False, cb_phase := Gone (phaseOf (cb_phase st)), cb_tasks := [],
     cb_stacks := map releaseWaiter (cb_stacks st)\<rparr>"

definition destroyStep :: "nat \<Rightarrow> lp_frame \<Rightarrow> lp_frame list \<Rightarrow> cb_state \<Rightarrow> cb_state" where
  "destroyStep i f fs st = (case f of
     DestroyWant \<Rightarrow> if heldElsewhere holdsClient i st then st
       else (setStack i (DestroyDelete # fs) st)\<lparr>cb_alive := False, cb_phase := Cleared i\<rparr>
   | DestroyDelete \<Rightarrow> happens (DestroyReturned i)
       (if i = 0 then deleteObject (setStack i fs st)
        else (postTask TDelete (touch (setStack i fs st)))\<lparr>cb_phase := DeletePosted i\<rparr>)
   | _ \<Rightarrow> st)"

definition unsubStep :: "nat \<Rightarrow> lp_frame \<Rightarrow> lp_frame list \<Rightarrow> cb_state \<Rightarrow> cb_state" where
  "unsubStep i f fs st = (case f of
     UnsubWant s \<Rightarrow> if heldElsewhere (holdsSub s) i st then st
       else (setStack i (UnsubNext s # fs) st)\<lparr>cb_dead := s # cb_dead st\<rparr>
   | UnsubNext s \<Rightarrow> if heldElsewhere holdsClient i st then st
       else if cb_alive st then setStack i (UnsubPost s # fs) st
       else happens (UnsubReturned i s) (setStack i fs st)
   | UnsubPost s \<Rightarrow> happens (UnsubReturned i s) (postTask (TCancel s) (touch (setStack i fs st)))
   | _ \<Rightarrow> st)"

definition rearmStep :: "nat \<Rightarrow> lp_frame \<Rightarrow> lp_frame list \<Rightarrow> cb_state \<Rightarrow> cb_state" where
  "rearmStep i f fs st = (case f of
     RearmWant \<Rightarrow> ifAlive i fs RearmPost [] st
   | RearmPost \<Rightarrow> postTask TRearm (touch (setStack i fs st))
   | _ \<Rightarrow> st)"

definition taskStep :: "nat \<Rightarrow> lp_frame \<Rightarrow> lp_frame list \<Rightarrow> cb_state \<Rightarrow> cb_state" where
  "taskStep i f fs st = (case f of
     TaskWant t \<Rightarrow> ifAlive i fs (TaskRun t) [] st
   | TaskRun t \<Rightarrow> touch (setStack i fs st)
   | _ \<Rightarrow> st)"

text \<open>A user function returns; a status report returns into the registry of the object.\<close>

definition returnStep :: "nat \<Rightarrow> lp_frame \<Rightarrow> lp_frame list \<Rightarrow> cb_state \<Rightarrow> cb_state" where
  "returnStep i f fs st = (if f = StUser then touch (setStack i fs st) else setStack i fs st)"

definition goStep :: "nat \<Rightarrow> cb_state \<Rightarrow> cb_state" where
  "goStep i st = (case stackOf i st of [] \<Rightarrow> st
     | f # fs \<Rightarrow> (case f of
         EvWant s \<Rightarrow> eventStep i f fs st | EvWait s \<Rightarrow> eventStep i f fs st | EvUser s \<Rightarrow> returnStep i f fs st
       | ResWant \<Rightarrow> resultStep i fs st | ResUser \<Rightarrow> returnStep i f fs st
       | StWant \<Rightarrow> statusStep i fs st | StUser \<Rightarrow> returnStep i f fs st
       | DestroyWant \<Rightarrow> destroyStep i f fs st | DestroyDelete \<Rightarrow> destroyStep i f fs st
       | UnsubWant s \<Rightarrow> unsubStep i f fs st | UnsubNext s \<Rightarrow> unsubStep i f fs st | UnsubPost s \<Rightarrow> unsubStep i f fs st
       | RearmWant \<Rightarrow> rearmStep i f fs st | RearmPost \<Rightarrow> rearmStep i f fs st
       | TaskWant t \<Rightarrow> taskStep i f fs st | TaskRun t \<Rightarrow> taskStep i f fs st
       | MarshalWait \<Rightarrow> st))"

subsection \<open>Actions\<close>

fun userFrame :: "lp_frame \<Rightarrow> bool" where
  "userFrame (EvUser s) = True"
| "userFrame ResUser = True"
| "userFrame StUser = True"
| "userFrame _ = False"

text \<open>
  Something new can start on an idle thread and in a user function, and status reports in a
  task; the owner thread takes tasks when idle or in a nested event loop of a user function.
  A client is not used after its destruction was begun, and each subscription is cancelled once.
\<close>

definition idle :: "lp_frame list \<Rightarrow> bool" where
  "idle fs = (case fs of [] \<Rightarrow> True | f # gs \<Rightarrow> userFrame f)"

fun taskFrame :: "lp_frame \<Rightarrow> bool" where
  "taskFrame (TaskRun t) = True"
| "taskFrame _ = False"

definition inTask :: "lp_frame list \<Rightarrow> bool" where
  "inTask fs = (case fs of [] \<Rightarrow> False | f # gs \<Rightarrow> taskFrame f)"

datatype lp_action =
  Deliver nat nat | Answered nat | Reported
| CallDestroy nat | CallUnsub nat nat | CallRearm nat | CallBlocking nat
| NextTask | Go nat

definition startFrame :: "nat \<Rightarrow> lp_frame \<Rightarrow> cb_state \<Rightarrow> cb_state" where
  "startFrame i f st = setStack i (f # stackOf i st) st"

definition runTask :: "cb_state \<Rightarrow> cb_state" where
  "runTask st = (case cb_tasks st of [] \<Rightarrow> st
     | t # ts \<Rightarrow> let st1 = st\<lparr>cb_tasks := ts\<rparr> in (case t of
         TDelete \<Rightarrow> deleteObject st1
       | TMarshal i \<Rightarrow> setStack i (releaseWaiter (stackOf i st1)) (touch st1)
       | _ \<Rightarrow> startFrame 0 (TaskWant t) st1))"

definition cbStep :: "lp_action \<Rightarrow> cb_state \<Rightarrow> cb_state" where
  "cbStep a st = (let n = length (cb_stacks st) in case a of
     Deliver i s \<Rightarrow> if i < n \<and> (idle (stackOf i st) \<or> inTask (stackOf i st)) then startFrame i (EvWant s) st else st
   | Answered i \<Rightarrow> if i < n \<and> idle (stackOf i st) then startFrame i ResWant st else st
   | Reported \<Rightarrow> if 0 < n \<and> cb_object st \<and> (idle (stackOf 0 st) \<or> inTask (stackOf 0 st)) then startFrame 0 StWant st else st
   | CallDestroy i \<Rightarrow> if i < n \<and> idle (stackOf i st) \<and> cb_phase st = NotDestroyed
       then (startFrame i DestroyWant st)\<lparr>cb_phase := Called i\<rparr> else st
   | CallUnsub i s \<Rightarrow> if i < n \<and> idle (stackOf i st) \<and> s \<notin> fst ` set (cb_unsubbed st)
       then (startFrame i (UnsubWant s) st)\<lparr>cb_unsubbed := (s, i) # cb_unsubbed st\<rparr> else st
   | CallRearm i \<Rightarrow> if i < n \<and> idle (stackOf i st) \<and> cb_phase st = NotDestroyed then startFrame i RearmWant st else st
   | CallBlocking i \<Rightarrow> if 0 < i \<and> i < n \<and> idle (stackOf i st) \<and> cb_phase st = NotDestroyed
       then postTask (TMarshal i) (touch (startFrame i MarshalWait st)) else st
   | NextTask \<Rightarrow> if 0 < n \<and> idle (stackOf 0 st) then runTask st else st
   | Go i \<Rightarrow> if i < n then goStep i st else st)"

definition cbRun :: "lp_action list \<Rightarrow> cb_state \<Rightarrow> cb_state" where
  "cbRun as st = fold cbStep as st"

subsection \<open>The invariant\<close>

definition destroyedBy :: "nat \<Rightarrow> cb_state \<Rightarrow> bool" where
  "destroyedBy i st = (cb_phase st \<in> {Cleared i, DeletePosted i, Gone i})"

definition mayHold :: "nat \<Rightarrow> cb_state \<Rightarrow> bool" where
  "mayHold i st = (cb_alive st \<or> destroyedBy i st)"

text \<open>What a frame on thread \<open>i\<close> tells of the rest of the state.\<close>

fun frameOk :: "cb_state \<Rightarrow> nat \<Rightarrow> lp_frame \<Rightarrow> bool" where
  "frameOk st i (EvWait s) = (s \<notin> set (cb_dead st))"
| "frameOk st i (EvUser s) = (mayHold i st \<and> (s \<in> set (cb_dead st) \<longrightarrow> (s, i) \<in> set (cb_unsubbed st)))"
| "frameOk st i ResUser = mayHold i st"
| "frameOk st i StWant = (i = 0)"
| "frameOk st i StUser = (mayHold i st \<and> i = 0)"
| "frameOk st i DestroyWant = (cb_phase st = Called i)"
| "frameOk st i DestroyDelete = (cb_phase st = Cleared i)"
| "frameOk st i (UnsubWant s) = ((s, i) \<in> set (cb_unsubbed st))"
| "frameOk st i (UnsubNext s) = ((s, i) \<in> set (cb_unsubbed st) \<and> s \<in> set (cb_dead st))"
| "frameOk st i (UnsubPost s) = ((s, i) \<in> set (cb_unsubbed st) \<and> s \<in> set (cb_dead st) \<and> cb_alive st)"
| "frameOk st i RearmPost = cb_alive st"
| "frameOk st i (TaskWant t) = (i = 0)"
| "frameOk st i (TaskRun t) = (mayHold i st \<and> i = 0)"
| "frameOk st i f = True"

definition threadOk :: "cb_state \<Rightarrow> nat \<Rightarrow> lp_frame list \<Rightarrow> bool" where
  "threadOk st i fs =
     ((\<forall>f \<in> set fs. frameOk st i f) \<and> (\<forall>f \<in> set (tl fs). userFrame f \<or> taskFrame f) \<and>
      (cb_phase st = Called i \<longrightarrow> fs \<noteq> [] \<and> hd fs = DestroyWant) \<and>
      (cb_phase st = Cleared i \<longrightarrow> fs \<noteq> [] \<and> hd fs = DestroyDelete))"

definition flagsOk :: "cb_state \<Rightarrow> bool" where
  "flagsOk st =
     ((cb_alive st \<longleftrightarrow> cb_phase st \<in> {NotDestroyed} \<union> range Called) \<and>
      (cb_object st \<longleftrightarrow> cb_phase st \<notin> range Gone) \<and>
      (\<forall>i. DestroyReturned i \<in> set (cb_trace st) \<longrightarrow> cb_phase st \<in> {DeletePosted i, Gone i}) \<and>
      cb_phase st \<noteq> DeletePosted 0 \<and>
      (TDelete \<in> set (cb_tasks st) \<longrightarrow> cb_phase st \<in> range DeletePosted) \<and>
      (cb_phase st \<in> range Gone \<longrightarrow> cb_tasks st = []) \<and>
      (\<forall>i s. UnsubReturned i s \<in> set (cb_trace st) \<longrightarrow> (s, i) \<in> set (cb_unsubbed st) \<and> s \<in> set (cb_dead st)) \<and>
      distinct (map fst (cb_unsubbed st)))"

definition cbInv :: "cb_state \<Rightarrow> bool" where
  "cbInv st = (flagsOk st \<and> (\<forall>i < length (cb_stacks st). threadOk st i (cb_stacks st ! i)))"

lemma cbInv_new: "cbInv (newCallbacks n)"
  by (auto simp: cbInv_def flagsOk_def threadOk_def newCallbacks_def)

lemma setStack_fields [simp]:
  "cb_alive (setStack i fs st) = cb_alive st" "cb_object (setStack i fs st) = cb_object st"
  "cb_dead (setStack i fs st) = cb_dead st" "cb_unsubbed (setStack i fs st) = cb_unsubbed st"
  "cb_phase (setStack i fs st) = cb_phase st" "cb_tasks (setStack i fs st) = cb_tasks st"
  "cb_trace (setStack i fs st) = cb_trace st" "cb_stacks (setStack i fs st) = (cb_stacks st)[i := fs]"
  by (simp_all add: setStack_def)

lemma happens_fields [simp]:
  "cb_alive (happens h st) = cb_alive st" "cb_object (happens h st) = cb_object st"
  "cb_dead (happens h st) = cb_dead st" "cb_unsubbed (happens h st) = cb_unsubbed st"
  "cb_phase (happens h st) = cb_phase st" "cb_tasks (happens h st) = cb_tasks st"
  "cb_trace (happens h st) = cb_trace st @ [h]" "cb_stacks (happens h st) = cb_stacks st"
  by (simp_all add: happens_def)

lemma touch_fields [simp]:
  "cb_alive (touch st) = cb_alive st" "cb_object (touch st) = cb_object st"
  "cb_dead (touch st) = cb_dead st" "cb_unsubbed (touch st) = cb_unsubbed st"
  "cb_phase (touch st) = cb_phase st" "cb_tasks (touch st) = cb_tasks st"
  "cb_trace (touch st) = cb_trace st @ [Touched (cb_object st)]" "cb_stacks (touch st) = cb_stacks st"
  by (simp_all add: touch_def)

lemma postTask_fields [simp]:
  "cb_alive (postTask t st) = cb_alive st" "cb_object (postTask t st) = cb_object st"
  "cb_dead (postTask t st) = cb_dead st" "cb_unsubbed (postTask t st) = cb_unsubbed st"
  "cb_phase (postTask t st) = cb_phase st" "cb_tasks (postTask t st) = cb_tasks st @ [t]"
  "cb_trace (postTask t st) = cb_trace st" "cb_stacks (postTask t st) = cb_stacks st"
  by (simp_all add: postTask_def)

text \<open>Frames are judged by the guards, the phase and the cancellations alone.\<close>

lemma frameOk_cong:
  assumes "cb_alive st' = cb_alive st" "cb_phase st' = cb_phase st" "cb_dead st' = cb_dead st"
    "cb_unsubbed st' = cb_unsubbed st"
  shows "frameOk st' i f = frameOk st i f"
  using assms by (cases f) (simp_all add: mayHold_def destroyedBy_def)

lemma threadOk_cong:
  assumes "cb_alive st' = cb_alive st" "cb_phase st' = cb_phase st" "cb_dead st' = cb_dead st"
    "cb_unsubbed st' = cb_unsubbed st"
  shows "threadOk st' i fs = threadOk st i fs"
  using frameOk_cong[OF assms] assms by (simp add: threadOk_def)

text \<open>One thread changes its stack, the flags stay.\<close>

lemma cbInv_stack:
  assumes "cbInv st" and "flagsOk st'" and "cb_stacks st' = (cb_stacks st)[i := fs]"
    and "cb_alive st' = cb_alive st" "cb_phase st' = cb_phase st" "cb_dead st' = cb_dead st"
    "cb_unsubbed st' = cb_unsubbed st" and "i < length (cb_stacks st)" "threadOk st i fs"
  shows "cbInv st'"
  using assms(1,2,8,9) threadOk_cong[OF assms(4-7)] by (auto simp: cbInv_def assms(3) nth_list_update)

lemma not_held: "\<not> heldElsewhere P i st \<Longrightarrow> j < length (cb_stacks st) \<Longrightarrow> j \<noteq> i \<Longrightarrow> f \<in> set (cb_stacks st ! j) \<Longrightarrow> \<not> P f"
  by (auto simp: heldElsewhere_def list_ex_iff)

lemma threadOk_pop: "threadOk st i (f # fs) \<Longrightarrow> f \<noteq> DestroyWant \<Longrightarrow> f \<noteq> DestroyDelete \<Longrightarrow> threadOk st i fs"
  by (cases fs) (auto simp: threadOk_def)

lemma threadOk_replace:
  "threadOk st i (f # fs) \<Longrightarrow> f \<noteq> DestroyWant \<Longrightarrow> f \<noteq> DestroyDelete \<Longrightarrow> frameOk st i g \<Longrightarrow> threadOk st i (g # fs)"
  by (auto simp: threadOk_def)

lemma threadOk_push:
  assumes "threadOk st i fs" and "idle fs \<or> inTask fs" and "frameOk st i g"
  shows "threadOk st i (g # fs)"
  using assms by (cases fs) (auto simp: threadOk_def idle_def inTask_def)

lemma flagsOk_stack [simp]: "flagsOk (setStack i fs st) = flagsOk st"
  by (simp add: flagsOk_def)

fun userHappening :: "lp_happening \<Rightarrow> bool" where
  "userHappening (UserEvent i s) = True"
| "userHappening (UserResult i) = True"
| "userHappening (UserStatus i) = True"
| "userHappening _ = False"

lemma flagsOk_happens: "flagsOk st \<Longrightarrow> userHappening h \<or> h = Touched b \<Longrightarrow> flagsOk (happens h st)"
  by (auto simp: flagsOk_def)

lemma flagsOk_touch: "flagsOk st \<Longrightarrow> flagsOk (touch st)"
  by (simp add: touch_def flagsOk_happens)

lemma flagsOk_post: "flagsOk st \<Longrightarrow> cb_object st \<Longrightarrow> t \<noteq> TDelete \<Longrightarrow> flagsOk (postTask t st)"
  by (auto simp: flagsOk_def)

lemma fold_happens_fields [simp]:
  "cb_alive (fold happens hs st) = cb_alive st" "cb_object (fold happens hs st) = cb_object st"
  "cb_dead (fold happens hs st) = cb_dead st" "cb_unsubbed (fold happens hs st) = cb_unsubbed st"
  "cb_phase (fold happens hs st) = cb_phase st" "cb_tasks (fold happens hs st) = cb_tasks st"
  "cb_trace (fold happens hs st) = cb_trace st @ hs" "cb_stacks (fold happens hs st) = cb_stacks st"
  by (induction hs arbitrary: st) simp_all

lemma flagsOk_user: "flagsOk st \<Longrightarrow> list_all userHappening hs \<Longrightarrow> flagsOk (fold happens hs st)"
  by (induction hs arbitrary: st) (auto simp: flagsOk_happens)

text \<open>Taking the client's guard.\<close>

lemma cbInv_ifAlive:
  assumes "cbInv st" and "i < length (cb_stacks st)" and "cb_stacks st ! i = w # fs"
    and "w \<noteq> DestroyWant" "w \<noteq> DestroyDelete" and "cb_alive st \<Longrightarrow> frameOk st i f" and "list_all userHappening hs"
  shows "cbInv (ifAlive i fs f hs st)"
proof -
  have ok: "threadOk st i (w # fs)" "flagsOk st" using assms(1-3) by (auto simp: cbInv_def)
  show ?thesis
    using assms ok
    by (auto simp: ifAlive_def intro!: cbInv_stack[of st] flagsOk_user threadOk_replace[OF ok(1)] threadOk_pop[OF ok(1)])
qed

lemma cbInv_pop:
  assumes "cbInv st" and "i < length (cb_stacks st)" and "cb_stacks st ! i = w # fs" and "w \<noteq> DestroyWant" "w \<noteq> DestroyDelete"
  shows "cbInv (setStack i fs st)" "cbInv (touch (setStack i fs st))"
proof -
  have ok: "threadOk st i (w # fs)" "flagsOk st" using assms(1-3) by (auto simp: cbInv_def)
  then show "cbInv (setStack i fs st)" "cbInv (touch (setStack i fs st))"
    using assms threadOk_pop[OF ok(1)] by (auto intro!: cbInv_stack[of st] flagsOk_touch)
qed

lemma cbInv_event:
  assumes "cbInv st" and "i < length (cb_stacks st)" and "cb_stacks st ! i = f # fs" and "f = EvWant s \<or> f = EvWait s"
  shows "cbInv (eventStep i f fs st)"
proof -
  have ok: "threadOk st i (f # fs)" "flagsOk st" using assms(1-3) by (auto simp: cbInv_def)
  from assms(4) show ?thesis
  proof
    assume f: "f = EvWant s"
    have "cbInv (setStack i fs st)" using cbInv_pop(1)[OF assms(1-3)] f by simp
    moreover have "s \<notin> set (cb_dead st) \<Longrightarrow> cbInv (setStack i (EvWait s # fs) st)"
      using assms(1-3) ok f by (auto intro!: cbInv_stack[of st] threadOk_replace[OF ok(1)])
    ultimately show ?thesis using assms(1) f by (simp add: eventStep_def)
  next
    assume f: "f = EvWait s"
    have "s \<notin> set (cb_dead st)" using ok(1) f by (simp add: threadOk_def)
    then show ?thesis
      using assms(1-3) f by (auto simp: eventStep_def mayHold_def intro!: cbInv_ifAlive)
  qed
qed

text \<open>Clearing the client's flag under its guard.\<close>

lemma cbInv_clear:
  assumes "cbInv st" and "i < length (cb_stacks st)" and "cb_stacks st ! i = DestroyWant # fs"
    and free: "\<not> heldElsewhere holdsClient i st"
  shows "cbInv ((setStack i (DestroyDelete # fs) st)\<lparr>cb_alive := False, cb_phase := Cleared i\<rparr>)" (is "cbInv ?st")
proof -
  have ok: "threadOk st i (DestroyWant # fs)" and fl: "flagsOk st" using assms(1-3) by (auto simp: cbInv_def)
  have ph: "cb_phase st = Called i" using ok by (simp add: threadOk_def)
  have flags: "flagsOk ?st" using fl ph by (auto simp: flagsOk_def)
  have own: "threadOk ?st i (DestroyDelete # fs)"
  proof -
    have "frameOk ?st i f" if "f \<in> set fs" for f
    proof -
      have "frameOk st i f" "userFrame f \<or> taskFrame f" using ok that by (auto simp: threadOk_def)
      then show ?thesis by (cases f) (simp_all add: mayHold_def destroyedBy_def)
    qed
    then show ?thesis using ok by (auto simp: threadOk_def)
  qed
  have other: "threadOk ?st j (cb_stacks st ! j)" if "j < length (cb_stacks st)" "j \<noteq> i" for j
  proof -
    have jok: "threadOk st j (cb_stacks st ! j)" using assms(1) that by (simp add: cbInv_def)
    have "frameOk ?st j f" if f: "f \<in> set (cb_stacks st ! j)" for f
    proof -
      have "frameOk st j f" "\<not> holdsClient f" using jok f not_held[OF free _ \<open>j \<noteq> i\<close> f] \<open>j < _\<close> by (auto simp: threadOk_def)
      then show ?thesis using ph \<open>j \<noteq> i\<close> by (cases f) auto
    qed
    then show ?thesis using jok ph \<open>j \<noteq> i\<close> by (auto simp: threadOk_def)
  qed
  show ?thesis using flags own other assms(2) by (auto simp: cbInv_def nth_list_update)
qed

lemma threadOk_release: "threadOk st i fs \<Longrightarrow> threadOk st i (releaseWaiter fs)"
  by (cases fs) (auto simp: releaseWaiter_def intro: threadOk_pop split: lp_frame.split)

text \<open>The deletion, by the owner itself or by its task.\<close>

lemma threadOk_later:
  assumes "\<forall>f \<in> set fs. frameOk st j f \<and> f \<noteq> DestroyDelete" and "\<forall>f \<in> set (tl fs). userFrame f \<or> taskFrame f"
    and "\<not> cb_alive st" "cb_phase st = Cleared d \<or> cb_phase st = DeletePosted d" "cb_phase st' = DeletePosted d \<or> cb_phase st' = Gone d"
    and "\<not> cb_alive st'" "cb_dead st' = cb_dead st" "cb_unsubbed st' = cb_unsubbed st"
  shows "threadOk st' j fs"
proof -
  have "frameOk st' j f" if f: "f \<in> set fs" for f
  proof -
    have "frameOk st j f" "f \<noteq> DestroyDelete" using assms(1) f by auto
    then show ?thesis using assms(3-8) by (cases f) (auto simp: mayHold_def destroyedBy_def)
  qed
  then show ?thesis using assms(2,5) by (auto simp: threadOk_def)
qed

lemma release_subset: "set (releaseWaiter fs) \<subseteq> set fs" "set (tl (releaseWaiter fs)) \<subseteq> set (tl fs)"
  by (cases fs; auto simp: releaseWaiter_def split: lp_frame.split; metis list.set_sel(2) tl_Nil)+

lemma cbInv_destroyed:
  assumes "cbInv st" and "i < length (cb_stacks st)" and "cb_stacks st ! i = DestroyDelete # fs"
  shows "cbInv (destroyStep i DestroyDelete fs st)"
proof -
  have ok: "threadOk st i (DestroyDelete # fs)" and fl: "flagsOk st" using assms by (auto simp: cbInv_def)
  have ph: "cb_phase st = Cleared i" using ok by (simp add: threadOk_def)
  have al: "\<not> cb_alive st" using fl ph by (auto simp: flagsOk_def)
  define S where "S = (cb_stacks st)[i := fs]"
  have body: "(\<forall>f \<in> set (S ! j). frameOk st j f \<and> f \<noteq> DestroyDelete) \<and> (\<forall>f \<in> set (tl (S ! j)). userFrame f \<or> taskFrame f)"
    if "j < length (cb_stacks st)" for j
  proof (cases "j = i")
    case True
    have "\<forall>f \<in> set fs. userFrame f \<or> taskFrame f" using ok by (simp add: threadOk_def)
    moreover have "\<forall>f \<in> set (tl fs). userFrame f \<or> taskFrame f" using calculation by (cases fs) auto
    ultimately show ?thesis using True ok assms(2) by (auto simp: S_def threadOk_def)
  next
    case False
    have "threadOk st j (cb_stacks st ! j)" using assms(1) that by (simp add: cbInv_def)
    then show ?thesis using False ph by (auto simp: S_def threadOk_def)
  qed
  have len: "length S = length (cb_stacks st)" by (simp add: S_def)
  show ?thesis
  proof (cases "i = 0")
    case True
    define st' where "st' = destroyStep i DestroyDelete fs st"
    have st': "cb_alive st' = cb_alive st" "cb_phase st' = Gone i" "cb_dead st' = cb_dead st" "cb_unsubbed st' = cb_unsubbed st"
      "cb_stacks st' = map releaseWaiter S" "cb_object st' = False" "cb_tasks st' = []"
      "cb_trace st' = cb_trace st @ [Touched (cb_object st), DestroyReturned i]"
      using True ph by (simp_all add: st'_def destroyStep_def deleteObject_def S_def)
    have "flagsOk st'" using fl ph al by (auto simp: flagsOk_def st')
    moreover have "threadOk st' j (releaseWaiter (S ! j))" if "j < length S" for j
      by (rule threadOk_later[of _ st j i]) (use body[of j] that release_subset[of "S ! j"] len ph al st' in auto)
    ultimately show ?thesis unfolding st'_def[symmetric] by (simp add: cbInv_def st')
  next
    case False
    define st' where "st' = destroyStep i DestroyDelete fs st"
    have st': "cb_alive st' = cb_alive st" "cb_phase st' = DeletePosted i" "cb_dead st' = cb_dead st" "cb_unsubbed st' = cb_unsubbed st"
      "cb_stacks st' = S" "cb_object st' = cb_object st" "cb_tasks st' = cb_tasks st @ [TDelete]"
      "cb_trace st' = cb_trace st @ [Touched (cb_object st), DestroyReturned i]"
      using False by (simp_all add: st'_def destroyStep_def S_def)
    have "flagsOk st'" using fl ph al False by (auto simp: flagsOk_def st')
    moreover have "threadOk st' j (S ! j)" if "j < length S" for j
      by (rule threadOk_later[of _ st j i]) (use body[of j] that len ph al st' in auto)
    ultimately show ?thesis unfolding st'_def[symmetric] by (simp add: cbInv_def st')
  qed
qed

lemma cbInv_delete:
  assumes "cbInv st" and "cb_tasks st = TDelete # ts"
  shows "cbInv (deleteObject (st\<lparr>cb_tasks := ts\<rparr>))"
proof -
  have fl: "flagsOk st" using assms(1) by (simp add: cbInv_def)
  then obtain d where ph: "cb_phase st = DeletePosted d" using assms(2) by (auto simp: flagsOk_def)
  have al: "\<not> cb_alive st" using fl ph by (auto simp: flagsOk_def)
  define st' where "st' = deleteObject (st\<lparr>cb_tasks := ts\<rparr>)"
  have st': "cb_alive st' = cb_alive st" "cb_phase st' = Gone d" "cb_dead st' = cb_dead st" "cb_unsubbed st' = cb_unsubbed st"
    "cb_stacks st' = map releaseWaiter (cb_stacks st)" "cb_object st' = False" "cb_tasks st' = []"
    "cb_trace st' = cb_trace st @ [Touched (cb_object st)]"
    using ph by (simp_all add: st'_def deleteObject_def)
  have "flagsOk st'" using fl ph al by (auto simp: flagsOk_def st')
  moreover have "threadOk st' j (releaseWaiter (cb_stacks st ! j))" if "j < length (cb_stacks st)" for j
  proof (rule threadOk_later[of _ st j d])
    have ok: "threadOk st j (cb_stacks st ! j)" using assms(1) that by (simp add: cbInv_def)
    then have "DestroyDelete \<notin> set (cb_stacks st ! j)" using ph by (auto simp: threadOk_def)
    with ok show "\<forall>f \<in> set (releaseWaiter (cb_stacks st ! j)). frameOk st j f \<and> f \<noteq> DestroyDelete"
      "\<forall>f \<in> set (tl (releaseWaiter (cb_stacks st ! j))). userFrame f \<or> taskFrame f"
      using release_subset[of "cb_stacks st ! j"] ph by (auto simp: threadOk_def)
  qed (use ph al st' in auto)
  ultimately show ?thesis unfolding st'_def[symmetric] by (simp add: cbInv_def st')
qed

lemma cbInv_destroy:
  assumes "cbInv st" and "i < length (cb_stacks st)" and "cb_stacks st ! i = f # fs" and "f = DestroyWant \<or> f = DestroyDelete"
  shows "cbInv (destroyStep i f fs st)"
  using assms cbInv_clear[of st i fs] cbInv_destroyed[of st i fs] by (auto simp: destroyStep_def)

lemma cbInv_return_step:
  assumes "cbInv st" and "i < length (cb_stacks st)" and "cb_stacks st ! i = f # fs" and "userFrame f"
  shows "cbInv (returnStep i f fs st)"
  using assms(4) cbInv_pop[OF assms(1-3)] by (cases f) (simp_all add: returnStep_def)

lemma cbInv_task:
  assumes "cbInv st" and "i < length (cb_stacks st)" and "cb_stacks st ! i = f # fs" and "f = TaskWant t \<or> f = TaskRun t"
  shows "cbInv (taskStep i f fs st)"
proof -
  have "frameOk st i f" using assms(1-3) by (auto simp: cbInv_def threadOk_def)
  with assms cbInv_pop(2)[of st i f fs] cbInv_ifAlive[of st i f fs "TaskRun t" "[]"] show ?thesis
    by (auto simp: taskStep_def mayHold_def)
qed

text \<open>Under its guard the client is alive, so the object exists.\<close>

lemma alive_object: "flagsOk st \<Longrightarrow> cb_alive st \<Longrightarrow> cb_object st"
  by (auto simp: flagsOk_def)

lemma cbInv_post:
  assumes "cbInv st" and "cb_object st" and "t \<noteq> TDelete"
  shows "cbInv (postTask t st)"
  using assms threadOk_cong[of "postTask t st" st] by (auto simp: cbInv_def flagsOk_post)

lemma cbInv_rearm:
  assumes "cbInv st" and "i < length (cb_stacks st)" and "cb_stacks st ! i = f # fs" and "f = RearmWant \<or> f = RearmPost"
  shows "cbInv (rearmStep i f fs st)"
proof -
  have "frameOk st i f" "flagsOk st" using assms(1-3) by (auto simp: cbInv_def threadOk_def)
  with assms cbInv_pop(2)[of st i f fs] cbInv_ifAlive[of st i f fs RearmPost "[]"] show ?thesis
    by (auto simp: rearmStep_def alive_object intro!: cbInv_post)
qed

lemma cbInv_unsub_clear:
  assumes "cbInv st" and "i < length (cb_stacks st)" and "cb_stacks st ! i = UnsubWant s # fs"
    and free: "\<not> heldElsewhere (holdsSub s) i st"
  shows "cbInv ((setStack i (UnsubNext s # fs) st)\<lparr>cb_dead := s # cb_dead st\<rparr>)" (is "cbInv ?st")
proof -
  have ok: "threadOk st i (UnsubWant s # fs)" and fl: "flagsOk st" using assms(1-3) by (auto simp: cbInv_def)
  have flags: "flagsOk ?st" using fl by (auto simp: flagsOk_def)
  have mine: "(s, i) \<in> set (cb_unsubbed st)" using ok by (simp add: threadOk_def)
  have own: "threadOk ?st i (UnsubNext s # fs)"
  proof -
    have "frameOk ?st i f" if "f \<in> set fs" for f
    proof -
      have "frameOk st i f" "userFrame f \<or> taskFrame f" using ok that by (auto simp: threadOk_def)
      then show ?thesis using mine by (cases f) (auto simp: mayHold_def destroyedBy_def)
    qed
    then show ?thesis using ok mine by (auto simp: threadOk_def)
  qed
  have other: "threadOk ?st j (cb_stacks st ! j)" if "j < length (cb_stacks st)" "j \<noteq> i" for j
  proof -
    have jok: "threadOk st j (cb_stacks st ! j)" using assms(1) that by (simp add: cbInv_def)
    have "frameOk ?st j f" if f: "f \<in> set (cb_stacks st ! j)" for f
    proof -
      have "frameOk st j f" "\<not> holdsSub s f" using jok f not_held[OF free _ \<open>j \<noteq> i\<close> f] \<open>j < _\<close> by (auto simp: threadOk_def)
      then show ?thesis by (cases f) (auto simp: mayHold_def destroyedBy_def)
    qed
    then show ?thesis using jok by (auto simp: threadOk_def)
  qed
  show ?thesis using flags own other assms(2) by (auto simp: cbInv_def nth_list_update)
qed

lemma cbInv_unsub_returned:
  assumes "cbInv st" and "(s, i) \<in> set (cb_unsubbed st)" "s \<in> set (cb_dead st)"
  shows "cbInv (happens (UnsubReturned i s) st)"
  using assms threadOk_cong[of "happens (UnsubReturned i s) st" st] by (auto simp: cbInv_def flagsOk_def)

lemma cbInv_unsub:
  assumes "cbInv st" and "i < length (cb_stacks st)" and "cb_stacks st ! i = f # fs"
    and "f = UnsubWant s \<or> f = UnsubNext s \<or> f = UnsubPost s"
  shows "cbInv (unsubStep i f fs st)"
proof -
  have ok: "threadOk st i (f # fs)" and fr: "frameOk st i f" and fl: "flagsOk st"
    using assms(1-3) by (auto simp: cbInv_def threadOk_def)
  from assms(4) consider "f = UnsubWant s" | "f = UnsubNext s" | "f = UnsubPost s" by blast
  then show ?thesis
  proof cases
    case 1
    then show ?thesis using cbInv_unsub_clear[of st i s fs] assms(1-3) by (simp add: unsubStep_def)
  next
    case 2
    have "cbInv (happens (UnsubReturned i s) (setStack i fs st))"
      using cbInv_pop(1)[OF assms(1-3)] 2 fr by (auto intro!: cbInv_unsub_returned)
    moreover have "cb_alive st \<Longrightarrow> cbInv (setStack i (UnsubPost s # fs) st)"
      using 2 fr fl assms(1,2) by (auto intro!: cbInv_stack[of st] threadOk_replace[OF ok])
    ultimately show ?thesis using 2 assms(1) by (simp add: unsubStep_def)
  next
    case 3
    then show ?thesis
      using cbInv_pop(2)[OF assms(1-3)] fr alive_object[OF fl]
      by (auto simp: unsubStep_def intro!: cbInv_unsub_returned cbInv_post)
  qed
qed

lemma cbInv_go:
  assumes "cbInv st" and "i < length (cb_stacks st)"
  shows "cbInv (goStep i st)"
proof (cases "cb_stacks st ! i")
  case Nil
  then show ?thesis using assms(1) by (simp add: goStep_def stackOf_def)
next
  case (Cons f fs)
  note top = assms Cons
  have fr: "frameOk st i f" using assms Cons by (auto simp: cbInv_def threadOk_def)
  have status: "cbInv (ifAlive i fs StUser [UserStatus i] st)" if "f = StWant"
    using cbInv_ifAlive[OF top, of StUser "[UserStatus i]"] fr that by (simp add: mayHold_def)
  show ?thesis
    using cbInv_event[OF top] cbInv_return_step[OF top] cbInv_destroy[OF top] cbInv_unsub[OF top] cbInv_rearm[OF top]
      cbInv_task[OF top] cbInv_ifAlive[OF top, of ResUser "[UserResult i]"] status assms(1)
    by (cases f) (simp_all add: goStep_def stackOf_def Cons resultStep_def statusStep_def mayHold_def)
qed

lemma cbInv_start:
  assumes "cbInv st" and "i < length (cb_stacks st)" and "idle (stackOf i st) \<or> inTask (stackOf i st)" and "frameOk st i f"
  shows "cbInv (startFrame i f st)"
proof -
  have "threadOk st i (cb_stacks st ! i)" "flagsOk st" using assms(1,2) by (auto simp: cbInv_def)
  with assms show ?thesis
    by (auto simp: startFrame_def stackOf_def intro!: cbInv_stack[of st] threadOk_push)
qed

lemma cbInv_tasks:
  assumes "cbInv st" and "cb_tasks st = t # ts"
  shows "cbInv (st\<lparr>cb_tasks := ts\<rparr>)"
  using assms threadOk_cong[of "st\<lparr>cb_tasks := ts\<rparr>" st] by (auto simp: cbInv_def flagsOk_def)

lemma cbInv_touch: "cbInv st \<Longrightarrow> cbInv (touch st)"
  using threadOk_cong[of "touch st" st] by (auto simp: cbInv_def flagsOk_touch)

lemma cbInv_runTask:
  assumes "cbInv st" and "0 < length (cb_stacks st)" and "idle (stackOf 0 st)"
  shows "cbInv (runTask st)"
proof (cases "cb_tasks st")
  case Nil
  then show ?thesis using assms(1) by (simp add: runTask_def)
next
  case (Cons t ts)
  let ?st = "st\<lparr>cb_tasks := ts\<rparr>"
  have c: "cbInv ?st" by (rule cbInv_tasks[OF assms(1) Cons])
  have run: "cbInv (startFrame 0 (TaskWant t') ?st)" for t'
    using assms c by (intro cbInv_start) (simp_all add: stackOf_def)
  have release: "cbInv (setStack i (releaseWaiter (stackOf i ?st)) (touch ?st))" for i
  proof (cases "i < length (cb_stacks st)")
    case True
    have ok: "threadOk ?st i (cb_stacks st ! i)" and fl: "flagsOk ?st" using c True by (simp_all add: cbInv_def)
    show ?thesis
      by (rule cbInv_stack[OF c, where i = i and fs = "releaseWaiter (cb_stacks st ! i)"])
         (use flagsOk_touch[OF fl] threadOk_release[OF ok] True in \<open>simp_all add: stackOf_def\<close>)
  next
    case False
    then have "setStack i fs (touch ?st) = touch ?st" for fs by (simp add: setStack_def list_update_beyond)
    then show ?thesis using cbInv_touch[OF c] by simp
  qed
  show ?thesis
  proof (cases t)
    case TDelete
    then show ?thesis using cbInv_delete[OF assms(1), of ts] Cons by (simp add: runTask_def)
  qed (use run release in \<open>simp_all add: runTask_def Cons Let_def\<close>)
qed

lemma cbInv_call_destroy:
  assumes "cbInv st" and "i < length (cb_stacks st)" and "idle (stackOf i st)" and "cb_phase st = NotDestroyed"
  shows "cbInv ((startFrame i DestroyWant st)\<lparr>cb_phase := Called i\<rparr>)" (is "cbInv ?st")
proof -
  have fl: "flagsOk st" using assms(1) by (simp add: cbInv_def)
  have frames: "frameOk ?st j f" if "frameOk st j f" for j f
    using that assms(4) by (cases f) (auto simp: mayHold_def destroyedBy_def startFrame_def)
  have "flagsOk ?st" using fl assms(4) by (auto simp: flagsOk_def startFrame_def)
  moreover have "threadOk ?st j (cb_stacks st ! j)" if "j < length (cb_stacks st)" "j \<noteq> i" for j
  proof -
    have "threadOk st j (cb_stacks st ! j)" using assms(1) that by (simp add: cbInv_def)
    then show ?thesis using frames that by (auto simp: threadOk_def startFrame_def)
  qed
  moreover have "threadOk ?st i (DestroyWant # cb_stacks st ! i)"
  proof -
    have "threadOk st i (cb_stacks st ! i)" using assms(1,2) by (simp add: cbInv_def)
    then show ?thesis
      using frames assms(3) by (cases "cb_stacks st ! i") (auto simp: threadOk_def startFrame_def stackOf_def idle_def)
  qed
  ultimately show ?thesis
    using assms(2) by (auto simp: cbInv_def startFrame_def stackOf_def nth_list_update)
qed

lemma cbInv_unsubbed:
  assumes "cbInv st" and "s \<notin> fst ` set (cb_unsubbed st)"
  shows "cbInv (st\<lparr>cb_unsubbed := (s, i) # cb_unsubbed st\<rparr>)" (is "cbInv ?st")
proof -
  have frames: "frameOk ?st j f" if "frameOk st j f" for j f
    using that by (cases f) (auto simp: mayHold_def destroyedBy_def)
  then have "threadOk ?st j fs" if "threadOk st j fs" for j fs using that by (auto simp: threadOk_def)
  moreover have "flagsOk ?st" using assms by (auto simp: cbInv_def flagsOk_def)
  ultimately show ?thesis using assms(1) by (simp add: cbInv_def)
qed

lemma cbInv_step: "cbInv st \<Longrightarrow> cbInv (cbStep a st)"
proof (cases a)
  case (CallUnsub i s)
  assume c: "cbInv st"
  let ?st = "st\<lparr>cb_unsubbed := (s, i) # cb_unsubbed st\<rparr>"
  have e: "(startFrame i (UnsubWant s) st)\<lparr>cb_unsubbed := (s, i) # cb_unsubbed st\<rparr> = startFrame i (UnsubWant s) ?st"
    by (simp add: startFrame_def setStack_def stackOf_def)
  have "cbInv (startFrame i (UnsubWant s) ?st)"
    if "i < length (cb_stacks st)" "idle (stackOf i st)" "s \<notin> fst ` set (cb_unsubbed st)"
    using cbInv_unsubbed[OF c that(3), of i] that by (intro cbInv_start) (simp_all add: stackOf_def)
  with c show ?thesis by (simp add: CallUnsub cbStep_def Let_def e)
next
  case (CallBlocking i)
  assume c: "cbInv st"
  then have "cb_phase st = NotDestroyed \<Longrightarrow> cb_object st" by (auto simp: cbInv_def flagsOk_def)
  with c show ?thesis
    by (auto simp: CallBlocking cbStep_def Let_def startFrame_def[symmetric] intro!: cbInv_post cbInv_touch cbInv_start)
      (simp add: startFrame_def)
qed (auto simp: cbStep_def Let_def intro: cbInv_start cbInv_runTask cbInv_go cbInv_call_destroy)

lemma cbInv_run: "cbInv st \<Longrightarrow> cbInv (cbRun as st)"
  unfolding cbRun_def by (induction as arbitrary: st) (simp_all add: cbInv_step)

subsection \<open>What a step adds\<close>

text \<open>The flags only go down, and a user function begins only while they are up.\<close>

definition winds :: "cb_state \<Rightarrow> cb_state \<Rightarrow> bool" where
  "winds st st' = ((cb_alive st' \<longrightarrow> cb_alive st) \<and> set (cb_dead st) \<subseteq> set (cb_dead st') \<and>
     length (cb_stacks st') = length (cb_stacks st) \<and>
     (\<exists>hs. cb_trace st' = cb_trace st @ hs \<and> (\<forall>h \<in> set hs. userHappening h \<longrightarrow> cb_alive st) \<and>
        (\<forall>i s. UserEvent i s \<in> set hs \<longrightarrow> s \<notin> set (cb_dead st))))"

lemma windsI:
  assumes "cb_trace st' = cb_trace st @ hs" and "\<And>h. h \<in> set hs \<Longrightarrow> userHappening h \<Longrightarrow> cb_alive st"
    and "\<And>i s. UserEvent i s \<in> set hs \<Longrightarrow> s \<notin> set (cb_dead st)" and "cb_alive st' \<Longrightarrow> cb_alive st"
    and "set (cb_dead st) \<subseteq> set (cb_dead st')" and "length (cb_stacks st') = length (cb_stacks st)"
  shows "winds st st'"
  using assms by (auto simp: winds_def)

lemma winds_refl [simp]: "winds st st"
  by (simp add: winds_def)

lemma winds_trans:
  assumes "winds a b" and "winds b c"
  shows "winds a c"
proof -
  obtain hs where h: "cb_trace b = cb_trace a @ hs" "\<forall>h \<in> set hs. userHappening h \<longrightarrow> cb_alive a"
    "\<forall>i s. UserEvent i s \<in> set hs \<longrightarrow> s \<notin> set (cb_dead a)" using assms(1) by (auto simp: winds_def)
  obtain ks where k: "cb_trace c = cb_trace b @ ks" "\<forall>h \<in> set ks. userHappening h \<longrightarrow> cb_alive b"
    "\<forall>i s. UserEvent i s \<in> set ks \<longrightarrow> s \<notin> set (cb_dead b)" using assms(2) by (auto simp: winds_def)
  show ?thesis
    by (rule windsI[where hs = "hs @ ks"]) (use h k assms in \<open>auto simp: winds_def\<close>)
qed

text \<open>Everything but the trampolines' last steps is silent to the user.\<close>

lemma winds_silent:
  assumes "cb_trace st' = cb_trace st @ hs" and "list_all (\<lambda>h. \<not> userHappening h) hs" and "cb_alive st' \<Longrightarrow> cb_alive st"
    and "set (cb_dead st) \<subseteq> set (cb_dead st')" and "length (cb_stacks st') = length (cb_stacks st)"
  shows "winds st st'"
  by (rule windsI[OF assms(1)]) (use assms in \<open>auto simp: list_all_iff\<close>)

lemma winds_ifAlive:
  assumes "\<And>j s. UserEvent j s \<in> set hs \<Longrightarrow> s \<notin> set (cb_dead st)"
  shows "winds st (ifAlive i fs f hs st)"
proof (cases "heldElsewhere holdsClient i st \<or> \<not> cb_alive st")
  case True
  then show ?thesis by (auto simp: ifAlive_def intro: winds_silent[where hs = "[]"])
next
  case False
  then show ?thesis using assms by (intro windsI[where hs = hs]) (auto simp: ifAlive_def)
qed

lemma deleteObject_fields [simp]:
  "cb_alive (deleteObject st) = cb_alive st" "cb_object (deleteObject st) = False" "cb_dead (deleteObject st) = cb_dead st"
  "cb_phase (deleteObject st) = Gone (phaseOf (cb_phase st))" "cb_tasks (deleteObject st) = []"
  "cb_trace (deleteObject st) = cb_trace st @ [Touched (cb_object st)]"
  "cb_stacks (deleteObject st) = map releaseWaiter (cb_stacks st)"
  by (simp_all add: deleteObject_def)

lemma winds_go:
  assumes "cbInv st" and "i < length (cb_stacks st)"
  shows "winds st (goStep i st)"
proof (cases "cb_stacks st ! i")
  case Nil
  then show ?thesis by (simp add: goStep_def stackOf_def)
next
  case (Cons f fs)
  have "frameOk st i f" using assms Cons by (auto simp: cbInv_def threadOk_def)
  then show ?thesis using Cons
    by (cases f)
       (auto simp: goStep_def stackOf_def eventStep_def resultStep_def statusStep_def returnStep_def destroyStep_def
          unsubStep_def rearmStep_def taskStep_def intro!: winds_ifAlive winds_silent)
qed

lemma winds_step:
  assumes "cbInv st"
  shows "winds st (cbStep a st)"
proof -
  have s: "winds st (startFrame i f st)" for i f by (rule winds_silent[where hs = "[]"]) (simp_all add: startFrame_def)
  have r: "winds st (runTask st)"
  proof (cases "cb_tasks st")
    case Nil
    then show ?thesis by (simp add: runTask_def)
  next
    case (Cons t ts)
    then show ?thesis
      by (cases t) (auto simp: runTask_def Let_def startFrame_def intro!: winds_silent)
  qed
  show ?thesis
  proof (cases a)
    case (Go i)
    then show ?thesis using winds_go[OF assms] by (simp add: cbStep_def)
  next
    case (CallBlocking i)
    then show ?thesis by (auto simp: cbStep_def Let_def startFrame_def intro!: winds_silent)
  next
    case (CallUnsub i s)
    then show ?thesis by (auto simp: cbStep_def Let_def startFrame_def intro!: winds_silent)
  next
    case (CallDestroy i)
    then show ?thesis by (auto simp: cbStep_def Let_def startFrame_def intro!: winds_silent)
  qed (use s r in \<open>simp_all add: cbStep_def Let_def\<close>)
qed

lemma winds_run: "cbInv st \<Longrightarrow> winds st (cbRun as st)"
  unfolding cbRun_def
proof (induction as arbitrary: st)
  case (Cons a as)
  then show ?case using winds_trans[OF winds_step[OF Cons.prems] Cons.IH[OF cbInv_step[OF Cons.prems]]] by simp
qed simp

lemma winds_quiet:
  assumes "winds st st'"
  shows "\<not> cb_alive st \<Longrightarrow> filter userHappening (cb_trace st') = filter userHappening (cb_trace st)"
    and "s \<in> set (cb_dead st) \<Longrightarrow>
      filter (\<lambda>h. h \<in> range (\<lambda>j. UserEvent j s)) (cb_trace st') = filter (\<lambda>h. h \<in> range (\<lambda>j. UserEvent j s)) (cb_trace st)"
  using assms by (auto simp: winds_def filter_empty_conv)

subsection \<open>The object is there when it is touched\<close>

text \<open>
  A status report and a task run inside the object, on its owner thread: destroying the client
  there deletes it under their feet.
\<close>

definition outside :: "lp_frame list \<Rightarrow> bool" where
  "outside fs = list_all (\<lambda>f. f \<noteq> StUser \<and> \<not> taskFrame f) fs"

fun politely :: "lp_action list \<Rightarrow> cb_state \<Rightarrow> bool" where
  "politely [] st = True"
| "politely (a # as) st = ((a = CallDestroy 0 \<longrightarrow> outside (stackOf 0 st)) \<and> politely as (cbStep a st))"

definition touchesOk :: "cb_state \<Rightarrow> bool" where
  "touchesOk st = (Touched False \<notin> set (cb_trace st) \<and> 0 < length (cb_stacks st) \<and>
     (cb_phase st \<in> {Called 0, Cleared 0} \<union> range Gone \<longrightarrow> outside (stackOf 0 st)))"

lemma outside_release: "outside fs \<Longrightarrow> outside (releaseWaiter fs)"
  using release_subset(1)[of fs] by (auto simp: outside_def list_all_iff)

lemma outside_simps [simp]: "outside []" "outside (f # fs) = (f \<noteq> StUser \<and> \<not> taskFrame f \<and> outside fs)"
  by (simp_all add: outside_def)

lemma touchesOk_ifAlive:
  assumes "touchesOk st" and "cbInv st" and "i < length (cb_stacks st)" and "cb_stacks st ! i = w # fs" and "w \<noteq> DestroyWant"
    and "Touched False \<notin> set hs"
  shows "touchesOk (ifAlive i fs f hs st)"
proof -
  have "cb_phase st \<noteq> Called i" using assms(2-5) by (auto simp: cbInv_def threadOk_def)
  moreover have "cb_alive st \<Longrightarrow> cb_phase st \<notin> {Cleared 0} \<union> range Gone" using assms(2) by (auto simp: cbInv_def flagsOk_def)
  ultimately show ?thesis
    using assms(1,3,4,6) by (auto simp: touchesOk_def ifAlive_def stackOf_def nth_list_update)
qed

lemma touchesOk_pop:
  assumes "touchesOk st" and "i < length (cb_stacks st)" and "cb_stacks st ! i = w # fs"
  shows "touchesOk (setStack i fs st)"
  using assms by (auto simp: touchesOk_def stackOf_def nth_list_update)

lemma touchesOk_touch: "touchesOk st \<Longrightarrow> cb_object st \<Longrightarrow> touchesOk (touch st)"
  by (simp add: touchesOk_def stackOf_def)

lemma touchesOk_happens: "touchesOk st \<Longrightarrow> h \<noteq> Touched False \<Longrightarrow> touchesOk (happens h st)"
  by (simp add: touchesOk_def stackOf_def)

lemma touchesOk_post: "touchesOk (postTask t st) = touchesOk st"
  by (simp add: touchesOk_def stackOf_def)

text \<open>Inside a status report or a task the object exists.\<close>

lemma inside_object:
  assumes "touchesOk st" and "cbInv st" and "i < length (cb_stacks st)" and "cb_stacks st ! i = f # fs" and "f = StUser \<or> taskFrame f"
  shows "cb_object st"
proof -
  have "frameOk st i f" using assms(2-4) by (auto simp: cbInv_def threadOk_def)
  with assms(5) have "i = 0" by (cases f) auto
  with assms(1,4,5) have "cb_phase st \<notin> range Gone" by (auto simp: touchesOk_def stackOf_def)
  then show ?thesis using assms(2) by (auto simp: cbInv_def flagsOk_def)
qed

lemma touchesOk_go:
  assumes "touchesOk st" and "cbInv st" and "i < length (cb_stacks st)"
  shows "touchesOk (goStep i st)"
proof (cases "cb_stacks st ! i")
  case Nil
  then show ?thesis using assms(1) by (simp add: goStep_def stackOf_def)
next
  case (Cons f fs)
  have fl: "flagsOk st" and fr: "frameOk st i f" using assms Cons by (auto simp: cbInv_def threadOk_def)
  note pop = touchesOk_pop[OF assms(1,3) Cons]
  note alive = touchesOk_ifAlive[OF assms(1,2,3) Cons]
  note inside = inside_object[OF assms Cons]
  have push: "touchesOk (setStack i (g # fs) st)" if "g \<noteq> StUser" "\<not> taskFrame g" for g
    using assms(1,3) Cons that by (auto simp: touchesOk_def stackOf_def nth_list_update)
  show ?thesis
  proof (cases f)
    case DestroyWant
    then show ?thesis
      using assms(1,3) Cons fr
      by (auto simp: goStep_def stackOf_def destroyStep_def touchesOk_def nth_list_update)
  next
    case DestroyDelete
    have ph: "cb_phase st = Cleared i" using fr DestroyDelete by simp
    then have ob: "cb_object st" using fl by (auto simp: flagsOk_def)
    show ?thesis
      using assms(1,3) Cons ph ob DestroyDelete
      by (auto simp: goStep_def stackOf_def destroyStep_def touchesOk_def nth_list_update intro: outside_release)
  next
    case (UnsubWant s)
    then show ?thesis
      using push[of "UnsubNext s"] assms(1) Cons
      by (auto simp: goStep_def stackOf_def unsubStep_def touchesOk_def)
  next
    case (UnsubNext s)
    then show ?thesis
      using push[of "UnsubPost s"] pop assms(1) Cons
      by (auto simp: goStep_def stackOf_def unsubStep_def intro: touchesOk_happens)
  next
    case (UnsubPost s)
    then show ?thesis
      using pop alive_object[OF fl] fr Cons
      by (auto simp: goStep_def stackOf_def unsubStep_def touchesOk_post intro!: touchesOk_happens touchesOk_touch)
  next
    case RearmPost
    then show ?thesis
      using pop alive_object[OF fl] fr Cons
      by (auto simp: goStep_def stackOf_def rearmStep_def touchesOk_post intro!: touchesOk_touch)
  next
    case (EvWant s)
    then show ?thesis using push[of "EvWait s"] pop assms(1) Cons by (simp add: goStep_def stackOf_def eventStep_def)
  qed (use Cons assms(1) alive pop inside touchesOk_touch[OF pop] in
      \<open>simp_all add: goStep_def stackOf_def eventStep_def resultStep_def statusStep_def returnStep_def rearmStep_def taskStep_def\<close>)
qed

lemma touchesOk_start:
  assumes "touchesOk st" and "f \<noteq> StUser" "\<not> taskFrame f"
  shows "touchesOk (startFrame i f st)"
  using assms by (cases "i = 0") (auto simp: touchesOk_def startFrame_def stackOf_def)

lemma touchesOk_runTask:
  assumes "touchesOk st" and "cbInv st"
  shows "touchesOk (runTask st)"
proof (cases "cb_tasks st")
  case Nil
  then show ?thesis using assms(1) by (simp add: runTask_def)
next
  case (Cons t ts)
  have fl: "flagsOk st" and zero: "threadOk st 0 (cb_stacks st ! 0)" using assms by (auto simp: cbInv_def touchesOk_def)
  have ob: "cb_object st" using fl Cons by (auto simp: flagsOk_def)
  have t: "touchesOk (st\<lparr>cb_tasks := ts\<rparr>)" using assms(1) by (simp add: touchesOk_def stackOf_def)
  have "touchesOk (deleteObject (st\<lparr>cb_tasks := ts\<rparr>))" if td: "t = TDelete"
  proof -
    obtain d where d: "cb_phase st = DeletePosted d" "d \<noteq> 0" using fl Cons td by (auto simp: flagsOk_def)
    then have "\<not> mayHold 0 st" using fl by (auto simp: mayHold_def destroyedBy_def flagsOk_def)
    have "f \<noteq> StUser \<and> \<not> taskFrame f" if f: "f \<in> set (cb_stacks st ! 0)" for f
    proof -
      have "frameOk st 0 f" using zero f by (simp add: threadOk_def)
      with \<open>\<not> mayHold 0 st\<close> show ?thesis by (cases f) simp_all
    qed
    then have "outside (cb_stacks st ! 0)" by (simp add: outside_def list_all_iff)
    then have "outside (releaseWaiter (cb_stacks st ! 0))" by (rule outside_release)
    then show ?thesis using assms(1) ob by (simp add: touchesOk_def stackOf_def)
  qed
  moreover have "touchesOk (setStack i (releaseWaiter (stackOf i st)) (touch (st\<lparr>cb_tasks := ts\<rparr>)))" for i
    using assms(1) ob outside_release by (cases "i = 0") (auto simp: touchesOk_def stackOf_def)
  ultimately show ?thesis
    using touchesOk_start[OF t] by (cases t) (simp_all add: runTask_def Cons Let_def stackOf_def)
qed

lemma touchesOk_step:
  assumes "touchesOk st" and "cbInv st" and "a = CallDestroy 0 \<Longrightarrow> outside (stackOf 0 st)"
  shows "touchesOk (cbStep a st)"
proof (cases a)
  case (CallDestroy i)
  have "touchesOk ((startFrame i DestroyWant st)\<lparr>cb_phase := Called i\<rparr>)"
    using assms(1,3) CallDestroy by (cases "i = 0") (auto simp: touchesOk_def startFrame_def stackOf_def)
  then show ?thesis using assms(1) by (simp add: CallDestroy cbStep_def Let_def)
next
  case (CallUnsub i s)
  have "touchesOk ((startFrame i (UnsubWant s) st)\<lparr>cb_unsubbed := u\<rparr>)" for u
    using touchesOk_start[OF assms(1), of "UnsubWant s" i] by (simp add: touchesOk_def stackOf_def)
  then show ?thesis using assms(1) by (simp add: CallUnsub cbStep_def Let_def)
next
  case (CallBlocking i)
  have "cb_phase st = NotDestroyed \<Longrightarrow> cb_object (startFrame i MarshalWait st)"
    using assms(2) by (auto simp: cbInv_def flagsOk_def startFrame_def)
  then show ?thesis
    using touchesOk_touch[OF touchesOk_start[OF assms(1), of MarshalWait i]] assms(1)
    by (auto simp: CallBlocking cbStep_def Let_def touchesOk_post)
qed (use assms(1) touchesOk_start[OF assms(1)] touchesOk_go[OF assms(1,2)] touchesOk_runTask[OF assms(1,2)] in
    \<open>simp_all add: cbStep_def Let_def\<close>)

lemma touchesOk_run: "touchesOk st \<Longrightarrow> cbInv st \<Longrightarrow> politely as st \<Longrightarrow> touchesOk (cbRun as st)"
  unfolding cbRun_def by (induction as arbitrary: st) (simp_all add: touchesOk_step cbInv_step)

lemma run_append: "cbRun (as @ bs) st = cbRun bs (cbRun as st)"
  by (simp add: cbRun_def)


text \<open>An event is delivered on thread 1 while the client is destroyed there; the deletion follows on its owner.\<close>

definition destroy_in_event :: "lp_action list" where
  "destroy_in_event = [Deliver 1 5, Go 1, Go 1, CallDestroy 1, Go 1, Go 1]"

definition events_after :: "lp_action list" where
  "events_after = [Go 1, Deliver 0 6, Go 0, Go 0, NextTask, Answered 1, Go 1]"


subsection \<open>Waiting for each other\<close>

fun wantsClient :: "lp_frame \<Rightarrow> bool" where
  "wantsClient (EvWait s) = True"
| "wantsClient ResWant = True"
| "wantsClient StWant = True"
| "wantsClient DestroyWant = True"
| "wantsClient (UnsubNext s) = True"
| "wantsClient RearmWant = True"
| "wantsClient (TaskWant t) = True"
| "wantsClient _ = False"

lemma heldI: "j < length (cb_stacks st) \<Longrightarrow> j \<noteq> i \<Longrightarrow> list_ex P (stackOf j st) \<Longrightarrow> heldElsewhere P i st"
  by (auto simp: heldElsewhere_def list_ex_iff stackOf_def)

lemma blocked_client: "stackOf i st = w # fs \<Longrightarrow> wantsClient w \<Longrightarrow> heldElsewhere holdsClient i st \<Longrightarrow> goStep i st = st"
  by (cases w) (auto simp: goStep_def eventStep_def resultStep_def statusStep_def destroyStep_def unsubStep_def
      rearmStep_def taskStep_def ifAlive_def)

lemma blocked_sub: "stackOf i st = UnsubWant s # fs \<Longrightarrow> heldElsewhere (holdsSub s) i st \<Longrightarrow> goStep i st = st"
  by (simp add: goStep_def unsubStep_def)

text \<open>A thread at a lock or in a marshal only moves by itself, or by the owner thread.\<close>

lemma go_other:
  assumes "k \<noteq> i"
  shows "cb_stacks (goStep i st) ! k = cb_stacks st ! k \<or>
    k < length (cb_stacks st) \<and> i = 0 \<and> cb_stacks (goStep i st) ! k = releaseWaiter (cb_stacks st ! k) \<or>
    length (cb_stacks st) \<le> k"
proof (cases "stackOf i st")
  case Nil
  then show ?thesis by (simp add: goStep_def)
next
  case (Cons f fs)
  then show ?thesis using assms
    by (cases f)
       (auto simp: goStep_def eventStep_def resultStep_def statusStep_def destroyStep_def unsubStep_def rearmStep_def
          taskStep_def returnStep_def ifAlive_def not_le)
qed

definition standsAt :: "lp_frame \<Rightarrow> bool" where
  "standsAt f = (\<not> userFrame f \<and> \<not> taskFrame f)"

lemma stackOf_fields [simp]:
  "stackOf k (st\<lparr>cb_phase := p\<rparr>) = stackOf k st" "stackOf k (st\<lparr>cb_unsubbed := u\<rparr>) = stackOf k st"
  "stackOf k (st\<lparr>cb_tasks := ts\<rparr>) = stackOf k st" "stackOf k (postTask t st) = stackOf k st"
  "stackOf k (touch st) = stackOf k st"
  by (simp_all add: stackOf_def)

lemma step_other:
  assumes "stackOf k st = w # fs" and "standsAt w" and "k < length (cb_stacks st)" and "a \<noteq> Go k"
    and "w = MarshalWait \<Longrightarrow> 0 < k \<and> a \<noteq> Go 0 \<and> \<not> idle (stackOf 0 st)"
  shows "stackOf k (cbStep a st) = stackOf k st"
proof -
  have closed: "\<not> idle (stackOf k st)" "\<not> inTask (stackOf k st)" using assms(1,2) by (auto simp: idle_def inTask_def standsAt_def)
  have start: "stackOf k (startFrame i f st) = stackOf k st" if "idle (stackOf i st) \<or> inTask (stackOf i st)" for i f
    using that closed by (cases "i = k") (auto simp: stackOf_def startFrame_def)
  have release: "releaseWaiter (stackOf k st) = stackOf k st" if "w \<noteq> MarshalWait"
    using that assms(1) by (cases w) (simp_all add: releaseWaiter_def)
  have task: "stackOf k (runTask st) = stackOf k st" if "idle (stackOf 0 st)"
  proof -
    have k: "k \<noteq> 0" "w \<noteq> MarshalWait" using that closed(1) assms(5) by metis+
    show ?thesis
      using release[OF k(2)] k(1) assms(3)
      by (auto simp: runTask_def Let_def startFrame_def stackOf_def nth_list_update split: list.split lp_task.split)
        (metis nth_list_update_eq nth_list_update_neq)
  qed
  show ?thesis
  proof (cases a)
    case (Go i)
    then show ?thesis
      using go_other[of k i st] assms release by (cases "w = MarshalWait") (auto simp: cbStep_def stackOf_def)
  qed (use start task in \<open>simp_all add: cbStep_def Let_def\<close>)
qed

text \<open>The two ways in which two threads wait for each other.\<close>

definition crossedGuards :: "nat \<Rightarrow> nat \<Rightarrow> nat \<Rightarrow> cb_state \<Rightarrow> bool" where
  "crossedGuards a b s st = (\<exists>fs gs. stackOf a st = EvWait s # fs \<and> stackOf b st = UnsubWant s # gs \<and> list_ex holdsClient gs)"

definition crossedMarshal :: "nat \<Rightarrow> cb_state \<Rightarrow> bool" where
  "crossedMarshal a st = (\<exists>w fs gs. stackOf 0 st = w # gs \<and> wantsClient w \<and> stackOf a st = MarshalWait # fs \<and> list_ex holdsClient fs)"

lemma crossed_guards_step:
  assumes "crossedGuards a b s st" and "a \<noteq> b" "a < length (cb_stacks st)" "b < length (cb_stacks st)"
  shows "stackOf a (cbStep x st) = stackOf a st \<and> stackOf b (cbStep x st) = stackOf b st"
proof -
  obtain fs gs where st: "stackOf a st = EvWait s # fs" "stackOf b st = UnsubWant s # gs" "list_ex holdsClient gs"
    using assms(1) by (auto simp: crossedGuards_def)
  have "goStep a st = st" by (rule blocked_client[OF st(1)]) (use st assms(2,4) in \<open>auto intro!: heldI[of b]\<close>)
  moreover have "goStep b st = st" by (rule blocked_sub[OF st(2)]) (use st assms(2,3) in \<open>auto intro!: heldI[of a]\<close>)
  ultimately have go: "cbStep (Go a) st = st" "cbStep (Go b) st = st" by (simp_all add: cbStep_def)
  have "stackOf a (cbStep x st) = stackOf a st"
    using go(1) step_other[OF st(1) _ assms(3), of x] by (cases "x = Go a") (auto simp: standsAt_def)
  moreover have "stackOf b (cbStep x st) = stackOf b st"
    using go(2) step_other[OF st(2) _ assms(4), of x] by (cases "x = Go b") (auto simp: standsAt_def)
  ultimately show ?thesis by simp
qed

lemma crossed_marshal_step:
  assumes "crossedMarshal a st" and "0 < a" "a < length (cb_stacks st)"
  shows "stackOf a (cbStep x st) = stackOf a st \<and> stackOf 0 (cbStep x st) = stackOf 0 st"
proof -
  obtain w fs gs where st: "stackOf 0 st = w # gs" "wantsClient w" "stackOf a st = MarshalWait # fs" "list_ex holdsClient fs"
    using assms(1) by (auto simp: crossedMarshal_def)
  have w: "standsAt w" "w \<noteq> MarshalWait" "\<not> idle (stackOf 0 st)" using st(1,2) by (cases w; simp add: standsAt_def idle_def)+
  have len: "0 < length (cb_stacks st)" using assms(2,3) by linarith
  have "goStep 0 st = st" by (rule blocked_client[OF st(1,2)]) (use st assms(2,3) in \<open>auto intro!: heldI[of a]\<close>)
  then have go: "cbStep (Go 0) st = st" by (simp add: cbStep_def)
  have ga: "cbStep (Go a) st = st" using st(3) by (simp add: cbStep_def goStep_def)
  have "stackOf 0 (cbStep x st) = stackOf 0 st"
    using go step_other[OF st(1) w(1) len, of x] w(2) by (cases "x = Go 0") auto
  moreover have "stackOf a (cbStep x st) = stackOf a st"
    using go ga step_other[OF st(3) _ assms(3), of x] w(3) assms(2) by (cases "x = Go a \<or> x = Go 0") (auto simp: standsAt_def)
  ultimately show ?thesis by simp
qed

lemma step_length: "length (cb_stacks (cbStep x st)) = length (cb_stacks st)"
proof -
  have go: "length (cb_stacks (goStep i st)) = length (cb_stacks st)" for i
    by (auto simp: goStep_def eventStep_def resultStep_def statusStep_def destroyStep_def unsubStep_def rearmStep_def
        taskStep_def returnStep_def ifAlive_def split: list.split lp_frame.split)
  have task: "length (cb_stacks (runTask st)) = length (cb_stacks st)"
    by (auto simp: runTask_def Let_def startFrame_def split: list.split lp_task.split)
  show ?thesis using go task by (cases x) (simp_all add: cbStep_def Let_def startFrame_def)
qed

text \<open>
  C40: two deadlocks. When an event of a subscription is being delivered on one thread, past the
  subscription's guard, while another thread cancels that subscription from inside a callback of
  the same client, neither thread ever moves again, whatever happens elsewhere. Nor do they when
  a callback makes a blocking call of the client from a thread that does not own it while the
  owner thread waits for the client's guard to deliver something. Both arise from two callbacks
  that overlap.
\<close>

theorem overlapping_callbacks_can_deadlock:
  assumes "a \<noteq> b" "a < length (cb_stacks st)" "b < length (cb_stacks st)"
    and "crossedGuards a b s st \<or> 0 < a \<and> b = 0 \<and> crossedMarshal a st"
  shows "stackOf a (cbRun as st) = stackOf a st \<and> stackOf b (cbRun as st) = stackOf b st \<and>
    cbRun [Deliver 1 s, Go 1, Answered 0, Go 0, CallUnsub 0 s] (newCallbacks 2) \<in> Collect (crossedGuards 1 0 s) \<and>
    cbRun [Deliver 1 s, Go 1, Go 1, Reported, CallBlocking 1] (newCallbacks 2) \<in> Collect (crossedMarshal 1)"
proof -
  have "stackOf a (cbRun as st) = stackOf a st \<and> stackOf b (cbRun as st) = stackOf b st"
    using assms
  proof (induction as arbitrary: st)
    case Nil
    then show ?case by (simp add: cbRun_def)
  next
    case (Cons x as)
    have same: "stackOf a (cbStep x st) = stackOf a st \<and> stackOf b (cbStep x st) = stackOf b st"
      using Cons.prems crossed_guards_step[of a b s st x] crossed_marshal_step[of a st x] by blast
    have "crossedGuards a b s (cbStep x st) \<or> 0 < a \<and> b = 0 \<and> crossedMarshal a (cbStep x st)"
      using Cons.prems(4) same by (auto simp: crossedGuards_def crossedMarshal_def)
    then have "stackOf a (cbRun as (cbStep x st)) = stackOf a (cbStep x st) \<and> stackOf b (cbRun as (cbStep x st)) = stackOf b (cbStep x st)"
      using Cons.prems step_length by (intro Cons.IH) simp_all
    with same show ?case by (simp add: cbRun_def)
  qed
  then show ?thesis
    by (simp add: cbRun_def cbStep_def newCallbacks_def startFrame_def stackOf_def setStack_def goStep_def eventStep_def
        resultStep_def ifAlive_def heldElsewhere_def idle_def happens_def touch_def postTask_def crossedGuards_def
        crossedMarshal_def numeral_2_eq_2)
qed

theorem overlapping_callbacks_can_deadlock_witness:
  "stackOf 1 (cbRun [Go 0, Go 1, NextTask, Go 1, Go 0] (cbRun [Deliver 1 5, Go 1, Answered 0, Go 0, CallUnsub 0 5] (newCallbacks 2))) = [EvWait 5]"
proof -
  let ?st = "cbRun [Deliver 1 5, Go 1, Answered 0, Go 0, CallUnsub 0 5] (newCallbacks 2)"
  have s: "stackOf 1 ?st = [EvWait 5]" "stackOf 0 ?st = [UnsubWant 5, ResUser]" "length (cb_stacks ?st) = 2" by code_simp+
  then have c: "crossedGuards 1 0 5 ?st" by (simp add: crossedGuards_def)
  have "stackOf 1 (cbRun [Go 0, Go 1, NextTask, Go 1, Go 0] ?st) = stackOf 1 ?st"
    by (rule overlapping_callbacks_can_deadlock[where b = 0 and s = 5, THEN conjunct1]) (use c s in simp_all)
  with s show ?thesis by simp
qed

end
