(* ===== verification/Wasm_Tokens.thy ===== *)
theory Wasm_Tokens
  imports C_Abi
begin

text \<open>
  The token half of the C interface as a WebAssembly image has it: the store
  (implementations/wasm/wasm_token_store.cpp) and the functions over it (wasm_lp_abi.cpp). A
  second implementation, said to keep the return codes and refusals of logos_protocol.cpp; the
  two are run side by side here. A \<open>std::map\<close> is a list sorted by its keys.
\<close>

subsection \<open>The store\<close>

record wasm_store =
  w_outbound :: "(qstring \<times> qstring) list"
  w_inbound :: "(qstring \<times> qstring) list"

definition newWasmStore :: wasm_store where
  "newWasmStore = \<lparr>w_outbound = [], w_inbound = []\<rparr>"

definition kNamespaceChar :: char where
  "kNamespaceChar = CHR 0x01"

definition wasmIsReservedKey :: "qstring \<Rightarrow> bool" where
  "wasmIsReservedKey k = (kNamespaceChar \<in> set k)"

definition saveOutbound :: "qstring \<Rightarrow> qstring \<Rightarrow> wasm_store \<Rightarrow> bool \<times> wasm_store" where
  "saveOutbound moduleName token w =
     (if moduleName = [] \<or> wasmIsReservedKey moduleName then (False, w)
      else (True, w\<lparr>w_outbound := object_put moduleName token (w_outbound w)\<rparr>))"

definition outbound :: "wasm_store \<Rightarrow> qstring \<Rightarrow> qstring" where
  "outbound w moduleName = (case map_of (w_outbound w) moduleName of None \<Rightarrow> [] | Some t \<Rightarrow> t)"

definition outboundKeys :: "wasm_store \<Rightarrow> qstring list" where
  "outboundKeys w = map fst (w_outbound w)"

definition saveInbound :: "qstring \<Rightarrow> qstring \<Rightarrow> wasm_store \<Rightarrow> bool \<times> wasm_store" where
  "saveInbound caller token w =
     (if caller = [] \<or> token = [] \<or> wasmIsReservedKey caller then (False, w)
      else (True, w\<lparr>w_inbound := object_put caller token (w_inbound w)\<rparr>))"

definition inboundMatches :: "wasm_store \<Rightarrow> qstring \<Rightarrow> qstring \<Rightarrow> bool" where
  "inboundMatches w caller token =
     (if caller = [] \<or> token = [] then False else map_of (w_inbound w) caller = Some token)"

definition clearWasmStore :: "wasm_store \<Rightarrow> wasm_store" where
  "clearWasmStore w = w\<lparr>w_outbound := [], w_inbound := []\<rparr>"

subsection \<open>The functions of the interface\<close>

record wasm_image =
  wstore :: wasm_store
  wGranted :: "32 word"

definition newWasmImage :: wasm_image where
  "newWasmImage = \<lparr>wstore = newWasmStore, wGranted = 0\<rparr>"

definition wasmHostServiceGranted :: "32 word \<Rightarrow> wasm_image \<Rightarrow> bool" where
  "wasmHostServiceGranted service im = (Bit_Operations.and (wGranted im) service \<noteq> 0)"

definition wasmHostServiceBit :: "qstring \<Rightarrow> 32 word option" where
  "wasmHostServiceBit n = (if n = ''token_registry'' then Some (push_bit 0 1)
     else if n = ''token_delivery'' then Some (push_bit 1 1) else None)"

fun wasmGrantedBits :: "'d json list \<Rightarrow> 32 word \<Rightarrow> 32 word option" where
  "wasmGrantedBits [] granted = Some granted"
| "wasmGrantedBits (entry # es) granted = (case entry of
       Str n \<Rightarrow> (case wasmHostServiceBit n of None \<Rightarrow> None | Some b \<Rightarrow> wasmGrantedBits es (Bit_Operations.or granted b))
     | _ \<Rightarrow> None)"

definition wasm_grant_host_services ::
  "(qstring \<Rightarrow> 'd json option) \<Rightarrow> cstring \<Rightarrow> wasm_image \<Rightarrow> lp_code \<times> wasm_image" where
  "wasm_grant_host_services parse services im =
     (if absent services then (LP_OK, im\<lparr>wGranted := 0\<rparr>)
      else case parse (the services) of
        Some (Array es) \<Rightarrow> (case wasmGrantedBits es 0 of
            None \<Rightarrow> (LP_ERR_INVALID_ARG, im)
          | Some bits \<Rightarrow> (LP_OK, im\<lparr>wGranted := bits\<rparr>))
      | _ \<Rightarrow> (LP_ERR_INVALID_ARG, im))"

definition wasm_token_get :: "cstring \<Rightarrow> wasm_image \<Rightarrow> cstring" where
  "wasm_token_get n im = (case n of None \<Rightarrow> None
     | Some m \<Rightarrow> let t = outbound (wstore im) m in if t = [] then None else Some t)"

definition wasm_token_save :: "cstring \<Rightarrow> cstring \<Rightarrow> wasm_image \<Rightarrow> lp_code \<times> wasm_image" where
  "wasm_token_save n t im = (case (n, t) of
       (Some m, Some tok) \<Rightarrow> (case saveOutbound m tok (wstore im) of
           (ok, w) \<Rightarrow> (if ok then LP_OK else LP_ERR_INVALID_ARG, im\<lparr>wstore := w\<rparr>))
     | _ \<Rightarrow> (LP_ERR_INVALID_ARG, im))"

definition wasm_token_save_inbound :: "cstring \<Rightarrow> cstring \<Rightarrow> wasm_image \<Rightarrow> lp_code \<times> wasm_image" where
  "wasm_token_save_inbound c t im = (case (c, t) of
       (Some caller, Some tok) \<Rightarrow> (case saveInbound caller tok (wstore im) of
           (False, _) \<Rightarrow> (LP_ERR_INVALID_ARG, im)
         | (True, w) \<Rightarrow>
             let im1 = im\<lparr>wstore := w\<rparr>
             in (LP_OK, if wasmHostServiceGranted ServiceTokenRegistry im1
                        then im1\<lparr>wstore := snd (saveOutbound caller tok w)\<rparr> else im1))
     | _ \<Rightarrow> (LP_ERR_INVALID_ARG, im))"

definition wasm_token_keys :: "('d json \<Rightarrow> qstring option) \<Rightarrow> wasm_image \<Rightarrow> cstring option" where
  "wasm_token_keys dump im =
     (if \<not> wasmHostServiceGranted ServiceTokenRegistry im then Some None
      else map_option Some (dump (Array (map Str (outboundKeys (wstore im))))))"

subsection \<open>Both images side by side\<close>

datatype token_op = TkGrant cstring | TkSave cstring cstring | TkSaveInbound cstring cstring

fun qt_token_step :: "(qstring \<Rightarrow> 'd json option) \<Rightarrow> token_op \<Rightarrow> lp_image \<Rightarrow> lp_code \<times> lp_image" where
  "qt_token_step parse (TkGrant s) im = lp_grant_host_services parse s im"
| "qt_token_step parse (TkSave n t) im = lp_token_save n t im"
| "qt_token_step parse (TkSaveInbound c t) im = lp_token_save_inbound c t im"

fun wasm_token_step :: "(qstring \<Rightarrow> 'd json option) \<Rightarrow> token_op \<Rightarrow> wasm_image \<Rightarrow> lp_code \<times> wasm_image" where
  "wasm_token_step parse (TkGrant s) im = wasm_grant_host_services parse s im"
| "wasm_token_step parse (TkSave n t) im = wasm_token_save n t im"
| "wasm_token_step parse (TkSaveInbound c t) im = wasm_token_save_inbound c t im"

fun runCodes :: "('o \<Rightarrow> 's \<Rightarrow> lp_code \<times> 's) \<Rightarrow> 'o list \<Rightarrow> 's \<Rightarrow> lp_code list \<times> 's" where
  "runCodes step [] s = ([], s)"
| "runCodes step (x # xs) s = (case step x s of (c, s1) \<Rightarrow> case runCodes step xs s1 of (cs, s2) \<Rightarrow> (c # cs, s2))"

text \<open>The only argument on which the two disagree: an outbound token for the empty name.\<close>

fun emptyName :: "token_op \<Rightarrow> bool" where
  "emptyName (TkSave n t) = (n = Some [] \<and> t \<noteq> None)"
| "emptyName _ = False"

text \<open>The relation: the same grant, and the two halves of the one table are the two maps.\<close>

definition sameTokens :: "lp_image \<Rightarrow> wasm_image \<Rightarrow> bool" where
  "sameTokens im wm =
     (g_hostServices im = wGranted wm \<and>
      (\<forall>k. \<not> isReservedKey k \<longrightarrow> hash_find (m_tokens (ambient (im_registry im))) k = map_of (w_outbound (wstore wm)) k) \<and>
      (\<forall>k. isReservedKey k \<longrightarrow> map_of (w_outbound (wstore wm)) k = None) \<and>
      (\<forall>c. \<not> isReservedKey c \<longrightarrow>
        hash_find (m_tokens (ambient (im_registry im))) (inboundKey c) = map_of (w_inbound (wstore wm)) c) \<and>
      (\<forall>c. isReservedKey c \<longrightarrow> map_of (w_inbound (wstore wm)) c = None))"

lemma reserved_same [simp]: "wasmIsReservedKey = isReservedKey"
  by (simp add: fun_eq_iff wasmIsReservedKey_def isReservedKey_def kNamespaceChar_def namespaceChar_def)

lemma map_of_object_put [simp]: "map_of (object_put k v fs) k' = (if k' = k then Some v else map_of fs k')"
  by (induction k v fs rule: object_put.induct) auto

lemma service_bit_same: "wasmHostServiceBit = hostServiceBit"
  by (simp add: fun_eq_iff wasmHostServiceBit_def hostServiceBit_def ServiceTokenRegistry_def ServiceTokenDelivery_def)

lemma granted_bits_same: "wasmGrantedBits es b = grantedBits es b"
  by (induction es arbitrary: b) (simp_all add: service_bit_same split: json.split option.split)

lemma same_new: "sameTokens newImage newWasmImage"
  by (simp add: sameTokens_def newImage_def newWasmImage_def newWasmStore_def initRegistry_def newTokenManager_def)

lemma same_granted: "sameTokens im wm \<Longrightarrow> wasmHostServiceGranted s wm = hostServiceGranted s im"
  by (simp add: sameTokens_def wasmHostServiceGranted_def hostServiceGranted_def)

lemma same_save:
  assumes "sameTokens im wm" and "\<not> isReservedKey m" and "m \<noteq> []"
  shows "sameTokens (onAmbient (\<lambda>tm. fst (saveToken m t tm)) im) (wm\<lparr>wstore := snd (saveOutbound m t (wstore wm))\<rparr>)"
  using assms by (auto simp: sameTokens_def onAmbient_def saveToken_def saveOutbound_def)

lemma same_inbound:
  assumes "sameTokens im wm" and "\<not> isReservedKey c" and "c \<noteq> []" "t \<noteq> []"
  shows "sameTokens (onAmbient (\<lambda>_. snd (saveInboundToken c t (ambient (im_registry im)))) im)
    (wm\<lparr>wstore := snd (saveInbound c t (wstore wm))\<rparr>)"
  using assms by (auto simp: sameTokens_def onAmbient_def saveInboundToken_def saveInbound_def)

lemma same_step:
  assumes "sameTokens im wm" and "\<not> emptyName op"
  shows "fst (qt_token_step parse op im) = fst (wasm_token_step parse op wm) \<and>
    sameTokens (snd (qt_token_step parse op im)) (snd (wasm_token_step parse op wm))"
proof (cases op)
  case (TkGrant s)
  have "sameTokens (im\<lparr>g_hostServices := b\<rparr>) (wm\<lparr>wGranted := b\<rparr>)" for b using assms(1) by (simp add: sameTokens_def)
  with assms(1) TkGrant show ?thesis
    by (auto simp: lp_grant_host_services_def wasm_grant_host_services_def granted_bits_same split: option.split json.split)
next
  case (TkSave n t)
  show ?thesis
  proof (cases "n = None \<or> t = None \<or> isReservedKey (the n)")
    case True
    with assms TkSave show ?thesis
      by (auto simp: lp_token_save_def wasm_token_save_def saveOutbound_def split: option.split)
  next
    case False
    then obtain m v where "n = Some m" "t = Some v" "\<not> isReservedKey m" by auto
    with assms TkSave same_save[OF assms(1), of m v] show ?thesis
      by (auto simp: lp_token_save_def wasm_token_save_def saveOutbound_def)
  qed
next
  case (TkSaveInbound c t)
  show ?thesis
  proof (cases "c = None \<or> t = None \<or> c = Some [] \<or> t = Some [] \<or> isReservedKey (the c)")
    case True
    with assms TkSaveInbound show ?thesis
      by (auto simp: lp_token_save_inbound_def wasm_token_save_inbound_def saveInboundToken_def saveInbound_def split: option.split)
  next
    case False
    then obtain k v where kv: "c = Some k" "t = Some v" "k \<noteq> []" "v \<noteq> []" "\<not> isReservedKey k" by (cases c; cases t) auto
    define im1 where "im1 = onAmbient (\<lambda>_. snd (saveInboundToken k v (ambient (im_registry im)))) im"
    define wm1 where "wm1 = wm\<lparr>wstore := snd (saveInbound k v (wstore wm))\<rparr>"
    have s: "sameTokens im1 wm1" unfolding im1_def wm1_def by (rule same_inbound[OF assms(1) kv(5,3,4)])
    have "lp_token_save_inbound c t im = (LP_OK, if hostServiceGranted ServiceTokenRegistry im1
        then onAmbient (\<lambda>tm. fst (saveToken k v tm)) im1 else im1)"
      using kv by (simp add: lp_token_save_inbound_def saveInboundToken_def im1_def)
    moreover have "wasm_token_save_inbound c t wm = (LP_OK, if wasmHostServiceGranted ServiceTokenRegistry wm1
        then wm1\<lparr>wstore := snd (saveOutbound k v (wstore wm1))\<rparr> else wm1)"
      using kv by (simp add: wasm_token_save_inbound_def saveInbound_def wm1_def)
    ultimately show ?thesis
      using s same_save[OF s kv(5,3), of v] same_granted[OF s] TkSaveInbound by simp
  qed
qed

lemma same_run:
  assumes "sameTokens im wm" and "list_all (\<lambda>op. \<not> emptyName op) ops"
  shows "fst (runCodes (qt_token_step parse) ops im) = fst (runCodes (wasm_token_step parse) ops wm) \<and>
    sameTokens (snd (runCodes (qt_token_step parse) ops im)) (snd (runCodes (wasm_token_step parse) ops wm))"
  using assms
proof (induction ops arbitrary: im wm)
  case (Cons op ops)
  then have "fst (qt_token_step parse op im) = fst (wasm_token_step parse op wm)"
    "sameTokens (snd (qt_token_step parse op im)) (snd (wasm_token_step parse op wm))"
    using same_step[of im wm op parse] by simp_all
  with Cons.IH[of "snd (qt_token_step parse op im)" "snd (wasm_token_step parse op wm)"] Cons.prems(2)
  show ?case by (simp add: split_beta)
qed simp


definition token_run :: "token_op list" where
  "token_run = [TkSave (Some ''b'') (Some ''out''), TkGrant (Some ''r''), TkSaveInbound (Some ''a'') (Some ''in''),
     TkSave (Some [CHR 0x01]) (Some ''x'')]"


end
