(* ===== verification/Wasm_Calls.thy ===== *)
theory Wasm_Calls
  imports Wasm_Tokens Rpc_Peer Table_Multisets
begin

text \<open>
  The outbound door of a WebAssembly image (implementations/wasm/wasm_lp_abi.cpp): clients are a
  target, an origin and a cell that says whether they live; calls go over the one connection the
  host installed, with the credential the image holds for the target, asked of
  \<open>capability_module\<close> when it holds none. One event loop, so every operation is a step. A
  connection is the peer of \<open>Rpc_Peer\<close>; what it answers is run at once. nlohmann's printer is a
  total function here: texts are taken to be UTF-8.
\<close>

subsection \<open>State\<close>

text \<open>
  The two closures handed to the peer. A token request holds its connection, named by its index.
\<close>

datatype 'd wasm_handler =
  SendResult nat qstring nat
| TokenGranted nat nat qstring qstring "'d rpc_value list" nat

type_synonym 'd wpeer = "('d wasm_handler, 'd) rpc_peer"

text \<open>
  \<open>d_held\<close> are the connections the host owns, \<open>g_outbound\<close> the weak reference. The answers given
  to callbacks and the results dropped for a dead client, both with the client's cell, and the
  credentials ever handed to the store are kept for the theorems.
\<close>

record 'd wasm_door =
  d_store :: wasm_store
  d_conns :: "'d wpeer list"
  d_held :: "nat list"
  g_outbound :: "nat option"
  d_dead :: "nat list"
  d_cells :: nat
  d_answers :: "((nat \<times> nat) \<times> bool \<times> qstring) list"
  d_dropped :: "(nat \<times> nat) list"
  d_granted :: "(qstring \<times> qstring) list"

definition newDoor :: "'d wasm_door" where
  "newDoor = \<lparr>d_store = newWasmStore, d_conns = [], d_held = [], g_outbound = None, d_dead = [], d_cells = 0,
     d_answers = [], d_dropped = [], d_granted = []\<rparr>"

record wasm_client =
  wc_target :: qstring
  wc_origin :: qstring
  wc_alive :: nat

definition kCapabilityModule :: qstring where
  "kCapabilityModule = ''capability_module''"

definition setConn :: "nat \<Rightarrow> 'd wpeer \<Rightarrow> 'd wasm_door \<Rightarrow> 'd wasm_door" where
  "setConn i p d = d\<lparr>d_conns := (d_conns d)[i := p]\<rparr>"

definition storeToken :: "qstring \<Rightarrow> qstring \<Rightarrow> 'd wasm_door \<Rightarrow> 'd wasm_door" where
  "storeToken n t d = (case saveOutbound n t (d_store d) of
     (ok, w) \<Rightarrow> d\<lparr>d_store := w, d_granted := (n, t) # d_granted d\<rparr>)"

fun holdsConnection :: "'d wasm_handler \<Rightarrow> bool" where
  "holdsConnection (TokenGranted i c tgt m args cb) = True"
| "holdsConnection _ = False"

definition connLives :: "nat \<Rightarrow> 'd wasm_door \<Rightarrow> bool" where
  "connLives i d = (i < length (d_conns d) \<and>
     (i \<in> set (d_held d) \<or> list_ex (\<lambda>(k, h). holdsConnection h) (pendingCalls (d_conns d ! i))))"

definition outboundConnection :: "'d wasm_door \<Rightarrow> nat option" where
  "outboundConnection d = (case g_outbound d of None \<Rightarrow> None | Some i \<Rightarrow> if connLives i d then Some i else None)"

definition outboundDoorIsOpen :: "'d wasm_door \<Rightarrow> bool" where
  "outboundDoorIsOpen d = (case outboundConnection d of None \<Rightarrow> False | Some i \<Rightarrow> isOpen (d_conns d ! i))"

definition setOutboundConnection :: "nat option \<Rightarrow> 'd wasm_door \<Rightarrow> 'd wasm_door" where
  "setOutboundConnection c d = d\<lparr>g_outbound := c\<rparr>"

subsection \<open>Answers\<close>

definition report :: "nat \<times> nat \<Rightarrow> bool \<Rightarrow> qstring \<Rightarrow> 'd wasm_door \<Rightarrow> 'd wasm_door" where
  "report cb ok text d = d\<lparr>d_answers := d_answers d @ [(cb, ok, text)]\<rparr>"

definition failCall :: "('d json \<Rightarrow> qstring) \<Rightarrow> nat \<times> nat \<Rightarrow> call_error \<Rightarrow> 'd wasm_door \<Rightarrow> 'd wasm_door" where
  "failCall dump cb e = report cb False
     (dump (Object (put_all [(''code'', Str (code e)), (''message'', Str (message e)), (''origin'', Str (origin e))])))"

definition resultArrives ::
  "('d json \<Rightarrow> qstring) \<Rightarrow> nat \<Rightarrow> qstring \<Rightarrow> nat \<Rightarrow> 'd result_message \<Rightarrow> 'd wasm_door \<Rightarrow> 'd wasm_door" where
  "resultArrives dump cell target_name cb res d =
     (if cell \<in> set (d_dead d) then d\<lparr>d_dropped := d_dropped d @ [(cb, cell)]\<rparr>
      else if \<not> res_ok res then failCall dump (cb, cell) (callErrorFromWire target_name (res_errCode res) (res_err res)) d
      else report (cb, cell) True (dump (valueToJson (res_value res))) d)"

text \<open>What sending on a connection answers at once, and the connection afterwards.\<close>

definition sendDoor ::
  "nat \<Rightarrow> 'd call_message \<Rightarrow> 'd wasm_handler \<Rightarrow> 'd wasm_door \<Rightarrow> ('d wasm_handler, 'd) peer_output list \<times> 'd wasm_door" where
  "sendDoor i msg h d =
     (let p = d_conns d ! i; p1 = sendCallAsync msg (Some h) p
      in (drop (length (outputs p)) (outputs p1), setConn i p1 d))"

definition launch ::
  "nat \<Rightarrow> (u64 \<Rightarrow> 'd call_message) \<Rightarrow> 'd wasm_handler \<Rightarrow> 'd wasm_door \<Rightarrow> ('d wasm_handler, 'd) peer_output list \<times> 'd wasm_door" where
  "launch i msg h d = (case nextId (d_conns d ! i) of (cid, p) \<Rightarrow> sendDoor i (msg cid) h (setConn i p d))"

fun sentAnswer :: "('d json \<Rightarrow> qstring) \<Rightarrow> ('d wasm_handler, 'd) peer_output \<Rightarrow> 'd wasm_door \<Rightarrow> 'd wasm_door" where
  "sentAnswer dump (Answer (SendResult cell tgt cb) res) d = resultArrives dump cell tgt cb res d"
| "sentAnswer dump _ d = d"

definition sendOutboundCall ::
  "('d json \<Rightarrow> qstring) \<Rightarrow> nat \<Rightarrow> nat \<Rightarrow> qstring \<Rightarrow> qstring \<Rightarrow> qstring \<Rightarrow> 'd rpc_value list \<Rightarrow> nat \<Rightarrow> 'd wasm_door \<Rightarrow> 'd wasm_door" where
  "sendOutboundCall dump i cell target_name m authToken args cb d =
     (case launch i (\<lambda>cid. \<lparr>call_id = cid, call_authToken = authToken, call_object = target_name, call_method = m,
          call_args = args, call_caller = []\<rparr>) (SendResult cell target_name cb) d of
        (os, d1) \<Rightarrow> fold (sentAnswer dump) os d1)"

definition mintedToken :: "'d result_message \<Rightarrow> qstring" where
  "mintedToken res = (if \<not> res_ok res then [] else case valueToJson (res_value res) of Str s \<Rightarrow> s | _ \<Rightarrow> [])"

definition noTokenError :: "qstring \<Rightarrow> call_error" where
  "noTokenError target_name = \<lparr>code = ''unauthorized'',
     message = ''capability_module granted this image no token for '' @ [CHR 0x27] @ target_name @ [CHR 0x27] @
       '', so the call was not forwarded'', origin = target_name\<rparr>"

definition tokenArrives ::
  "('d json \<Rightarrow> qstring) \<Rightarrow> nat \<Rightarrow> nat \<Rightarrow> qstring \<Rightarrow> qstring \<Rightarrow> 'd rpc_value list \<Rightarrow> nat \<Rightarrow> 'd result_message \<Rightarrow>
   'd wasm_door \<Rightarrow> 'd wasm_door" where
  "tokenArrives dump i cell target_name m args cb res d =
     (if cell \<in> set (d_dead d) then d\<lparr>d_dropped := d_dropped d @ [(cb, cell)]\<rparr>
      else if mintedToken res = [] then failCall dump (cb, cell) (noTokenError target_name) d
      else sendOutboundCall dump i cell target_name m (mintedToken res) args cb (storeToken target_name (mintedToken res) d))"

fun onAnswer :: "('d json \<Rightarrow> qstring) \<Rightarrow> ('d wasm_handler, 'd) peer_output \<Rightarrow> 'd wasm_door \<Rightarrow> 'd wasm_door" where
  "onAnswer dump (Answer (SendResult cell tgt cb) res) d = resultArrives dump cell tgt cb res d"
| "onAnswer dump (Answer (TokenGranted i cell tgt m args cb) res) d = tokenArrives dump i cell tgt m args cb res d"
| "onAnswer dump _ d = d"

definition requestTokenThenSend ::
  "('d json \<Rightarrow> qstring) \<Rightarrow> nat \<Rightarrow> nat \<Rightarrow> qstring \<Rightarrow> qstring \<Rightarrow> qstring \<Rightarrow> 'd rpc_value list \<Rightarrow> nat \<Rightarrow> 'd wasm_door \<Rightarrow> 'd wasm_door" where
  "requestTokenThenSend dump i cell target_name orig m args cb d =
     (case launch i (\<lambda>cid. \<lparr>call_id = cid, call_authToken = outbound (d_store d) kCapabilityModule,
          call_object = kCapabilityModule, call_method = ''requestModule'', call_args = [VString orig, VString target_name],
          call_caller = []\<rparr>) (TokenGranted i cell target_name m args cb) d of
        (os, d1) \<Rightarrow> fold (onAnswer dump) os d1)"

subsection \<open>The functions of the interface\<close>

definition wasm_client_create :: "cstring \<Rightarrow> cstring \<Rightarrow> 'd wasm_door \<Rightarrow> wasm_client option \<times> 'd wasm_door" where
  "wasm_client_create target_module origin_module d =
     (if absent target_module then (None, d)
      else (Some \<lparr>wc_target = the target_module,
          wc_origin = (case origin_module of None \<Rightarrow> [] | Some n \<Rightarrow> n), wc_alive = d_cells d\<rparr>,
        d\<lparr>d_cells := Suc (d_cells d)\<rparr>))"

definition wasm_client_destroy :: "wasm_client option \<Rightarrow> 'd wasm_door \<Rightarrow> 'd wasm_door" where
  "wasm_client_destroy c d = (case c of None \<Rightarrow> d | Some c \<Rightarrow> d\<lparr>d_dead := wc_alive c # d_dead d\<rparr>)"

text \<open>Arguments; \<open>Inl\<close> is a refusal, \<open>None\<close> the exception of a malformed byte array.\<close>

definition wasmArgs :: "(qstring \<Rightarrow> 'd json option) \<Rightarrow> cstring \<Rightarrow> (unit + 'd rpc_value list) option" where
  "wasmArgs parse args_json =
     (if absent args_json then Some (Inr [])
      else case parse (the args_json) of
        Some (Array js) \<Rightarrow> (case collect (map jsonToValue js) of Inl e \<Rightarrow> None | Inr vs \<Rightarrow> Some (Inr vs))
      | _ \<Rightarrow> Some (Inl ()))"

definition noChannelError :: "qstring \<Rightarrow> call_error" where
  "noChannelError target_name = callErrorTransport target_name
     ''this wasm image has no host channel: its host installed no connection, or the one it installed is closed''"

definition wasm_invoke_async ::
  "('d json \<Rightarrow> qstring) \<Rightarrow> (qstring \<Rightarrow> 'd json option) \<Rightarrow> wasm_client option \<Rightarrow> cstring \<Rightarrow> cstring \<Rightarrow> nat option \<Rightarrow>
   'd wasm_door \<Rightarrow> (lp_code \<times> 'd wasm_door) option" where
  "wasm_invoke_async dump parse h m args_json cb d =
     (if h = None \<or> absent m \<or> cb = None then Some (LP_ERR_INVALID_ARG, d)
      else case wasmArgs parse args_json of
        None \<Rightarrow> None
      | Some (Inl u) \<Rightarrow> Some (LP_ERR_INVALID_ARG, d)
      | Some (Inr args) \<Rightarrow>
        (let target_name = wc_target (the h); cell = wc_alive (the h)
         in case (if outboundDoorIsOpen d then outboundConnection d else None) of
              None \<Rightarrow> Some (LP_OK, failCall dump (the cb, cell) (noChannelError target_name) d)
            | Some i \<Rightarrow>
              let tok = outbound (d_store d) target_name
              in if tok \<noteq> [] \<or> target_name = kCapabilityModule
                 then Some (LP_OK, sendOutboundCall dump i cell target_name (the m) tok args (the cb) d)
                 else Some (LP_OK, requestTokenThenSend dump i cell target_name (wc_origin (the h)) (the m) args (the cb) d)))"

subsection \<open>The life of an image\<close>

text \<open>
  Calls and clients of the module, its token saves, what the host does with connections, and the
  messages that arrive. A client is not used after its destruction, and messages arrive on a
  connection that lives.
\<close>

datatype 'd wasm_event =
  WInvoke wasm_client cstring cstring nat
| WDestroy wasm_client
| WSave qstring qstring
| WInstall
| WTakeBack
| WRelease nat
| WMessage nat "'d any_message"
| WStop nat qstring

definition peerRuns :: "('d json \<Rightarrow> qstring) \<Rightarrow> nat \<Rightarrow> ('d wpeer \<Rightarrow> 'd wpeer) \<Rightarrow> 'd wasm_door \<Rightarrow> 'd wasm_door" where
  "peerRuns dump i f d =
     (let p = d_conns d ! i; p1 = f p
      in fold (onAnswer dump) (drop (length (outputs p)) (outputs p1)) (setConn i p1 d))"

definition wasmStep :: "('d json \<Rightarrow> qstring) \<Rightarrow> (qstring \<Rightarrow> 'd json option) \<Rightarrow> 'd wasm_event \<Rightarrow> 'd wasm_door \<Rightarrow> 'd wasm_door" where
  "wasmStep dump parse e d = (case e of
     WInvoke c m a cb \<Rightarrow> if wc_alive c \<in> set (d_dead d) then d else (case wasm_invoke_async dump parse (Some c) m a (Some cb) d of None \<Rightarrow> d | Some (k, d1) \<Rightarrow> d1)
   | WDestroy c \<Rightarrow> wasm_client_destroy (Some c) d
   | WSave n t \<Rightarrow> storeToken n t d
   | WInstall \<Rightarrow> setOutboundConnection (Some (length (d_conns d)))
       (d\<lparr>d_conns := d_conns d @ [newPeer True], d_held := length (d_conns d) # d_held d\<rparr>)
   | WTakeBack \<Rightarrow> setOutboundConnection None d
   | WRelease i \<Rightarrow> d\<lparr>d_held := removeAll i (d_held d)\<rparr>
   | WMessage i msg \<Rightarrow> if connLives i d then peerRuns dump i (dispatchIncoming msg) d else d
   | WStop i reason \<Rightarrow> if connLives i d then peerRuns dump i (stop reason) d else d)"

definition wasmRun :: "('d json \<Rightarrow> qstring) \<Rightarrow> (qstring \<Rightarrow> 'd json option) \<Rightarrow> 'd wasm_event list \<Rightarrow> 'd wasm_door \<Rightarrow> 'd wasm_door" where
  "wasmRun dump parse es d = fold (wasmStep dump parse) es d"

text \<open>The calls that were accepted, with their client's cell.\<close>

definition acceptedCalls :: "('d json \<Rightarrow> qstring) \<Rightarrow> (qstring \<Rightarrow> 'd json option) \<Rightarrow> 'd wasm_event \<Rightarrow> 'd wasm_door \<Rightarrow> (nat \<times> nat) list" where
  "acceptedCalls dump parse e d = (case e of
     WInvoke c m a cb \<Rightarrow>
       if wc_alive c \<in> set (d_dead d) then []
       else (case wasm_invoke_async dump parse (Some c) m a (Some cb) d of
          Some (LP_OK, d1) \<Rightarrow> [(cb, wc_alive c)] | _ \<Rightarrow> [])
   | _ \<Rightarrow> [])"

fun submittedCalls ::
  "('d json \<Rightarrow> qstring) \<Rightarrow> (qstring \<Rightarrow> 'd json option) \<Rightarrow> 'd wasm_event list \<Rightarrow> 'd wasm_door \<Rightarrow> (nat \<times> nat) list" where
  "submittedCalls dump parse [] d = []"
| "submittedCalls dump parse (e # es) d = acceptedCalls dump parse e d @ submittedCalls dump parse es (wasmStep dump parse e d)"

subsection \<open>The invariant\<close>

fun handlerCall :: "'d wasm_handler \<Rightarrow> nat \<times> nat" where
  "handlerCall (SendResult cell tgt cb) = (cb, cell)"
| "handlerCall (TokenGranted i cell tgt m args cb) = (cb, cell)"

definition waitingOn :: "'d wpeer \<Rightarrow> (nat \<times> nat) multiset" where
  "waitingOn p = image_mset (handlerCall \<circ> snd) (mset (pendingCalls p))"

definition waitingCalls :: "'d wasm_door \<Rightarrow> (nat \<times> nat) multiset" where
  "waitingCalls d = sum_list (map waitingOn (d_conns d))"

definition accountOf :: "'d wasm_door \<Rightarrow> (nat \<times> nat) multiset" where
  "accountOf d = mset (map fst (d_answers d)) + mset (d_dropped d) + waitingCalls d"

text \<open>
  Ids are used once: fewer than \<open>n\<close> were given out, and those pending were. A token request names
  the connection it waits on, and nothing waits on a stopped one.
\<close>

fun ownConnection :: "nat \<Rightarrow> 'd wasm_handler \<Rightarrow> bool" where
  "ownConnection i (TokenGranted j cell tgt m args cb) = (j = i)"
| "ownConnection i h = True"

definition peerOk :: "nat \<Rightarrow> nat \<Rightarrow> 'd wpeer \<Rightarrow> bool" where
  "peerOk n i p = (unat (nextCallId p) \<le> Suc n \<and> hash_wf (pendingCalls p) \<and>
     (\<forall>(k, h) \<in> set (pendingCalls p). unat k < unat (nextCallId p) \<and> ownConnection i h) \<and>
     (stopped p \<longrightarrow> pendingCalls p = []))"

definition doorOk :: "nat \<Rightarrow> 'd wasm_door \<Rightarrow> bool" where
  "doorOk n d = ((\<forall>i < length (d_conns d). peerOk n i (d_conns d ! i)) \<and>
     (\<forall>(cb, cell) \<in> set (d_dropped d). cell \<in> set (d_dead d)))"

text \<open>What was sent, and what may be sent.\<close>

fun callsIn :: "('h, 'd) peer_output list \<Rightarrow> 'd call_message list" where
  "callsIn [] = []"
| "callsIn (Emit (CallMsg m) # os) = m # callsIn os"
| "callsIn (x # os) = callsIn os"

definition callsSent :: "'d wasm_door \<Rightarrow> 'd call_message set" where
  "callsSent d = (\<Union>p \<in> set (d_conns d). set (callsIn (outputs p)))"

definition credentialed :: "'d wasm_door \<Rightarrow> 'd call_message \<Rightarrow> bool" where
  "credentialed d m = (if call_authToken m = [] then call_object m = kCapabilityModule
     else (call_object m, call_authToken m) \<in> set (d_granted d))"

definition credentialsOk :: "'d wasm_door \<Rightarrow> bool" where
  "credentialsOk d = ((\<forall>m \<in> callsSent d. credentialed d m) \<and>
     (\<forall>n t. map_of (w_outbound (d_store d)) n = Some t \<longrightarrow> (n, t) \<in> set (d_granted d)))"

lemma callsIn_append: "callsIn (os @ os') = callsIn os @ callsIn os'"
  by (induction os rule: callsIn.induct) simp_all

lemma waiting_update:
  assumes "i < length (d_conns d)"
  shows "waitingCalls (setConn i p d) + waitingOn (d_conns d ! i) = waitingCalls d + waitingOn p"
proof -
  have "sum_list (xs[i := x]) + xs ! i = sum_list xs + (x :: (nat \<times> nat) multiset)" if "i < length xs" for xs x i
    using that
  proof (induction xs arbitrary: i)
    case (Cons a xs)
    then show ?case by (cases i) (simp_all add: ac_simps)
  qed simp
  from this[of i "map waitingOn (d_conns d)" "waitingOn p"] assms show ?thesis
    by (simp add: waitingCalls_def setConn_def map_update)
qed

lemma setConn_fields [simp]:
  "d_conns (setConn i p d) = (d_conns d)[i := p]" "d_dead (setConn i p d) = d_dead d"
  "d_answers (setConn i p d) = d_answers d" "d_dropped (setConn i p d) = d_dropped d"
  "d_store (setConn i p d) = d_store d" "d_granted (setConn i p d) = d_granted d"
  "setConn i q (setConn i p d) = setConn i q d"
  by (simp_all add: setConn_def)

text \<open>A message that goes out, on an open and on a stopped connection.\<close>

lemma launch_open:
  assumes "i < length (d_conns d)" "\<not> stopped (d_conns d ! i)"
  shows "launch i msg h d = ([Emit (CallMsg (msg (nextCallId (d_conns d ! i))))],
    setConn i (out [Emit (CallMsg (msg (nextCallId (d_conns d ! i))))]
      (registerCall (call_id (msg (nextCallId (d_conns d ! i)))) h
        (snd (nextId (d_conns d ! i))))) d)"
  using assms by (simp add: launch_def sendDoor_def sendCallAsync_def nextId_def registerCall_def Let_def out_def)

lemma empty_pending:
  "pendingCalls p = [] \<Longrightarrow> p\<lparr>nextCallId := x, pendingCalls := [], outputs := y\<rparr> = p\<lparr>nextCallId := x, outputs := y\<rparr>"
  by (cases p) simp

lemma launch_stopped:
  assumes "i < length (d_conns d)" "stopped (d_conns d ! i)" "pendingCalls (d_conns d ! i) = []"
  shows "launch i msg h d = ([Answer h (stoppedReply (call_id (msg (nextCallId (d_conns d ! i)))))],
    setConn i (out [Answer h (stoppedReply (call_id (msg (nextCallId (d_conns d ! i)))))]
        (snd (nextId (d_conns d ! i)))) d)"
  using assms
  by (simp add: launch_def sendDoor_def sendCallAsync_def nextId_def registerCall_def claimCall_def pend_claim_def
      hash_insert_def hash_remove_def Let_def out_def empty_pending)

lemma peerOk_mono: "peerOk n i p \<Longrightarrow> n \<le> m \<Longrightarrow> peerOk m i p"
  by (auto simp: peerOk_def)

lemma doorOk_mono: "doorOk n d \<Longrightarrow> n \<le> m \<Longrightarrow> doorOk m d"
  unfolding doorOk_def using peerOk_mono by blast

lemma doorOk_setConn: "doorOk n d \<Longrightarrow> peerOk n i p \<Longrightarrow> doorOk n (setConn i p d)"
  by (cases "i < length (d_conns d)") (simp_all add: doorOk_def nth_list_update list_update_beyond)

lemma doorOk_peer: "doorOk n d \<Longrightarrow> i < length (d_conns d) \<Longrightarrow> peerOk n i (d_conns d ! i)"
  by (simp add: doorOk_def)

lemma next_id: "peerOk n i p \<Longrightarrow> Suc (Suc n) < 2 ^ 64 \<Longrightarrow> unat (nextCallId p + 1) = Suc (unat (nextCallId p))"
  by (simp add: peerOk_def unat_word_ariths)

lemma peerOk_nextId: "peerOk n i p \<Longrightarrow> Suc (Suc n) < 2 ^ 64 \<Longrightarrow> peerOk (Suc n) i (out os (snd (nextId p)))"
  using next_id[of n i p] by (auto simp: peerOk_def nextId_def out_def)

lemma peerOk_register:
  assumes "peerOk n i p" "Suc (Suc n) < 2 ^ 64" "ownConnection i h" "\<not> stopped p"
  shows "peerOk (Suc n) i (out os (registerCall (nextCallId p) h (snd (nextId p))))"
    and "waitingOn (out os (registerCall (nextCallId p) h (snd (nextId p)))) = add_mset (handlerCall h) (waitingOn p)"
proof -
  have new: "nextCallId p \<notin> fst ` set (pendingCalls p)"
    using assms(1) by (auto simp: peerOk_def)
  have set: "set (hash_insert (nextCallId p) h (pendingCalls p)) = insert (nextCallId p, h) (set (pendingCalls p))"
    using arg_cong[OF mset_hash_insert_new[OF new, of h], of set_mset] by simp
  show "peerOk (Suc n) i (out os (registerCall (nextCallId p) h (snd (nextId p))))"
    using assms next_id[OF assms(1,2)] by (auto simp: peerOk_def registerCall_def nextId_def out_def set)
  show "waitingOn (out os (registerCall (nextCallId p) h (snd (nextId p)))) = add_mset (handlerCall h) (waitingOn p)"
    by (simp add: waitingOn_def registerCall_def nextId_def out_def mset_hash_insert_new[OF new])
qed

text \<open>What an answer adds to the account.\<close>

definition accounts :: "nat \<Rightarrow> nat \<times> nat \<Rightarrow> 'd wasm_door \<Rightarrow> 'd wasm_door \<Rightarrow> bool" where
  "accounts n c d d1 = (doorOk n d1 \<and> accountOf d1 = add_mset c (accountOf d) \<and> length (d_conns d1) = length (d_conns d))"

lemma accountOf_simps [simp]:
  "accountOf (report c ok t d) = add_mset c (accountOf d)"
  "accountOf (storeToken x y d) = accountOf d"
  "waitingCalls (report c ok t d) = waitingCalls d"
  by (simp_all add: accountOf_def report_def waitingCalls_def storeToken_def split: prod.split)

lemma doorOk_simps [simp]:
  "doorOk n (report c ok t d) = doorOk n d"
  "doorOk n (storeToken x y d) = doorOk n d"
  by (simp_all add: doorOk_def report_def storeToken_def split: prod.split)

lemma fields_simps [simp]:
  "d_conns (report c ok t d) = d_conns d" "d_conns (storeToken x y d) = d_conns d"
  "d_dead (report c ok t d) = d_dead d" "d_dead (storeToken x y d) = d_dead d"
  "d_answers (storeToken x y d) = d_answers d" "d_answers (report c ok t d) = d_answers d @ [(c, ok, t)]"
  by (simp_all add: report_def storeToken_def split: prod.split)

lemma resultArrives_accounts:
  "doorOk n d \<Longrightarrow> accounts n (cb, cell) d (resultArrives dump cell tgt cb res d)"
  by (auto simp: accounts_def resultArrives_def failCall_def doorOk_def accountOf_def waitingCalls_def report_def)

lemma resultArrives_conns [simp]: "d_conns (resultArrives dump cell tgt cb res d) = d_conns d"
  by (simp add: resultArrives_def failCall_def)

lemma accountOf_setConn:
  assumes "i < length (d_conns d)" and "waitingOn p = w + waitingOn (d_conns d ! i)"
  shows "accountOf (setConn i p d) = accountOf d + w"
proof -
  have "waitingCalls (setConn i p d) + waitingOn (d_conns d ! i) = (waitingCalls d + w) + waitingOn (d_conns d ! i)"
    using waiting_update[OF assms(1), of p] by (simp add: assms(2) ac_simps)
  then have "waitingCalls (setConn i p d) = waitingCalls d + w" by (rule add_right_imp_eq)
  then show ?thesis by (simp add: accountOf_def ac_simps)
qed

lemma launch_accounts:
  assumes d: "doorOk n d" "i < length (d_conns d)" "Suc (Suc n) < 2 ^ 64"
    and h: "ownConnection i h" and msg: "\<And>c. call_id (msg c) = c"
    and l: "launch i msg h d = (os, d1)"
  shows "(accounts (Suc n) (handlerCall h) d d1 \<and> (\<exists>m. os = [Emit m])) \<or>
    (doorOk (Suc n) d1 \<and> accountOf d1 = accountOf d \<and> length (d_conns d1) = length (d_conns d) \<and>
     (\<exists>c. os = [Answer h (stoppedReply c)]))"
proof (cases "stopped (d_conns d ! i)")
  case True
  from doorOk_peer[OF d(1,2)] have ok: "peerOk n i (d_conns d ! i)" .
  with True have idle: "pendingCalls (d_conns d ! i) = []" by (simp add: peerOk_def)
  from l have d1: "setConn i (out [Answer h (stoppedReply (call_id (msg (nextCallId (d_conns d ! i)))))]
        (snd (nextId (d_conns d ! i)))) d = d1"
    by (auto simp: launch_stopped[OF d(2) True idle])
  have "doorOk (Suc n) d1"
    unfolding d1[symmetric] by (intro doorOk_setConn doorOk_mono[OF d(1)] peerOk_nextId[OF ok d(3)]) simp
  moreover have "accountOf d1 = accountOf d"
    unfolding d1[symmetric] by (subst accountOf_setConn[OF d(2), where w = "{#}"]) (simp_all add: waitingOn_def nextId_def)
  ultimately show ?thesis using l unfolding launch_stopped[OF d(2) True idle] by auto
next
  case False
  from doorOk_peer[OF d(1,2)] have ok: "peerOk n i (d_conns d ! i)" .
  from l have d1: "setConn i (out [Emit (CallMsg (msg (nextCallId (d_conns d ! i))))]
      (registerCall (nextCallId (d_conns d ! i)) h (snd (nextId (d_conns d ! i))))) d = d1"
    by (auto simp: launch_open[OF d(2) False] msg)
  have "doorOk (Suc n) d1"
    unfolding d1[symmetric] by (intro doorOk_setConn doorOk_mono[OF d(1)] peerOk_register(1)[OF ok d(3) h False]) simp
  moreover have "accountOf d1 = add_mset (handlerCall h) (accountOf d)"
    unfolding d1[symmetric]
    by (subst accountOf_setConn[OF d(2), where w = "{#handlerCall h#}"]) (simp_all add: peerOk_register(2)[OF ok d(3) h False])
  ultimately show ?thesis using l unfolding launch_open[OF d(2) False] accounts_def by auto
qed

lemma sendOutboundCall_accounts:
  assumes "doorOk n d" "i < length (d_conns d)" "Suc (Suc n) < 2 ^ 64"
  shows "accounts (Suc n) (cb, cell) d (sendOutboundCall dump i cell tgt m tok args cb d)"
proof -
  obtain os d1 where l: "launch i (\<lambda>cid. \<lparr>call_id = cid, call_authToken = tok, call_object = tgt, call_method = m,
      call_args = args, call_caller = []\<rparr>) (SendResult cell tgt cb) d = (os, d1)"
    by (meson surj_pair)
  from launch_accounts[OF assms _ _ l] consider (open') m where "accounts (Suc n) (cb, cell) d d1" "os = [Emit m]"
    | (stopped') c where "doorOk (Suc n) d1" "accountOf d1 = accountOf d" "length (d_conns d1) = length (d_conns d)"
        "os = [Answer (SendResult cell tgt cb) (stoppedReply c)]" by auto
  then show ?thesis
  proof cases
    case open'
    then show ?thesis by (simp add: sendOutboundCall_def l)
  next
    case stopped'
    with resultArrives_accounts[of "Suc n" d1 cb cell dump tgt "stoppedReply c"] show ?thesis
      by (simp add: sendOutboundCall_def l accounts_def)
  qed
qed

lemma accounts_mono: "accounts n c d d1 \<Longrightarrow> n \<le> m \<Longrightarrow> accounts m c d d1"
  using doorOk_mono by (auto simp: accounts_def)

lemma dropped_accounts:
  "doorOk n d \<Longrightarrow> cell \<in> set (d_dead d) \<Longrightarrow> accounts n (cb, cell) d (d\<lparr>d_dropped := d_dropped d @ [(cb, cell)]\<rparr>)"
  by (auto simp: accounts_def doorOk_def accountOf_def waitingCalls_def)

lemma failCall_accounts: "doorOk n d \<Longrightarrow> accounts n c d (failCall dump c e d)"
  by (simp add: accounts_def failCall_def)

lemma onAnswer_accounts:
  assumes "doorOk n d" "i < length (d_conns d)" "Suc (Suc n) < 2 ^ 64" "ownConnection i h"
  shows "accounts (Suc n) (handlerCall h) d (onAnswer dump (Answer h res) d)"
proof (cases h)
  case (SendResult cell tgt cb)
  with resultArrives_accounts[OF assms(1), of cb cell dump tgt res] show ?thesis
    by (simp add: accounts_mono[of n])
next
  case (TokenGranted j cell tgt m args cb)
  have "accounts (Suc n) (cb, cell) d (sendOutboundCall dump i cell tgt m tok args cb (storeToken tgt tok d))" for tok
    using sendOutboundCall_accounts[of n "storeToken tgt tok d" i cb cell dump tgt m tok args] assms by (simp add: accounts_def)
  with TokenGranted assms(4) show ?thesis
    by (simp add: tokenArrives_def accounts_mono[OF dropped_accounts[OF assms(1)]] accounts_mono[OF failCall_accounts[OF assms(1)]])
qed

lemma onAnswer_failed:
  "doorOk n d \<Longrightarrow> \<not> res_ok res \<Longrightarrow> accounts n (handlerCall h) d (onAnswer dump (Answer h res) d)"
  by (cases h) (simp_all add: tokenArrives_def mintedToken_def dropped_accounts failCall_accounts resultArrives_accounts)

lemma sweep_accounts:
  assumes "doorOk n d"
  shows "doorOk n (fold (onAnswer dump) (map (\<lambda>(i, h). Answer h (failReply reason i)) calls) d) \<and>
    accountOf (fold (onAnswer dump) (map (\<lambda>(i, h). Answer h (failReply reason i)) calls) d) =
      accountOf d + image_mset (handlerCall \<circ> snd) (mset calls) \<and>
    length (d_conns (fold (onAnswer dump) (map (\<lambda>(i, h). Answer h (failReply reason i)) calls) d)) = length (d_conns d)"
  using assms
proof (induction calls arbitrary: d)
  case (Cons e calls)
  obtain i h where e: "e = (i, h)" by (cases e)
  have "accounts n (handlerCall h) d (onAnswer dump (Answer h (failReply reason i)) d)"
    by (rule onAnswer_failed[OF Cons.prems]) (simp add: failReply_def)
  with Cons.IH show ?case by (simp add: e accounts_def)
qed simp

lemma requestTokenThenSend_accounts:
  assumes "doorOk n d" "i < length (d_conns d)" "Suc (Suc n) < 2 ^ 64"
  shows "accounts (Suc n) (cb, cell) d (requestTokenThenSend dump i cell tgt orig m args cb d)"
proof -
  obtain os d1 where l: "launch i (\<lambda>cid. \<lparr>call_id = cid, call_authToken = outbound (d_store d) kCapabilityModule,
          call_object = kCapabilityModule, call_method = ''requestModule'', call_args = [VString orig, VString tgt],
          call_caller = []\<rparr>) (TokenGranted i cell tgt m args cb) d = (os, d1)"
    by (meson surj_pair)
  from launch_accounts[OF assms _ _ l] consider (open') m where "accounts (Suc n) (cb, cell) d d1" "os = [Emit m]"
    | (stopped') c where "doorOk (Suc n) d1" "accountOf d1 = accountOf d" "length (d_conns d1) = length (d_conns d)"
        "os = [Answer (TokenGranted i cell tgt m args cb) (stoppedReply c)]" by auto
  then show ?thesis
  proof cases
    case open'
    then show ?thesis by (simp add: requestTokenThenSend_def l)
  next
    case stopped'
    with onAnswer_failed[of "Suc n" d1 "stoppedReply c" "TokenGranted i cell tgt m args cb" dump] show ?thesis
      by (simp add: requestTokenThenSend_def l accounts_def stoppedReply_def)
  qed
qed

lemma invoke_accounts:
  assumes "doorOk n d" "Suc (Suc n) < 2 ^ 64"
    and "wasm_invoke_async dump parse (Some c) m a (Some cb) d = Some (k, d1)"
  shows "if k = LP_OK then accounts (Suc n) (cb, wc_alive c) d d1 else d1 = d"
proof -
  have at: "i < length (d_conns d)" if "outboundConnection d = Some i" for i
    using that by (auto simp: outboundConnection_def connLives_def split: option.splits if_splits)
  have failed: "accounts (Suc n) (cb, wc_alive c) d (failCall dump (cb, wc_alive c) e d)" for e
    by (rule accounts_mono[OF failCall_accounts[OF assms(1)]]) simp
  from assms(3) show ?thesis
    by (auto simp: wasm_invoke_async_def Let_def failed sendOutboundCall_accounts[OF assms(1) at assms(2)]
        requestTokenThenSend_accounts[OF assms(1) at assms(2)] split: if_splits option.splits sum.splits)
qed

text \<open>Messages and the end of a connection.\<close>

lemma message_cases:
  obtains (answered) h m where "msg = ResultMsg m" "hash_find (pendingCalls p) (res_id m) = Some h"
      "dispatchIncoming msg p = out [Answer h m] (p\<lparr>pendingCalls := hash_remove (res_id m) (pendingCalls p)\<rparr>)"
  | (other) os where "pendingCalls (dispatchIncoming msg p) = pendingCalls p"
      "nextCallId (dispatchIncoming msg p) = nextCallId p" "stopped (dispatchIncoming msg p) = stopped p"
      "outputs (dispatchIncoming msg p) = outputs p @ os" "\<And>x d. x \<in> set os \<Longrightarrow> onAnswer dump x d = d" "callsIn os = []"
proof (cases msg)
  case (ResultMsg m)
  show thesis
  proof (cases "hash_find (pendingCalls p) (res_id m)")
    case None
    then show thesis
      by (intro other[of "[]"]) (simp_all add: ResultMsg claimCall_def pend_claim_def hash_remove_missing)
  next
    case (Some h)
    then show thesis by (intro answered[OF ResultMsg Some]) (simp add: ResultMsg claimCall_def pend_claim_def)
  qed
next
  case (MethodsResultMsg m)
  show thesis
  proof (cases "hash_find (pendingMethods p) (mres_id m)")
    case None
    then show thesis
      by (intro other[of "[]"]) (simp_all add: MethodsResultMsg claimMethods_def pend_claim_def)
  next
    case (Some h)
    then show thesis
      by (intro other[of "[AnswerMethods h m]"]) (simp_all add: MethodsResultMsg claimMethods_def pend_claim_def out_def)
  qed
next
  case (EventMsg m)
  have "callsIn (map (\<lambda>cb. DeliverEvent cb m) hs) = []" for hs :: "'c list" by (induction hs) simp_all
  then show thesis
    by (intro other[of "map (\<lambda>cb. DeliverEvent cb m) (eventTargets m p)"]) (auto simp: EventMsg out_def)
qed (rule other[of "if hasHandler p then [Inbound msg] else []"]; auto simp: out_def split: if_splits)+

lemma fold_idle: "(\<And>x d. x \<in> set os \<Longrightarrow> f x d = d) \<Longrightarrow> fold f os d = d"
  by (induction os) simp_all

lemma message_accounts:
  assumes d: "doorOk n d" "i < length (d_conns d)" "Suc (Suc n) < 2 ^ 64"
  shows "doorOk (Suc n) (peerRuns dump i (dispatchIncoming msg) d) \<and>
    accountOf (peerRuns dump i (dispatchIncoming msg) d) = accountOf d \<and>
    length (d_conns (peerRuns dump i (dispatchIncoming msg) d)) = length (d_conns d)"
proof (rule message_cases[where msg = msg and p = "d_conns d ! i" and dump = dump], goal_cases)
  case (1 h m)
  let ?p = "(d_conns d ! i)\<lparr>pendingCalls := hash_remove (res_id m) (pendingCalls (d_conns d ! i))\<rparr>"
  let ?q = "out [Answer h m] ?p"
  from doorOk_peer[OF d(1,2)] have ok: "peerOk n i (d_conns d ! i)" .
  then have wf: "hash_wf (pendingCalls (d_conns d ! i))" by (simp add: peerOk_def)
  note taken = mset_hash_remove[OF wf 1(2)]
  have set: "set (pendingCalls (d_conns d ! i)) = insert (res_id m, h) (set (hash_remove (res_id m) (pendingCalls (d_conns d ! i))))"
    by (metis taken set_mset_mset set_mset_add_mset_insert)
  from ok set have "peerOk n i ?q" by (auto simp: peerOk_def out_def)
  then have d1: "doorOk n (setConn i ?q d)" by (rule doorOk_setConn[OF d(1)])
  from ok set have own: "ownConnection i h" by (auto simp: peerOk_def)
  have "waitingOn (d_conns d ! i) = add_mset (handlerCall h) (waitingOn ?q)" by (simp add: waitingOn_def taken)
  with waiting_update[OF d(2), of ?q] have less: "add_mset (handlerCall h) (accountOf (setConn i ?q d)) = accountOf d"
    by (simp add: accountOf_def ac_simps)
  have "accounts (Suc n) (handlerCall h) (setConn i ?q d) (onAnswer dump (Answer h m) (setConn i ?q d))"
    by (rule onAnswer_accounts[OF d1 _ d(3) own]) (simp add: d(2))
  with less show ?case unfolding peerRuns_def 1(3) Let_def by (simp add: accounts_def)
next
  case (2 os)
  let ?q = "dispatchIncoming msg (d_conns d ! i)"
  from doorOk_peer[OF d(1,2)] 2 have "peerOk n i ?q" by (simp add: peerOk_def)
  then have ok: "doorOk n (setConn i ?q d)" by (rule doorOk_setConn[OF d(1)])
  have same: "accountOf (setConn i ?q d) = accountOf d"
    by (subst accountOf_setConn[OF d(2), where w = "{#}"]) (simp_all add: waitingOn_def 2)
  have "fold (onAnswer dump) os (setConn i ?q d) = setConn i ?q d"
    by (rule fold_idle) (rule 2(5))
  then show ?case unfolding peerRuns_def Let_def using ok same doorOk_mono[OF ok, of "Suc n"] by (simp add: 2(4))
qed

lemma stop_accounts:
  assumes d: "doorOk n d" "i < length (d_conns d)"
  shows "doorOk n (peerRuns dump i (stop reason) d) \<and>
    accountOf (peerRuns dump i (stop reason) d) = accountOf d \<and>
    length (d_conns (peerRuns dump i (stop reason) d)) = length (d_conns d)"
proof (cases "stopped (d_conns d ! i)")
  case True
  then show ?thesis using d(1) by (simp add: peerRuns_def stop_def fail_def setConn_def)
next
  case False
  let ?p = "d_conns d ! i" and ?q = "stop reason (d_conns d ! i)"
  let ?as = "map (\<lambda>(k, h). Answer h (failReply reason k)) (pendingCalls ?p)"
  let ?ms = "map (\<lambda>(k, h). AnswerMethods h (failMethodsReply reason k)) (pendingMethods ?p)"
  let ?os = "?ms @ [CloseTransport] @ (if hasHandler ?p then [ConnectionClosed] else []) @
      (case errorHandler ?p of None \<Rightarrow> [] | Some h \<Rightarrow> [ReportError h reason])"
  have outs: "outputs ?q = outputs ?p @ ?as @ ?os" and empty: "pendingCalls ?q = []" and nxt: "nextCallId ?q = nextCallId ?p"
    using False by (simp_all add: stop_def fail_def sweepPending_def out_def)
  from doorOk_peer[OF d] have "peerOk n i ?q" by (simp add: peerOk_def empty nxt)
  then have ok: "doorOk n (setConn i ?q d)" by (rule doorOk_setConn[OF d(1)])
  have "waitingCalls (setConn i ?q d) + waitingOn ?p = waitingCalls d"
    using waiting_update[OF d(2), of ?q] by (simp add: waitingOn_def empty)
  then have less: "accountOf (setConn i ?q d) + waitingOn ?p = accountOf d" by (simp add: accountOf_def ac_simps)
  have idle: "fold (onAnswer dump) ?os d' = d'" for d' :: "'a wasm_door"
    by (rule fold_idle) (auto split: if_splits option.splits)
  have "peerRuns dump i (stop reason) d = fold (onAnswer dump) ?as (setConn i ?q d)"
    unfolding peerRuns_def Let_def outs using idle by simp
  with sweep_accounts[OF ok, of dump reason "pendingCalls ?p"] less show ?thesis
    by (simp add: waitingOn_def)
qed

lemma step_accounts:
  assumes "doorOk n d" "Suc (Suc n) < 2 ^ 64"
  shows "doorOk (Suc n) (wasmStep dump parse e d) \<and>
    accountOf (wasmStep dump parse e d) = accountOf d + mset (acceptedCalls dump parse e d)"
proof (cases e)
  case (WInvoke c m a cb)
  show ?thesis
  proof (cases "wasm_invoke_async dump parse (Some c) m a (Some cb) d")
    case None
    with WInvoke assms(1) show ?thesis by (simp add: wasmStep_def acceptedCalls_def doorOk_mono[of n])
  next
    case (Some r)
    obtain k d1 where r: "r = (k, d1)" by (cases r)
    from invoke_accounts[OF assms, of dump parse c m a cb k d1] WInvoke assms(1) Some r show ?thesis
      by (cases k) (simp_all add: wasmStep_def acceptedCalls_def accounts_def doorOk_mono[of n])
  qed
next
  case (WMessage i msg)
  with message_accounts[OF assms(1) _ assms(2), of i dump msg] assms(1) show ?thesis
    by (auto simp: wasmStep_def acceptedCalls_def connLives_def doorOk_mono[of n])
next
  case (WStop i reason)
  with stop_accounts[OF assms(1), of i dump reason] assms(1) show ?thesis
    by (auto simp: wasmStep_def acceptedCalls_def connLives_def intro: doorOk_mono[of n])
next
  case WInstall
  have "peerOk k i (newPeer True)" for k i by (simp add: peerOk_def newPeer_def)
  with WInstall assms(1) show ?thesis
    by (auto simp: wasmStep_def acceptedCalls_def doorOk_def setOutboundConnection_def accountOf_def waitingCalls_def
        waitingOn_def newPeer_def nth_append less_Suc_eq intro: peerOk_mono)
qed (use assms(1) in \<open>auto simp: wasmStep_def acceptedCalls_def doorOk_def accountOf_def waitingCalls_def wasm_client_destroy_def
  storeToken_def setOutboundConnection_def intro: peerOk_mono split: prod.split\<close>)

lemma run_accounts:
  assumes "doorOk n d" "n + length es + 1 < 2 ^ 64"
  shows "doorOk (n + length es) (wasmRun dump parse es d) \<and>
    accountOf (wasmRun dump parse es d) = accountOf d + mset (submittedCalls dump parse es d)"
  using assms
proof (induction es arbitrary: n d)
  case (Cons e es)
  from Cons.prems have b: "Suc (Suc n) < 2 ^ 64" by simp
  from step_accounts[OF Cons.prems(1) b] have st: "doorOk (Suc n) (wasmStep dump parse e d)"
    "accountOf (wasmStep dump parse e d) = accountOf d + mset (acceptedCalls dump parse e d)" by blast+
  from Cons.IH[OF st(1)] Cons.prems(2) show ?case
    by (simp add: wasmRun_def st(2) ac_simps)
qed (simp add: wasmRun_def)

lemma nothing_waits: "(\<And>p. p \<in> set ps \<Longrightarrow> f p = {#}) \<Longrightarrow> sum_list (map f ps) = ({#} :: 'b multiset)"
  by (induction ps) simp_all


subsection \<open>What every step keeps\<close>

text \<open>The store holds tokens it was handed.\<close>

definition storeGranted :: "'d wasm_door \<Rightarrow> bool" where
  "storeGranted d = (\<forall>(n, t) \<in> set (w_outbound (d_store d)). (n, t) \<in> set (d_granted d))"

lemma outbound_granted: "storeGranted d \<Longrightarrow> outbound (d_store d) n \<noteq> [] \<Longrightarrow> (n, outbound (d_store d) n) \<in> set (d_granted d)"
  by (auto simp: storeGranted_def outbound_def dest!: map_of_SomeD split: option.splits)

lemma set_object_put: "set (object_put k v fs) \<subseteq> insert (k, v) (set fs)"
  by (induction k v fs rule: object_put.induct) auto

lemma storeGranted_saved: "storeGranted d \<Longrightarrow> storeGranted (storeToken n t d)"
  using set_object_put[of n t "w_outbound (d_store d)"] by (auto simp: storeGranted_def storeToken_def saveOutbound_def)

lemma saved_granted: "(n, t) \<in> set (d_granted (storeToken n t d))" "set (d_granted d) \<subseteq> set (d_granted (storeToken n t d))"
  by (auto simp: storeToken_def split: prod.split)

lemma launch_any:
  assumes "launch i msg h d = (os, d1)"
  obtains p where "d1 = setConn i p d" "i < length (d_conns d) \<Longrightarrow> outputs p = outputs (d_conns d ! i) @ os"
    "os = [Emit (CallMsg (msg (nextCallId (d_conns d ! i))))] \<or> (\<exists>r. os = [Answer h r])"
  using assms
  by (auto simp: launch_def sendDoor_def sendCallAsync_def nextId_def registerCall_def claimCall_def pend_claim_def Let_def
      nth_list_update split: if_splits)

lemma stop_sends_nothing:
  obtains os where "outputs (stop reason p) = outputs p @ os" "callsIn os = []"
proof -
  have "callsIn (map (\<lambda>(i, h). Answer h (failReply reason i)) cs) = []"
    "callsIn (map (\<lambda>(i, h). AnswerMethods h (failMethodsReply reason i)) cs) = []" for cs
    by (induction cs) auto
  then show ?thesis using that[of "[]"] that
    by (cases "stopped p")
      (auto simp: stop_def fail_def sweepPending_def Let_def callsIn_append split: option.splits)
qed

text \<open>
  A property of the door that survives its elementary changes survives every step: an answer for a
  client that lives, an answer dropped, a token saved, a connection that sends calls with a
  credential only, and what the host does.
\<close>

locale door_property =
  fixes P :: "'d wasm_door \<Rightarrow> bool"
  assumes reported: "P d \<Longrightarrow> cell \<notin> set (d_dead d) \<Longrightarrow> P (report (cb, cell) ok t d)"
    and dropped: "P d \<Longrightarrow> P (d\<lparr>d_dropped := x\<rparr>)"
    and saved: "P d \<Longrightarrow> P (storeToken n t d)"
    and sent: "P d \<Longrightarrow> i < length (d_conns d) \<Longrightarrow> outputs p = outputs (d_conns d ! i) @ os \<Longrightarrow>
      \<forall>m \<in> set (callsIn os). credentialed d m \<Longrightarrow> P (setConn i p d)"
    and destroyed: "P d \<Longrightarrow> P (d\<lparr>d_dead := c # d_dead d\<rparr>)"
    and installed: "P d \<Longrightarrow> P (d\<lparr>d_conns := d_conns d @ [newPeer True], d_held := hs\<rparr>)"
    and released: "P d \<Longrightarrow> P (d\<lparr>d_held := hs\<rparr>)"
    and pointed: "P d \<Longrightarrow> P (d\<lparr>g_outbound := g\<rparr>)"
    and granted: "P d \<Longrightarrow> storeGranted d"
begin

lemma launched:
  assumes "P d" "\<And>c. credentialed d (msg c)" "launch i msg h d = (os, d1)"
  shows "P d1 \<and> ((\<exists>m. os = [Emit m]) \<or> (\<exists>r. os = [Answer h r]))"
proof (rule launch_any[OF assms(3)], goal_cases)
  case (1 p)
  have "P (setConn i p d)"
  proof (cases "i < length (d_conns d)")
    case True
    from 1(3) have "\<forall>m \<in> set (callsIn os). credentialed d m" by (auto simp: assms(2))
    then show ?thesis by (rule sent[OF assms(1) True 1(2)[OF True]])
  next
    case False
    then have "setConn i p d = d" by (simp add: setConn_def list_update_beyond)
    with assms(1) show ?thesis by simp
  qed
  with 1 show ?case by auto
qed

lemma failed: "P d \<Longrightarrow> cell \<notin> set (d_dead d) \<Longrightarrow> P (failCall dump (cb, cell) e d)"
  by (simp add: failCall_def reported)

lemma resultKept: "P d \<Longrightarrow> P (resultArrives dump cell tgt cb res d)"
  by (simp add: resultArrives_def dropped reported failed)

lemma callKept:
  assumes "P d" "if tok = [] then tgt = kCapabilityModule else (tgt, tok) \<in> set (d_granted d)"
  shows "P (sendOutboundCall dump i cell tgt m tok args cb d)"
proof -
  obtain os d1 where l: "launch i (\<lambda>cid. \<lparr>call_id = cid, call_authToken = tok, call_object = tgt, call_method = m,
      call_args = args, call_caller = []\<rparr>) (SendResult cell tgt cb) d = (os, d1)"
    by (meson surj_pair)
  have "P d1 \<and> ((\<exists>m. os = [Emit m]) \<or> (\<exists>r. os = [Answer (SendResult cell tgt cb) r]))"
    by (rule launched[OF assms(1) _ l]) (use assms(2) in \<open>simp add: credentialed_def\<close>)
  then show ?thesis by (auto simp: sendOutboundCall_def l resultKept)
qed

lemma answerKept: "P d \<Longrightarrow> P (onAnswer dump x d)"
proof (induction dump x d rule: onAnswer.induct)
  case (2 dump i cell tgt m args cb res d)
  have "P (sendOutboundCall dump i cell tgt m tok args cb (storeToken tgt tok d))" if "tok \<noteq> []" for tok
    by (rule callKept[OF saved[OF 2]]) (simp add: that saved_granted)
  with 2 show ?case by (simp add: tokenArrives_def dropped failed)
qed (simp_all add: resultKept)

lemma answersKept: "P d \<Longrightarrow> P (fold (onAnswer dump) os d)"
  by (induction os arbitrary: d) (simp_all add: answerKept)

lemma requestKept:
  assumes "P d"
  shows "P (requestTokenThenSend dump i cell tgt orig m args cb d)"
proof -
  obtain os d1 where l: "launch i (\<lambda>cid. \<lparr>call_id = cid, call_authToken = outbound (d_store d) kCapabilityModule,
          call_object = kCapabilityModule, call_method = ''requestModule'', call_args = [VString orig, VString tgt],
          call_caller = []\<rparr>) (TokenGranted i cell tgt m args cb) d = (os, d1)"
    by (meson surj_pair)
  from launched[OF assms _ l] outbound_granted[OF granted[OF assms], of kCapabilityModule] show ?thesis
    by (simp add: credentialed_def requestTokenThenSend_def l answersKept)
qed

lemma invokeKept:
  assumes "P d" "wc_alive c \<notin> set (d_dead d)" "wasm_invoke_async dump parse (Some c) m a (Some cb) d = Some (k, d1)"
  shows "P d1"
proof -
  have "P (sendOutboundCall dump i (wc_alive c) (wc_target c) x (outbound (d_store d) (wc_target c)) as cb d)"
    if "outbound (d_store d) (wc_target c) \<noteq> [] \<or> wc_target c = kCapabilityModule" for i x as
    by (rule callKept[OF assms(1)]) (use that outbound_granted[OF granted[OF assms(1)]] in auto)
  with assms show ?thesis
    by (auto simp: wasm_invoke_async_def Let_def failed requestKept split: if_splits option.splits sum.splits)
qed

lemma peerKept:
  assumes "P d" "i < length (d_conns d)" "outputs (f (d_conns d ! i)) = outputs (d_conns d ! i) @ os" "callsIn os = []"
  shows "P (peerRuns dump i f d)"
  unfolding peerRuns_def Let_def by (rule answersKept, rule sent[OF assms(1-3)]) (simp add: assms(4))

lemma stepKept:
  assumes "P d"
  shows "P (wasmStep dump parse e d)"
proof (cases e)
  case (WInvoke c m a cb)
  with assms show ?thesis by (auto simp: wasmStep_def intro: invokeKept split: option.split)
next
  case (WMessage i msg)
  have "P (peerRuns dump i (dispatchIncoming msg) d)" if "i < length (d_conns d)"
    by (rule message_cases[where msg = msg and p = "d_conns d ! i" and dump = dump]) (auto intro: peerKept[OF assms that])
  with assms WMessage show ?thesis by (simp add: wasmStep_def connLives_def)
next
  case (WStop i reason)
  obtain os where "outputs (stop reason (d_conns d ! i)) = outputs (d_conns d ! i) @ os" "callsIn os = []"
    by (rule stop_sends_nothing)
  with assms WStop show ?thesis by (auto simp: wasmStep_def connLives_def intro: peerKept)
qed (use assms in \<open>simp_all add: wasmStep_def wasm_client_destroy_def destroyed saved released pointed installed setOutboundConnection_def\<close>)

lemma runKept: "P d \<Longrightarrow> P (wasmRun dump parse es d)"
  unfolding wasmRun_def by (induction es arbitrary: d) (simp_all add: stepKept)

end

lemma storeGranted_simps [simp]:
  "storeGranted (report c ok t d) = storeGranted d" "storeGranted (setConn i p d) = storeGranted d"
  "storeGranted (d\<lparr>d_dropped := x\<rparr>) = storeGranted d" "storeGranted (d\<lparr>d_dead := y\<rparr>) = storeGranted d"
  "storeGranted (d\<lparr>d_held := hs\<rparr>) = storeGranted d" "storeGranted (d\<lparr>g_outbound := g\<rparr>) = storeGranted d"
  "storeGranted (d\<lparr>d_conns := cs\<rparr>) = storeGranted d"
  by (simp_all add: storeGranted_def report_def)

lemma callsSent_simps [simp]:
  "callsSent (report c ok t d) = callsSent d" "callsSent (d\<lparr>d_dropped := x\<rparr>) = callsSent d"
  "callsSent (d\<lparr>d_dead := y\<rparr>) = callsSent d" "callsSent (d\<lparr>d_held := hs\<rparr>) = callsSent d"
  "callsSent (d\<lparr>g_outbound := g\<rparr>) = callsSent d" "callsSent (storeToken n t d) = callsSent d"
  "callsSent (d\<lparr>d_conns := d_conns d @ [newPeer True]\<rparr>) = callsSent d"
  by (simp_all add: callsSent_def report_def newPeer_def)

lemma credentialed_simps [simp]:
  "credentialed (report c ok t d) = credentialed d" "credentialed (d\<lparr>d_dropped := x\<rparr>) = credentialed d"
  "credentialed (d\<lparr>d_dead := y\<rparr>) = credentialed d" "credentialed (d\<lparr>d_held := hs\<rparr>) = credentialed d"
  "credentialed (d\<lparr>g_outbound := g\<rparr>) = credentialed d" "credentialed (setConn i p d) = credentialed d"
  "credentialed (d\<lparr>d_conns := cs\<rparr>) = credentialed d"
  by (simp_all add: credentialed_def report_def fun_eq_iff)

lemma credentialed_saved: "credentialed d m \<Longrightarrow> credentialed (storeToken n t d) m"
  using saved_granted(2)[of d n t] by (auto simp: credentialed_def split: if_splits)

lemma callsSent_setConn:
  "i < length (d_conns d) \<Longrightarrow> outputs p = outputs (d_conns d ! i) @ os \<Longrightarrow>
   callsSent (setConn i p d) \<subseteq> callsSent d \<union> set (callsIn os)"
  using set_update_subset_insert[of "d_conns d" i p] by (fastforce simp: callsSent_def callsIn_append)

definition credentialsKept :: "'d wasm_door \<Rightarrow> bool" where
  "credentialsKept d = (storeGranted d \<and> (\<forall>m \<in> callsSent d. credentialed d m))"

interpretation credentials: door_property credentialsKept
  by unfold_locales (auto simp: credentialsKept_def storeGranted_saved credentialed_saved dest!: callsSent_setConn)

text \<open>The answers a destroyed client was given while it lived.\<close>

definition answersFor :: "nat \<Rightarrow> 'd wasm_door \<Rightarrow> ((nat \<times> nat) \<times> bool \<times> qstring) list" where
  "answersFor cell d = filter (\<lambda>((cb, c), r). c = cell) (d_answers d)"

definition silenced :: "nat \<Rightarrow> ((nat \<times> nat) \<times> bool \<times> qstring) list \<Rightarrow> 'd wasm_door \<Rightarrow> bool" where
  "silenced cell as d = (storeGranted d \<and> cell \<in> set (d_dead d) \<and> answersFor cell d = as)"

interpretation destroyed: door_property "silenced cell as"
  by unfold_locales (auto simp: silenced_def storeGranted_saved answersFor_def)

text \<open>
  C13: no call leaves the image without a credential. Whatever the module and its host do, a call
  carries a token the image was given for the module it is addressed to, by the host or by
  \<open>capability_module\<close>; only a call to \<open>capability_module\<close> itself may carry none.
\<close>

theorem wasm_calls_carry_credentials:
  assumes "d = wasmRun dump parse es newDoor" and "m \<in> callsSent d"
  shows "(call_object m, call_authToken m) \<in> set (d_granted d) \<or>
    (call_object m = kCapabilityModule \<and> call_authToken m = [])"
proof -
  have "credentialsKept newDoor"
    by (simp add: credentialsKept_def storeGranted_def callsSent_def newDoor_def newWasmStore_def)
  from credentials.runKept[OF this, of dump parse es] assms have "credentialed d m"
    by (simp add: credentialsKept_def)
  then show ?thesis by (auto simp: credentialed_def split: if_splits)
qed

text \<open>A client that was destroyed is answered nothing afterwards.\<close>

theorem destroyed_client_is_answered_nothing:
  "answersFor (wc_alive c) (wasmRun dump parse (es @ WDestroy c # es') newDoor) =
   answersFor (wc_alive c) (wasmRun dump parse es newDoor)"
proof -
  let ?d = "wasmRun dump parse es newDoor"
  have "credentialsKept newDoor"
    by (simp add: credentialsKept_def storeGranted_def callsSent_def newDoor_def newWasmStore_def)
  from credentials.runKept[OF this, of dump parse es] have "storeGranted ?d" by (simp add: credentialsKept_def)
  then have "silenced (wc_alive c) (answersFor (wc_alive c) ?d) (wasmStep dump parse (WDestroy c) ?d)"
    by (simp add: silenced_def wasmStep_def wasm_client_destroy_def answersFor_def)
  from destroyed.runKept[OF this, of dump parse es'] show ?thesis
    by (simp add: silenced_def wasmRun_def)
qed

subsection \<open>Concrete runs\<close>

definition chatClient :: wasm_client where
  "chatClient = \<lparr>wc_target = ''storage'', wc_origin = ''chat'', wc_alive = 0\<rparr>"

definition askStorage :: "nat \<Rightarrow> bool wasm_event" where
  "askStorage cb = WInvoke chatClient (Some ''get'') None cb"

definition tokenReply :: "u64 \<Rightarrow> bool wasm_event" where
  "tokenReply i = WMessage 0 (ResultMsg \<lparr>res_id = i, res_ok = True, res_value = VString ''t1'', res_err = [], res_errCode = []\<rparr>)"

definition runShort :: "bool wasm_event list \<Rightarrow> bool wasm_door" where
  "runShort es = wasmRun (\<lambda>j. ''j'') (\<lambda>t. None) es newDoor"

lemma first_call_asks_for_a_token:
  "map (\<lambda>m. (call_object m, call_method m, call_authToken m))
     (callsIn (outputs (d_conns (runShort [WInstall, askStorage 7, tokenReply 1]) ! 0))) =
   [(''capability_module'', ''requestModule'', []), (''storage'', ''get'', ''t1'')]"
  by code_simp

theorem wasm_calls_carry_credentials_witness:
  "(''storage'', ''t1'') \<in> set (d_granted (runShort [WInstall, askStorage 7, tokenReply 1]))"
proof -
  let ?d = "runShort [WInstall, askStorage 7, tokenReply 1]"
  let ?m = "callsIn (outputs (d_conns ?d ! 0)) ! 1"
  have "length (d_conns ?d) = 1" "length (callsIn (outputs (d_conns ?d ! 0))) = 2"
    "(call_object ?m, call_authToken ?m) = (''storage'', ''t1'')" by code_simp+
  moreover from this have "d_conns ?d ! 0 \<in> set (d_conns ?d)" "?m \<in> set (callsIn (outputs (d_conns ?d ! 0)))"
    by (simp_all add: nth_mem)
  then have "?m \<in> callsSent ?d" by (auto simp: callsSent_def)
  ultimately show ?thesis using wasm_calls_carry_credentials[OF runShort_def, of ?m] by simp
qed


text \<open>
  A provider that does not know the token answers the rejection sentinel, a result that is
  \<open>ok\<close>. The desktop client strips it; here the callback hears success.
\<close>

definition rejectedReply :: "bool result_message" where
  "rejectedReply = \<lparr>res_id = 1, res_ok = True, res_value = VMap [(''__logos_rpc_status__'', VString ''unauthorized'')],
     res_err = [], res_errCode = []\<rparr>"

lemma rejected_token_is_reported_as_success:
  "d_answers (runShort [WInstall, WSave ''storage'' ''old'', askStorage 7, WMessage 0 (ResultMsg rejectedReply)]) =
   [((7, 0), True, ''j'')]"
  by code_simp

text \<open>
  Two calls before the first token arrives ask for two tokens, and the token request keeps the
  connection it was sent on: the host let go of it, and the door is still open.
\<close>

lemma overlapping_calls_ask_twice:
  "map (\<lambda>m. (call_object m, call_method m, call_authToken m))
     (callsIn (outputs (d_conns (runShort [WInstall, askStorage 7, askStorage 8]) ! 0))) =
   [(''capability_module'', ''requestModule'', []), (''capability_module'', ''requestModule'', [])]"
  by code_simp

lemma token_request_keeps_the_connection:
  "(outboundDoorIsOpen (runShort [WInstall, askStorage 7, WRelease 0]),
    outboundDoorIsOpen (runShort [WInstall, WRelease 0])) = (True, False)"
  by code_simp

end
