(* ===== verification/Spec2Isabelle.thy ===== *)
theory Spec2Isabelle
  imports Token_Store Identity_Registry Qt_Values Caller_Scope Authorize Module_Proxy
    Base64 Framing Tagged_Bytes Rpc_Values Rpc_Messages Rpc_Peer Rpc_Peer_Threads Rpc_Connection
    Subscription_Registry Api_Consumer Api_Client Client_Handshakes Lidl_Codec
    Qt_Rpc_Values Qt_Json_Convert Plain_Host Plain_Delivery Plain_Server Plain_Object_Calls
    Web_Host Transport_Config Socket_Paths Mock_Store C_Abi_Status C_Abi_Callbacks
    Wasm_Tokens Wasm_Calls
begin

text \<open>
  A model of the Logos protocol library (the C++ sources under src/cpp), theory by theory.

  \<^bold>\<open>The program.\<close> Modules in separate processes call each other. A call leaves through a client
  that presents a token, travels over a connection as a framed, serialized message, and is
  admitted by the proxy in front of the callee before the provider runs. Tokens live in
  per-identity stores. Events come back over the same connection to subscriptions that the
  client keeps armed while modules start, die and restart.

  \<open>Prelude\<close> and \<open>Table_Multisets\<close> hold what the theories share.

  \<^bold>\<open>Tokens and admission.\<close>
  \<^item> \<open>Token_Store\<close>: one \<open>TokenManager\<close> (token_manager.cpp). Both directions share one hash; inbound
    entries live under a reserved key prefix. The lemmas show that the halves are independent,
    by interpreting the locales \<open>token_half\<close> and \<open>split_store\<close> on the code's operations.
  \<^item> \<open>Identity_Registry\<close>: the static part of the same file, which names select which store. The
    invariant \<open>registry_wf\<close> and the relation \<open>grows\<close> carry the theorems over all reachable states.
  \<^item> \<open>Qt_Values\<close>: the rejection sentinel and the call errors (logos_rpc_status.h, logos_call_error.h).
  \<^item> \<open>Caller_Scope\<close>: the per-thread caller document (logos_caller_scope.cpp).
  \<^item> \<open>Authorize\<close>: the scan of module_proxy.cpp, at byte and word level: the constant-time
    comparison, the masked fold of the caller's name, the comparison counter.
  \<^item> \<open>Module_Proxy\<close>: the rest of module_proxy.cpp. The provider is a record of functions of the model.

  \<^bold>\<open>The wire.\<close>
  \<^item> \<open>Base64\<close> and \<open>Tagged_Bytes\<close>: the untyped half of logos_codec.h. \<open>Lidl_Codec\<close>: the
    templates \<open>Codec<T>\<close>, over a datatype of the types they are instantiated at.
  \<^item> \<open>Framing\<close>: rpc_framing.cpp with the drain loop of rpc_connection.h; the locale
    \<open>stream_reader\<close> states what an incremental reader promises about chunks.
  \<^item> \<open>Json_Values\<close>, \<open>Rpc_Values\<close>, \<open>Rpc_Messages\<close>: nlohmann's value type as far as the code looks
    into it, \<open>RpcValue\<close> and the nine messages, both ways (rpc_value.h, rpc_message.h,
    json_mapping.cpp, json_codec.cpp, cbor_codec.cpp).
  \<^item> \<open>Rpc_Peer\<close>: the conversation (rpc_peer.cpp), one operation at a time, with everything it
    hands to the wire or to a handler recorded as an output.
  \<^item> \<open>Rpc_Peer_Threads\<close>: the same operations cut at their lock and atomic accesses and
    interleaved freely. The locale \<open>pending_registry\<close> states what a map of waiting handlers
    promises and is interpreted on both maps.
  \<^item> \<open>Rpc_Connection\<close>: the read loop and the write queue of rpc_connection.h.

  \<^item> \<open>Qt_Rpc_Values\<close> and \<open>Qt_Json_Convert\<close>: the conversions of \<open>QVariant\<close> to wire values
    (qvariant_rpc_value.cpp) and to the JSON of the C ABI (logos_json_convert.cpp).
  \<^item> \<open>Plain_Host\<close>: the serving side (plain_transport_host.cpp): publication, the table of event
    sinks, calls queued to an object's thread. The table is refined to one set of event keys
    per connection.
  \<^item> \<open>Plain_Server\<close>: accept loops, listening and the connecting side (rpc_server.cpp,
    plain_transport_connection.cpp), as a step relation with an inductive invariant.
  \<^item> \<open>Plain_Delivery\<close>: peer, wire, host and proxy composed: events arrive once, calls are
    answered, and what goes wrong behind a bad frame or a second publication.
  \<^item> \<open>Plain_Object\<close>: a handle on a remote object (plain_logos_object.cpp): the call state with its
    parked completions, synchronous calls, events, tokens and the live-reference count. A run of
    operations by other threads is a list; what holds of a parked completion is carried along it.
  \<^item> \<open>Plain_Object_Calls\<close>: the asynchronous calls of a handle as pieces of work, cut at locks and
    atomic operations and interleaved freely; \<open>calls_ok\<close> is the invariant, \<open>weight\<close> the measure
    under which work and deadlines come to an end.

  \<^item> \<open>Web_Transport\<close>: messages over an injected channel (implementations/web): the envelope codec,
    the in-memory channel with its pump, the connection and the client side. A channel is run as a
    list of sends, pump turns, receiver changes and closings in any order.
  \<^item> \<open>Web_Host\<close>: the serving side of the same transport, shown to behave as the plain host does up
    to the label a call carries.

  \<^bold>\<open>Choosing and preparing a transport.\<close>
  \<^item> \<open>Transport_Config\<close>: the configurations and the JSON a child process is handed
    (logos_transport_config_json.cpp), the mode (logos_mode.h) and the factory.
  \<^item> \<open>Socket_Paths\<close>: access policy and removal of local sockets (logos_socket_paths.cpp) over a
    map of inodes; \<open>posix\<close> names what is assumed of chown and chmod.
  \<^item> \<open>Mock_Store\<close>: the mock transport (implementations/mock), its store refined to a function that
    expectations override.

  \<^bold>\<open>Subscriptions.\<close>
  \<^item> \<open>Subscription_Registry\<close>: \<open>LogosPendingSubscriptions\<close> of logos_api_consumer.cpp: pending, armed
    and held subscriptions, the handles, the generations and the watchdog timer.

  \<^bold>\<open>Making calls.\<close>
  \<^item> \<open>Api_Consumer\<close>: \<open>LogosAPIConsumer\<close> (logos_api_consumer.cpp): the cache of remote handles,
    calls, the delivery of a token to a module, and the owner of the subscription registry.
    A ledger over its log shows every handle owned when it is used and released in the end.
  \<^item> \<open>Api_Client\<close>: the blocking call of \<open>LogosAPIClient\<close> (logos_api_client.cpp): wait for the
    target, exchange a token, call, and on rejection exchange and call once more.
  \<^item> \<open>Client_Handshakes\<close>: its asynchronous calls. The locale \<open>call_accounting\<close> counts calls by
    any weight that the steps move but do not change; it is interpreted twice, on the callers
    that are answered and on the calls dispatched.

  \<^bold>\<open>The C interface.\<close>
  \<^item> \<open>C_Abi\<close>: modes, the grant of host services and the token functions of logos_protocol.cpp, for
    one image; what is written as inbound is compared with a run without those writes.
  \<^item> \<open>C_Abi_Client\<close>: clients, calls, subscriptions, introspection and providers, marshalled over
    \<open>Api_Client\<close>, \<open>Api_Consumer\<close> and \<open>Qt_Json_Convert\<close>.
  \<^item> \<open>C_Abi_Status\<close>: the subscription registry and the status function of a client composed:
    \<open>tells\<close> relates the log of a registry step to the generation of the target.
  \<^item> \<open>C_Abi_Callbacks\<close>: the guards around user functions, destruction and cancellation, as stacks
    of frames on any number of threads; \<open>cbInv\<close> says what each frame tells of the flags.

  \<^item> \<open>Wasm_Tokens\<close> and \<open>Wasm_Calls\<close>: the second implementation, for a WebAssembly image
    (implementations/wasm): its token functions run side by side with those of \<open>C_Abi\<close>, and its
    calls over the host's one connection, a peer of \<open>Rpc_Peer\<close>. The locale \<open>door_property\<close>
    carries what the elementary changes keep through every step; it is interpreted on the
    credentials of calls and on the silence after a destruction.

  \<^bold>\<open>Conventions.\<close> Strings are HOL strings; where the bytes matter they are taken to bytes.
  \<open>QHash\<close> and \<open>std::map\<close> are association lists with distinct keys, words keep their width.
  What is not under src/ is a parameter: nlohmann's printers and parsers, conversions between
  \<open>QVariant\<close> types, the rounding of a float to an integer, the validity of a handle and the
  answers of a transport. User callbacks and messages are outputs in the order in which the
  code makes them; callbacks that call back into the object they come from are modelled as
  later operations, as the code's copy-then-invoke discipline makes them. A blocking call may
  run a nested event loop; what other frames do to the token store meanwhile is a function
  in \<open>frames\<close>, or an event. Where a callback may come at once or later, both are events. Ids come from
  64-bit counters starting at one; the theorems about them speak of fewer than \<open>2 ^ 64\<close>
  operations, or of interleavings in which ids are fresh. No fuel is used anywhere: every
  recursive definition is structural or has a termination proof.

  \<^bold>\<open>Not modelled yet\<close>, in the order planned: the C ABI, which marshals over these parts, and the
  Qt Remote Objects and in-process transports, which are glue over Qt.
\<close>

end
